(* ===== verification/Prelude.thy ===== *)
theory Prelude
  imports Main "HOL-Library.Word" "HOL-Library.Char_ord" "HOL-Library.List_Lexorder"
    "HOL-Library.Multiset" "HOL-Library.Code_Target_Nat"
begin

text \<open>
  Shared vocabulary of the development: the machine integer types, the ordered map
  (\<open>std::map\<close>) as a strictly sorted association list, the hash map
  (\<open>std::unordered_map\<close>) as an association list with distinct keys, and sorting
  (\<open>std::sort\<close>) with an explicit undefined outcome when the comparator is not a strict weak
  ordering on the elements at hand.  The named collections gather the facts the component
  theories hand to \<open>simp\<close> and \<open>auto\<close>.
\<close>

unbundle bit_operations_syntax

named_theorems map_lookup "lookups after an update of an ordered map"
named_theorems map_keys "key sets and orderedness of ordered maps"

type_synonym u8 = "8 word"
type_synonym u32 = "32 word"
type_synonym u64 = "64 word"

text \<open>Undefined behaviour of the C++ program is the value \<open>None\<close> of type \<open>'a option\<close>.\<close>

abbreviation (input) undefined_behaviour :: "'a option" where
  "undefined_behaviour \<equiv> None"


section \<open>Bounds-checked indexing\<close>

text \<open>\<open>operator[]\<close> of a vector: reading past the end is undefined.\<close>

definition elem_at :: "'a list \<Rightarrow> nat \<Rightarrow> 'a option" where
  "elem_at xs i = (if i < length xs then Some (xs ! i) else None)"

lemma elem_at_Some [simp]: "i < length xs \<Longrightarrow> elem_at xs i = Some (xs ! i)"
  by (simp add: elem_at_def)

lemma elem_at_eq_Some: "elem_at xs i = Some x \<longleftrightarrow> i < length xs \<and> xs ! i = x"
  by (auto simp: elem_at_def)

lemma elem_at_eq_None: "elem_at xs i = None \<longleftrightarrow> length xs \<le> i"
  by (auto simp: elem_at_def)


section \<open>Loops that may fail\<close>

text \<open>A loop over a list whose body returns the next state or leaves with \<open>None\<close>.\<close>

fun ofold :: "('a \<Rightarrow> 's \<Rightarrow> 's option) \<Rightarrow> 'a list \<Rightarrow> 's \<Rightarrow> 's option" where
  "ofold f [] s = Some s"
| "ofold f (x # xs) s = (case f x s of None \<Rightarrow> None | Some s' \<Rightarrow> ofold f xs s')"

text \<open>The invariant rule: \<open>P\<close> holds of what is left to do and the state.\<close>

lemma ofold_invariant:
  assumes "P xs s" "\<And>x xs s. P (x # xs) s \<Longrightarrow> \<exists>s'. f x s = Some s' \<and> P xs s'"
  shows "\<exists>s'. ofold f xs s = Some s' \<and> P [] s'"
  using assms(1)
proof (induction xs arbitrary: s)
  case (Cons x xs)
  then show ?case using assms(2) [OF Cons.prems] by auto
qed simp

lemma ofold_append: "ofold f (xs @ ys) s = Option.bind (ofold f xs s) (ofold f ys)"
  by (induction xs arbitrary: s) (auto split: option.split)


section \<open>Ordered maps\<close>

text \<open>A \<open>std::map<K, V>\<close>: the entries in ascending key order.\<close>

type_synonym ('k, 'v) omap = "('k \<times> 'v) list"

abbreviation omap_keys :: "('k \<times> 'v) list \<Rightarrow> 'k set" where
  "omap_keys m \<equiv> fst ` set m"

abbreviation omap_ok :: "('k::linorder \<times> 'v) list \<Rightarrow> bool" where
  "omap_ok m \<equiv> sorted_wrt (<) (map fst m)"

text \<open>\<open>m.find(k)\<close>: the value stored under the key, if any.\<close>

fun omap_find :: "'k \<Rightarrow> ('k \<times> 'v) list \<Rightarrow> 'v option" where
  "omap_find k [] = None"
| "omap_find k ((k', v) # m) = (if k' = k then Some v else omap_find k m)"

text \<open>\<open>m[k] = v\<close>: inserts at the key's place or overwrites.\<close>

fun omap_set :: "'k::linorder \<Rightarrow> 'v \<Rightarrow> ('k \<times> 'v) list \<Rightarrow> ('k \<times> 'v) list" where
  "omap_set k v [] = [(k, v)]"
| "omap_set k v ((k', v') # m) =
     (if k < k' then (k, v) # (k', v') # m
      else if k = k' then (k, v) # m
      else (k', v') # omap_set k v m)"

text \<open>\<open>m.emplace(k, v)\<close>: leaves the map alone when the key is present.\<close>

definition omap_emplace :: "'k::linorder \<Rightarrow> 'v \<Rightarrow> ('k \<times> 'v) list \<Rightarrow> ('k \<times> 'v) list" where
  "omap_emplace k v m = (case omap_find k m of None \<Rightarrow> omap_set k v m | Some _ \<Rightarrow> m)"

text \<open>\<open>m.erase(k)\<close>.\<close>

fun omap_erase :: "'k \<Rightarrow> ('k \<times> 'v) list \<Rightarrow> ('k \<times> 'v) list" where
  "omap_erase k [] = []"
| "omap_erase k ((k', v) # m) = (if k' = k then m else (k', v) # omap_erase k m)"

lemma omap_find_eq_map_of: "omap_find k m = map_of m k"
  by (induction m) auto

lemma omap_find_None [map_lookup]: "omap_find k m = None \<longleftrightarrow> k \<notin> omap_keys m"
  by (simp add: omap_find_eq_map_of map_of_eq_None_iff)

lemma omap_find_SomeD: "omap_find k m = Some v \<Longrightarrow> (k, v) \<in> set m"
  by (simp add: omap_find_eq_map_of map_of_SomeD)

lemma omap_find_Some_key: "omap_find k m = Some v \<Longrightarrow> k \<in> omap_keys m"
  by (force dest: omap_find_SomeD)

lemma omap_ok_distinct: "omap_ok m \<Longrightarrow> distinct (map fst m)"
  using strict_sorted_iff by blast

lemma omap_find_Some_iff:
  "distinct (map fst m) \<Longrightarrow> omap_find k m = Some v \<longleftrightarrow> (k, v) \<in> set m"
  by (simp add: omap_find_eq_map_of map_of_eq_Some_iff)

lemma omap_find_set [map_lookup]:
  "omap_find j (omap_set k v m) = (if j = k then Some v else omap_find j m)"
  by (induction m) auto

lemma omap_keys_set [map_keys]: "omap_keys (omap_set k v m) = insert k (omap_keys m)"
proof (induction m)
  case (Cons e m)
  then show ?case by (cases e) (simp add: insert_commute)
qed simp

lemma set_omap_set_subset: "set (omap_set k v m) \<subseteq> insert (k, v) (set m)"
  by (induction m) (auto split: if_splits)

lemma omap_ok_set [map_keys]:
  "omap_ok m \<Longrightarrow> omap_ok (omap_set k v m)"
proof (induction m)
  case (Cons e m)
  have "\<forall>x \<in> omap_keys (omap_set k v m). x = k \<or> x \<in> omap_keys m"
    by (auto simp: omap_keys_set)
  with Cons show ?case by (cases e) force
qed simp

lemma omap_find_erase [map_lookup]:
  "distinct (map fst m) \<Longrightarrow>
   omap_find j (omap_erase k m) = (if j = k then None else omap_find j m)"
proof (induction m)
  case (Cons e m)
  then have "omap_find (fst e) m = None"
    by (simp add: omap_find_None)
  with Cons show ?case by (cases e) auto
qed simp

lemma set_omap_erase:
  "distinct (map fst m) \<Longrightarrow> set (omap_erase k m) = {e \<in> set m. fst e \<noteq> k}"
  by (induction m) force+

lemma set_omap_erase_subset: "set (omap_erase k m) \<subseteq> set m"
  by (induction m) (auto split: if_splits)

lemma omap_keys_erase [map_keys]:
  "distinct (map fst m) \<Longrightarrow> omap_keys (omap_erase k m) = omap_keys m - {k}"
  by (force simp: set_omap_erase)

lemma omap_ok_erase [map_keys]: "omap_ok m \<Longrightarrow> omap_ok (omap_erase k m)"
proof (induction m)
  case (Cons e m)
  then show ?case using set_omap_erase_subset [of k m] by (cases e) force
qed simp

lemma distinct_omap_erase:
  "distinct (map fst m) \<Longrightarrow> distinct (map fst (omap_erase k m))"
proof (induction m)
  case (Cons e m)
  then show ?case using set_omap_erase_subset [of k m] by (cases e) force
qed simp

lemma omap_erase_absent [simp]: "k \<notin> omap_keys m \<Longrightarrow> omap_erase k m = m"
  by (induction m) auto

lemma omap_emplace_absent: "k \<notin> omap_keys m \<Longrightarrow> omap_emplace k v m = omap_set k v m"
  by (simp add: omap_emplace_def omap_find_None [THEN iffD2])

lemma omap_emplace_present: "k \<in> omap_keys m \<Longrightarrow> omap_emplace k v m = m"
  using omap_find_None [of k m] by (auto simp: omap_emplace_def split: option.split)

lemma omap_erase_set [simp]:
  "k \<notin> omap_keys m \<Longrightarrow> omap_erase k (omap_set k v m) = m"
  by (induction m) auto

lemma omap_set_last:
  "\<forall>j \<in> omap_keys m. j < k \<Longrightarrow> omap_set k v m = m @ [(k, v)]"
  by (induction m) (auto dest: less_imp_not_less)

lemma length_omap_set:
  "length (omap_set k v m) = (if omap_find k m = None then Suc (length m) else length m)"
  if "omap_ok m"
  using that
proof (induction m)
  case (Cons e m)
  have "k \<notin> omap_keys m" if "k < fst e"
    using Cons.prems that by force
  with Cons show ?case by (cases e) (auto simp: omap_find_None)
qed simp

lemma length_omap_erase:
  "length (omap_erase k m) = (if omap_find k m = None then length m else length m - 1)"
proof (induction m)
  case (Cons e m)
  then show ?case
    by (cases e, cases m) (auto simp: omap_find_eq_map_of)
qed simp

lemma omap_ok_eqI:
  fixes m m' :: "('k::linorder \<times> 'v) list"
  assumes "omap_ok m" "omap_ok m'" "\<And>k. omap_find k m = omap_find k m'"
  shows "m = m'"
proof -
  have "distinct (map fst m)" "distinct (map fst m')"
    using assms(1,2) by (simp_all add: omap_ok_distinct)
  then have "set m = set m'"
    using assms(3) by (metis omap_find_Some_iff subsetI subset_antisym surj_pair)
  then have "sorted_list_of_set (omap_keys m) = sorted_list_of_set (omap_keys m')"
    by simp
  moreover have "map fst m = sorted_list_of_set (omap_keys m)"
    using assms(1) by (metis image_set sorted_list_of_set.idem_if_sorted_distinct
        strict_sorted_iff)
  moreover have "map fst m' = sorted_list_of_set (omap_keys m')"
    using assms(2) by (metis image_set sorted_list_of_set.idem_if_sorted_distinct
        strict_sorted_iff)
  ultimately have keys: "map fst m = map fst m'" by simp
  show ?thesis
  proof (rule nth_equalityI)
    show len: "length m = length m'" using keys by (metis length_map)
    fix i assume i: "i < length m"
    have "omap_find (fst (m ! i)) m = Some (snd (m ! i))"
      using \<open>distinct (map fst m)\<close> i by (simp add: omap_find_Some_iff)
    moreover have "omap_find (fst (m' ! i)) m' = Some (snd (m' ! i))"
      using \<open>distinct (map fst m')\<close> i len by (simp add: omap_find_Some_iff)
    moreover have "fst (m ! i) = fst (m' ! i)"
      using keys i len by (metis nth_map)
    ultimately show "m ! i = m' ! i"
      using assms(3) by (metis option.inject prod.collapse)
  qed
qed

end
