(* ===== verification/Ordering.thy ===== *)
theory Ordering
  imports Prelude
begin

text \<open>
  Sorting and priority queues of the C++ library, over a comparator \<open>lt\<close> as the code passes it.
  Both need \<open>lt\<close> to be a strict weak ordering on the elements they hold; elsewhere their
  behaviour is undefined, which the model records as \<open>None\<close>.  The locale \<open>strict_weak\<close> is the
  interface of a comparator that is a strict weak ordering on a set of good elements, and
  \<open>strict_total\<close> the one that also separates distinct elements: there every correct sort returns
  the same list, so the insertion sort below stands for any \<open>std::sort\<close>.
\<close>

section \<open>The model\<close>

definition strict_weak_on :: "('a \<Rightarrow> 'a \<Rightarrow> bool) \<Rightarrow> 'a list \<Rightarrow> bool" where
  "strict_weak_on lt xs \<longleftrightarrow>
     (\<forall>x \<in> set xs. \<forall>y \<in> set xs. lt x y \<longrightarrow>
        \<not> lt y x \<and> (\<forall>z \<in> set xs. lt x z \<or> lt z y))"

fun ins_by :: "('a \<Rightarrow> 'a \<Rightarrow> bool) \<Rightarrow> 'a \<Rightarrow> 'a list \<Rightarrow> 'a list" where
  "ins_by lt x [] = [x]"
| "ins_by lt x (y # ys) = (if lt y x then y # ins_by lt x ys else x # y # ys)"

fun sort_by :: "('a \<Rightarrow> 'a \<Rightarrow> bool) \<Rightarrow> 'a list \<Rightarrow> 'a list" where
  "sort_by lt [] = []"
| "sort_by lt (x # xs) = ins_by lt x (sort_by lt xs)"

text \<open>\<open>std::sort(first, last, lt)\<close>.\<close>

definition std_sort :: "('a \<Rightarrow> 'a \<Rightarrow> bool) \<Rightarrow> 'a list \<Rightarrow> 'a list option" where
  "std_sort lt xs = (if strict_weak_on lt xs then Some (sort_by lt xs) else undefined_behaviour)"

text \<open>
  A \<open>std::priority_queue\<close> whose top is least under \<open>lt\<close> is the list of its elements in the
  order they would be popped.
\<close>

definition pq_push :: "('a \<Rightarrow> 'a \<Rightarrow> bool) \<Rightarrow> 'a \<Rightarrow> 'a list \<Rightarrow> 'a list option" where
  "pq_push lt x q =
     (if strict_weak_on lt (x # q) then Some (ins_by lt x q) else undefined_behaviour)"

abbreviation sorted_by :: "('a \<Rightarrow> 'a \<Rightarrow> bool) \<Rightarrow> 'a list \<Rightarrow> bool" where
  "sorted_by lt \<equiv> sorted_wrt (\<lambda>x y. \<not> lt y x)"


section \<open>Facts that need no assumption on the comparator\<close>

lemma mset_ins_by [simp]: "mset (ins_by lt x xs) = add_mset x (mset xs)"
  by (induction xs) auto

lemma set_ins_by [simp]: "set (ins_by lt x xs) = insert x (set xs)"
  using mset_ins_by [of lt x xs] by (metis set_mset_add_mset_insert set_mset_mset)

lemma length_ins_by [simp]: "length (ins_by lt x xs) = Suc (length xs)"
  using mset_ins_by [of lt x xs] by (metis size_add_mset size_mset)

lemma mset_sort_by [simp]: "mset (sort_by lt xs) = mset xs"
  by (induction xs) auto

lemma set_sort_by [simp]: "set (sort_by lt xs) = set xs"
  by (metis mset_sort_by set_mset_mset)

lemma length_sort_by [simp]: "length (sort_by lt xs) = length xs"
  by (metis mset_sort_by size_mset)

lemma distinct_sort_by [simp]: "distinct (sort_by lt xs) = distinct xs"
  by (metis mset_eq_imp_distinct_iff mset_sort_by)

lemma std_sort_mset: "std_sort lt xs = Some ys \<Longrightarrow> mset ys = mset xs"
  by (auto simp: std_sort_def split: if_splits)

lemma std_sort_set: "std_sort lt xs = Some ys \<Longrightarrow> set ys = set xs"
  by (metis std_sort_mset set_mset_mset)

lemma std_sort_length: "std_sort lt xs = Some ys \<Longrightarrow> length ys = length xs"
  by (metis std_sort_mset size_mset)

lemma std_sort_distinct_map:
  "std_sort lt xs = Some ys \<Longrightarrow> distinct (map f ys) \<longleftrightarrow> distinct (map f xs)"
  by (metis mset_eq_imp_distinct_iff mset_map std_sort_mset)

lemma strict_weak_on_cong:
  "set xs = set ys \<Longrightarrow> strict_weak_on lt xs = strict_weak_on lt ys"
  by (simp add: strict_weak_on_def)

lemma strict_weak_on_asym:
  "strict_weak_on lt xs \<Longrightarrow> x \<in> set xs \<Longrightarrow> y \<in> set xs \<Longrightarrow> lt x y \<Longrightarrow> \<not> lt y x"
  by (simp add: strict_weak_on_def)

lemma strict_weak_on_cotrans:
  "strict_weak_on lt xs \<Longrightarrow> x \<in> set xs \<Longrightarrow> y \<in> set xs \<Longrightarrow> z \<in> set xs \<Longrightarrow> lt x y \<Longrightarrow>
   lt x z \<or> lt z y"
  by (simp add: strict_weak_on_def)

lemma strict_weak_on_Nil [simp]: "strict_weak_on lt []"
  by (simp add: strict_weak_on_def)

lemma strict_weak_on_subset:
  "strict_weak_on lt ys \<Longrightarrow> set xs \<subseteq> set ys \<Longrightarrow> strict_weak_on lt xs"
  unfolding strict_weak_on_def by (simp add: subset_iff)

lemma sorted_by_ins:
  assumes "strict_weak_on lt (x # xs)" "sorted_by lt xs"
  shows "sorted_by lt (ins_by lt x xs)"
  using assms
proof (induction xs)
  case (Cons y ys)
  have sw: "strict_weak_on lt (x # ys)"
    using Cons.prems(1) by (rule strict_weak_on_subset) auto
  have asym: "\<not> lt y x" if "lt x y"
    using strict_weak_on_asym [OF Cons.prems(1), of x y] that by auto
  have trans: "\<not> lt z x" if "\<not> lt y x" "\<not> lt z y" "z \<in> set ys" for z
    using strict_weak_on_cotrans [OF Cons.prems(1), of z x y] that by auto
  show ?case
  proof (cases "lt y x")
    case True
    with Cons sw asym show ?thesis by auto
  next
    case False
    with Cons.prems trans show ?thesis by auto
  qed
qed simp

lemma sorted_by_sort:
  "strict_weak_on lt xs \<Longrightarrow> sorted_by lt (sort_by lt xs)"
proof (induction xs)
  case (Cons x xs)
  have "strict_weak_on lt xs"
    using Cons.prems by (rule strict_weak_on_subset) auto
  moreover have "strict_weak_on lt (x # sort_by lt xs)"
    using Cons.prems by (rule strict_weak_on_subset) auto
  ultimately show ?case
    using Cons.IH by (simp add: sorted_by_ins)
qed simp

lemma std_sort_sorted: "std_sort lt xs = Some ys \<Longrightarrow> sorted_by lt ys"
  by (auto simp: std_sort_def sorted_by_sort split: if_splits)

lemma sorted_by_take_least:
  assumes "sorted_by lt xs" "x \<in> set (take k xs)" "y \<in> set (drop k xs)"
  shows "\<not> lt y x"
  using assms by (metis append_take_drop_id sorted_wrt_append)


section \<open>Comparators as an interface\<close>

locale strict_weak =
  fixes lt :: "'a \<Rightarrow> 'a \<Rightarrow> bool" and good :: "'a set"
  assumes lt_asym: "x \<in> good \<Longrightarrow> y \<in> good \<Longrightarrow> lt x y \<Longrightarrow> \<not> lt y x"
    and lt_cotrans: "x \<in> good \<Longrightarrow> y \<in> good \<Longrightarrow> z \<in> good \<Longrightarrow> lt x y \<Longrightarrow> lt x z \<or> lt z y"
begin

lemma swo: "set xs \<subseteq> good \<Longrightarrow> strict_weak_on lt xs"
  unfolding strict_weak_on_def
proof (intro conjI ballI impI)
  fix x y z assume "set xs \<subseteq> good" "x \<in> set xs" "y \<in> set xs" "z \<in> set xs" "lt x y"
  then show "lt x z \<or> lt z y" by (intro lt_cotrans) auto
qed (use lt_asym in blast)

lemma lt_irrefl: "x \<in> good \<Longrightarrow> \<not> lt x x"
  using lt_asym by blast


lemma std_sort_defined: "set xs \<subseteq> good \<Longrightarrow> std_sort lt xs = Some (sort_by lt xs)"
  by (simp add: std_sort_def swo)

lemma pq_push_defined: "x \<in> good \<Longrightarrow> set q \<subseteq> good \<Longrightarrow> pq_push lt x q = Some (ins_by lt x q)"
  by (simp add: pq_push_def swo)

lemma sort_by_sorted: "set xs \<subseteq> good \<Longrightarrow> sorted_by lt (sort_by lt xs)"
  by (simp add: swo sorted_by_sort)

text \<open>Where the comparator separates the elements of a list, its sorted rearrangement is unique.\<close>

lemma sorted_unique_on:
  assumes "set xs \<subseteq> good" "mset xs = mset ys" "sorted_by lt xs" "sorted_by lt ys"
    and "\<And>x y. x \<in> set xs \<Longrightarrow> y \<in> set xs \<Longrightarrow> \<not> lt x y \<Longrightarrow> \<not> lt y x \<Longrightarrow> x = y"
  shows "xs = ys"
  using assms
proof (induction xs arbitrary: ys)
  case (Cons x xs)
  then obtain y zs where ys: "ys = y # zs"
    by (cases ys) auto
  have eq: "set (x # xs) = set ys"
    using Cons.prems(2) by (metis set_mset_mset)
  then have yg: "y \<in> good" "x \<in> set ys" "y \<in> set (x # xs)"
    using Cons.prems(1) ys by auto
  have "\<not> lt y x"
    using Cons.prems(1,3) yg lt_irrefl by auto
  moreover have "\<not> lt x y"
    using Cons.prems(4) yg ys lt_irrefl by auto
  ultimately have xy: "x = y"
    using Cons.prems(5) [of x y] yg by simp
  have "xs = zs"
    using Cons.prems xy ys by (intro Cons.IH) auto
  then show ?case using xy ys by simp
qed simp

lemma sort_by_perm_on:
  assumes "set xs \<subseteq> good" "mset xs = mset ys"
    and "\<And>x y. x \<in> set xs \<Longrightarrow> y \<in> set xs \<Longrightarrow> \<not> lt x y \<Longrightarrow> \<not> lt y x \<Longrightarrow> x = y"
  shows "sort_by lt xs = sort_by lt ys"
proof (rule sorted_unique_on)
  have "set ys = set xs" using assms(2) by (metis set_mset_mset)
  then show "sorted_by lt (sort_by lt ys)" using assms(1) sort_by_sorted by simp
qed (use assms sort_by_sorted in auto)

end

locale strict_total = strict_weak +
  assumes lt_total: "x \<in> good \<Longrightarrow> y \<in> good \<Longrightarrow> \<not> lt x y \<Longrightarrow> \<not> lt y x \<Longrightarrow> x = y"
begin

lemma sorted_unique:
  assumes "set xs \<subseteq> good" "mset xs = mset ys" "sorted_by lt xs" "sorted_by lt ys"
  shows "xs = ys"
  using assms lt_total by (intro sorted_unique_on) auto

text \<open>Whatever a sort does, a sorted permutation of the input is the model's result.\<close>

lemma any_sort_agrees:
  assumes "set xs \<subseteq> good" "mset ys = mset xs" "sorted_by lt ys"
  shows "ys = sort_by lt xs"
proof (rule sorted_unique)
  show "set ys \<subseteq> good" using assms by (metis set_mset_mset)
qed (use assms sort_by_sorted in auto)

lemma sort_by_perm:
  "set xs \<subseteq> good \<Longrightarrow> mset xs = mset ys \<Longrightarrow> sort_by lt xs = sort_by lt ys"
  using lt_total by (intro sort_by_perm_on) auto

end

text \<open>The usual order of a linearly ordered type is such an interface.\<close>

interpretation linear: strict_total "(<) :: 'a::linorder \<Rightarrow> 'a \<Rightarrow> bool" UNIV
  by unfold_locales auto

end
