(* ===== verification/Floats.thy ===== *)
theory Floats
  imports Complex_Main Ordering
begin

text \<open>
  The C++ types \<open>float\<close> and \<open>double\<close>: IEEE 754 binary32 and binary64 values as their bit
  patterns, with the operations the program uses (classification, comparison, conversion, sum,
  product, fused multiply-add, quotient, square root) in round-to-nearest-even.  Every operation
  decodes its operands into an integer significand and exponent, computes exactly on integers and
  rounds once, as the standard asks.  A NaN result is the quiet NaN with a clear sign; the program
  never looks at a NaN's payload.
\<close>

section \<open>Formats and rounding\<close>

text \<open>
  A format: the precision in bits, the magnitude bits of infinity, and the exponent \<open>unit\<close> such
  that every finite value is a multiple of \<open>2 ^ -unit\<close>.  A value is a sign and magnitude bits (the
  pattern without its sign bit); the order of magnitudes is the order of absolute values.
\<close>

record fmt =
  prec :: nat
  infm :: nat
  funit :: nat

definition F32 :: fmt where "F32 = \<lparr>prec = 24, infm = 255 * 2 ^ 23, funit = 149\<rparr>"
definition F64 :: fmt where "F64 = \<lparr>prec = 53, infm = 2047 * 2 ^ 52, funit = 1074\<rparr>"

type_synonym smag = "bool \<times> nat"

fun bitlen :: "nat \<Rightarrow> nat" where
  "bitlen n = (if n = 0 then 0 else Suc (bitlen (n div 2)))"

declare bitlen.simps [simp del]

text \<open>Round \<open>m / 2 ^ s\<close> to the nearest integer, ties to even.\<close>

definition rne :: "nat \<Rightarrow> nat \<Rightarrow> nat" where
  "rne m s =
     (if s = 0 then m
      else let q = m div 2 ^ s; r = m mod 2 ^ s; h = 2 ^ (s - 1)
           in if h < r \<or> (r = h \<and> odd q) then q + 1 else q)"

text \<open>The significand and the exponent (in units) of finite magnitude bits.\<close>

definition sig :: "fmt \<Rightarrow> nat \<Rightarrow> nat" where
  "sig F m = (let E = m div 2 ^ (prec F - 1); f = m mod 2 ^ (prec F - 1)
              in if E = 0 then f else f + 2 ^ (prec F - 1))"

definition expo :: "fmt \<Rightarrow> nat \<Rightarrow> nat" where
  "expo F m = m div 2 ^ (prec F - 1) - 1"

text \<open>The magnitude bits nearest to \<open>m * 2 ^ k\<close> units, infinity on overflow.\<close>

definition round_mag :: "fmt \<Rightarrow> nat \<Rightarrow> int \<Rightarrow> nat" where
  "round_mag F m k =
     (if m = 0 then 0
      else let q = max 0 (k + int (bitlen m) - int (prec F));
               m' = (if q \<le> k then m * 2 ^ nat (k - q) else rne m (nat (q - k)))
           in min (infm F) (nat q * 2 ^ (prec F - 1) + m'))"


section \<open>Operations on sign and magnitude\<close>

definition nanv :: "fmt \<Rightarrow> smag" where
  "nanv F = (False, infm F + 2 ^ (prec F - 2))"

definition is_nanm :: "fmt \<Rightarrow> smag \<Rightarrow> bool" where
  "is_nanm F x \<longleftrightarrow> infm F < snd x"

definition is_finm :: "fmt \<Rightarrow> smag \<Rightarrow> bool" where
  "is_finm F x \<longleftrightarrow> snd x < infm F"

text \<open>The exact signed significand over a common exponent, for sums.\<close>

definition ssig :: "fmt \<Rightarrow> smag \<Rightarrow> nat \<Rightarrow> int" where
  "ssig F x k = (if fst x then -1 else 1) * (int (sig F (snd x)) * 2 ^ (expo F (snd x) - k))"

definition fp_neg :: "fmt \<Rightarrow> smag \<Rightarrow> smag" where
  "fp_neg F x = (if is_nanm F x then nanv F else (\<not> fst x, snd x))"

definition fp_add :: "fmt \<Rightarrow> smag \<Rightarrow> smag \<Rightarrow> smag" where
  "fp_add F x y =
     (if is_nanm F x \<or> is_nanm F y then nanv F
      else if snd x = infm F then (if snd y = infm F \<and> fst x \<noteq> fst y then nanv F else x)
      else if snd y = infm F then y
      else let k = min (expo F (snd x)) (expo F (snd y)); s = ssig F x k + ssig F y k
           in if s = 0 then (fst x \<and> fst y, 0) else (s < 0, round_mag F (nat \<bar>s\<bar>) (int k)))"

definition fp_mul :: "fmt \<Rightarrow> smag \<Rightarrow> smag \<Rightarrow> smag" where
  "fp_mul F x y =
     (if is_nanm F x \<or> is_nanm F y then nanv F
      else if snd x = infm F \<or> snd y = infm F
           then (if snd x = 0 \<or> snd y = 0 then nanv F else (fst x \<noteq> fst y, infm F))
      else (fst x \<noteq> fst y,
            round_mag F (sig F (snd x) * sig F (snd y))
              (int (expo F (snd x) + expo F (snd y)) - int (funit F))))"

text \<open>
  The quotient keeps enough bits for the rounding to see, with a sticky bit for the rest.
\<close>

definition fp_div :: "fmt \<Rightarrow> smag \<Rightarrow> smag \<Rightarrow> smag" where
  "fp_div F x y =
     (let s = (fst x \<noteq> fst y) in
      if is_nanm F x \<or> is_nanm F y then nanv F
      else if snd x = infm F then (if snd y = infm F then nanv F else (s, infm F))
      else if snd y = infm F then (s, 0)
      else if snd y = 0 then (if snd x = 0 then nanv F else (s, infm F))
      else let t = 2 * prec F + 2; n = sig F (snd x) * 2 ^ t; d = sig F (snd y);
               m = 2 * (n div d) + (if n mod d = 0 then 0 else 1)
           in (s, round_mag F m (int (expo F (snd x)) - int (expo F (snd y))
                                 + int (funit F) - int t - 1)))"

fun isqrt :: "nat \<Rightarrow> nat" where
  "isqrt n = (if n = 0 then 0
              else let r = 2 * isqrt (n div 4) in if (r + 1) ^ 2 \<le> n then r + 1 else r)"

declare isqrt.simps [simp del]

definition fp_sqrt :: "fmt \<Rightarrow> smag \<Rightarrow> smag" where
  "fp_sqrt F x =
     (if is_nanm F x then nanv F
      else if snd x = 0 then x
      else if fst x then nanv F
      else if snd x = infm F then x
      else let e = int (expo F (snd x)) - int (funit F);
               t = 2 * prec F + 2 + (if even e then 0 else 1);
               n = sig F (snd x) * 2 ^ t; r = isqrt n;
               m = 2 * r + (if r * r = n then 0 else 1)
           in (False, round_mag F m ((e - int t) div 2 - 1 + int (funit F))))"

text \<open>\<open>x * y + z\<close> with one rounding.\<close>

definition fp_fma :: "fmt \<Rightarrow> smag \<Rightarrow> smag \<Rightarrow> smag \<Rightarrow> smag" where
  "fp_fma F x y z =
     (let s = (fst x \<noteq> fst y) in
      if is_nanm F x \<or> is_nanm F y \<or> is_nanm F z then nanv F
      else if snd x = infm F \<or> snd y = infm F
           then (if snd x = 0 \<or> snd y = 0 \<or> (snd z = infm F \<and> fst z \<noteq> s) then nanv F
                 else (s, infm F))
      else if snd z = infm F then z
      else let p = sig F (snd x) * sig F (snd y);
               kp = int (expo F (snd x) + expo F (snd y)) - int (funit F);
               kz = int (expo F (snd z)); k = min kp kz;
               v = (if s then -1 else 1) * (int p * 2 ^ nat (kp - k))
                 + (if fst z then -1 else 1) * (int (sig F (snd z)) * 2 ^ nat (kz - k))
           in if v = 0 then (s \<and> fst z, 0) else (v < 0, round_mag F (nat \<bar>v\<bar>) k))"

definition fp_convert :: "fmt \<Rightarrow> fmt \<Rightarrow> smag \<Rightarrow> smag" where
  "fp_convert F G x =
     (if is_nanm F x then nanv G
      else if snd x = infm F then (fst x, infm G)
      else (fst x, round_mag G (sig F (snd x))
                     (int (expo F (snd x)) - int (funit F) + int (funit G))))"

definition fp_of_nat :: "fmt \<Rightarrow> nat \<Rightarrow> smag" where
  "fp_of_nat F n = (False, round_mag F n (int (funit F)))"

text \<open>Order of non-NaN values: the signed magnitude, with one zero.\<close>

definition fkey :: "smag \<Rightarrow> int" where
  "fkey x = (if fst x then - int (snd x) else int (snd x))"

definition fp_lt :: "fmt \<Rightarrow> smag \<Rightarrow> smag \<Rightarrow> bool" where
  "fp_lt F x y \<longleftrightarrow> \<not> is_nanm F x \<and> \<not> is_nanm F y \<and> fkey x < fkey y"

definition fp_eq :: "fmt \<Rightarrow> smag \<Rightarrow> smag \<Rightarrow> bool" where
  "fp_eq F x y \<longleftrightarrow> \<not> is_nanm F x \<and> \<not> is_nanm F y \<and> fkey x = fkey y"


section \<open>float and double\<close>

type_synonym f32 = "32 word"
type_synonym f64 = "64 word"

definition dec32 :: "f32 \<Rightarrow> smag" where
  "dec32 w = (2 ^ 31 \<le> unat w, unat w mod 2 ^ 31)"

definition enc32 :: "smag \<Rightarrow> f32" where
  "enc32 x = word_of_nat (if fst x then 2 ^ 31 + snd x else snd x)"

definition dec64 :: "f64 \<Rightarrow> smag" where
  "dec64 w = (2 ^ 63 \<le> unat w, unat w mod 2 ^ 63)"

definition enc64 :: "smag \<Rightarrow> f64" where
  "enc64 x = word_of_nat (if fst x then 2 ^ 63 + snd x else snd x)"

definition f32_isnan :: "f32 \<Rightarrow> bool" where "f32_isnan w = is_nanm F32 (dec32 w)"
definition f32_isfinite :: "f32 \<Rightarrow> bool" where "f32_isfinite w = is_finm F32 (dec32 w)"
definition f64_isnan :: "f64 \<Rightarrow> bool" where "f64_isnan w = is_nanm F64 (dec64 w)"
definition f64_isfinite :: "f64 \<Rightarrow> bool" where "f64_isfinite w = is_finm F64 (dec64 w)"

definition f32_lt :: "f32 \<Rightarrow> f32 \<Rightarrow> bool" where "f32_lt a b = fp_lt F32 (dec32 a) (dec32 b)"
definition f32_eq :: "f32 \<Rightarrow> f32 \<Rightarrow> bool" where "f32_eq a b = fp_eq F32 (dec32 a) (dec32 b)"
definition f32_le :: "f32 \<Rightarrow> f32 \<Rightarrow> bool" where "f32_le a b = (f32_lt a b \<or> f32_eq a b)"
definition f64_le :: "f64 \<Rightarrow> f64 \<Rightarrow> bool" where
  "f64_le a b = (fp_lt F64 (dec64 a) (dec64 b) \<or> fp_eq F64 (dec64 a) (dec64 b))"

definition f32_sub :: "f32 \<Rightarrow> f32 \<Rightarrow> f32" where
  "f32_sub a b = enc32 (fp_add F32 (dec32 a) (fp_neg F32 (dec32 b)))"
definition f32_mul :: "f32 \<Rightarrow> f32 \<Rightarrow> f32" where
  "f32_mul a b = enc32 (fp_mul F32 (dec32 a) (dec32 b))"
definition f32_div :: "f32 \<Rightarrow> f32 \<Rightarrow> f32" where
  "f32_div a b = enc32 (fp_div F32 (dec32 a) (dec32 b))"
definition f32_sqrt :: "f32 \<Rightarrow> f32" where
  "f32_sqrt a = enc32 (fp_sqrt F32 (dec32 a))"

definition f64_add :: "f64 \<Rightarrow> f64 \<Rightarrow> f64" where
  "f64_add a b = enc64 (fp_add F64 (dec64 a) (dec64 b))"
definition f64_neg :: "f64 \<Rightarrow> f64" where
  "f64_neg a = enc64 (fp_neg F64 (dec64 a))"
definition f64_sub :: "f64 \<Rightarrow> f64 \<Rightarrow> f64" where
  "f64_sub a b = enc64 (fp_add F64 (dec64 a) (fp_neg F64 (dec64 b)))"
definition f64_mul :: "f64 \<Rightarrow> f64 \<Rightarrow> f64" where
  "f64_mul a b = enc64 (fp_mul F64 (dec64 a) (dec64 b))"
definition f64_div :: "f64 \<Rightarrow> f64 \<Rightarrow> f64" where
  "f64_div a b = enc64 (fp_div F64 (dec64 a) (dec64 b))"
definition f64_sqrt :: "f64 \<Rightarrow> f64" where
  "f64_sqrt a = enc64 (fp_sqrt F64 (dec64 a))"
definition f64_fma :: "f64 \<Rightarrow> f64 \<Rightarrow> f64 \<Rightarrow> f64" where
  "f64_fma a b c = enc64 (fp_fma F64 (dec64 a) (dec64 b) (dec64 c))"

definition f64_of_f32 :: "f32 \<Rightarrow> f64" where
  "f64_of_f32 a = enc64 (fp_convert F32 F64 (dec32 a))"
definition f32_of_f64 :: "f64 \<Rightarrow> f32" where
  "f32_of_f64 a = enc32 (fp_convert F64 F32 (dec64 a))"
definition f64_of_nat :: "nat \<Rightarrow> f64" where
  "f64_of_nat n = enc64 (fp_of_nat F64 n)"

text \<open>\<open>static_cast\<close> of a non-negative double to an unsigned integer below \<open>2 ^ w\<close>: truncation,
  undefined for NaN, infinities, negative values and values out of range.\<close>

definition f64_trunc :: "nat \<Rightarrow> f64 \<Rightarrow> nat option" where
  "f64_trunc w a =
     (let x = dec64 a; n = sig F64 (snd x) * 2 ^ expo F64 (snd x) div 2 ^ funit F64 in
      if is_finm F64 x \<and> (fst x \<longrightarrow> n = 0) \<and> n < 2 ^ w then Some n else undefined_behaviour)"

definition f32_zero :: f32 where "f32_zero = 0"
definition f32_one :: f32 where "f32_one = 0x3F800000"
definition f32_two :: f32 where "f32_two = 0x40000000"
definition f32_inf :: f32 where "f32_inf = 0x7F800000"
definition f64_zero :: f64 where "f64_zero = 0"
definition f64_one :: f64 where "f64_one = 0x3FF0000000000000"

end
