(* ===== verification/Float_Facts.thy ===== *)
theory Float_Facts
  imports Floats
begin

text \<open>
  Facts about the floating-point model: encodings round trip, comparison is a strict weak ordering
  away from NaN, which operations can produce a NaN, and bounds on rounded results.  The bounds
  rest on \<open>fval\<close>, the exact absolute value of finite magnitude bits in units of the format.
\<close>

named_theorems fp_defs "definitions of the float operations"
named_theorems fp_nan "when an operation's result is not a NaN"

definition fval :: "fmt \<Rightarrow> nat \<Rightarrow> nat" where
  "fval F m = sig F m * 2 ^ expo F m"


section \<open>Bit lengths and rounding to an integer\<close>

lemma bitlen_bounds: "0 < m \<Longrightarrow> 2 ^ (bitlen m - 1) \<le> m \<and> m < 2 ^ bitlen m \<and> 0 < bitlen m"
proof (induction m rule: bitlen.induct)
  case (1 n)
  show ?case
  proof (cases "n div 2 = 0")
    case True
    then have "n = 1" using "1.prems" by auto
    then show ?thesis by (simp add: bitlen.simps)
  next
    case False
    with "1.IH" "1.prems" have IH: "2 ^ (bitlen (n div 2) - 1) \<le> n div 2"
      "n div 2 < 2 ^ bitlen (n div 2)" "0 < bitlen (n div 2)" by auto
    have b: "bitlen n = Suc (bitlen (n div 2))"
      using "1.prems" by (subst bitlen.simps) simp
    have "2 ^ bitlen (n div 2) \<le> 2 * (n div 2)"
      using IH by (metis Suc_pred' mult_le_mono2 power_Suc)
    moreover have "n < 2 * 2 ^ bitlen (n div 2)"
      using IH(2) by auto
    ultimately show ?thesis unfolding b by auto
  qed
qed

lemma rne_bounds:
  "m div 2 ^ s \<le> rne m s" "rne m s \<le> m div 2 ^ s + 1"
  by (auto simp: rne_def Let_def)

lemma rne_le:
  assumes "m \<le> N * 2 ^ s"
  shows "rne m s \<le> N"
proof (cases "m = N * 2 ^ s")
  case True
  then show ?thesis by (auto simp: rne_def Let_def)
next
  case False
  then have "m div 2 ^ s < N"
    using assms by (simp add: less_mult_imp_div_less)
  then show ?thesis using rne_bounds(2) [of m s] by linarith
qed

lemma rne_ge:
  assumes "N * 2 ^ s \<le> m"
  shows "N \<le> rne m s"
proof -
  have "N \<le> m div 2 ^ s"
    using assms by (simp add: less_eq_div_iff_mult_less_eq)
  then show ?thesis using rne_bounds(1) [of m s] by linarith
qed


section \<open>Exact values of magnitude bits\<close>

lemma fval_pack:
  assumes "P = 2 ^ (prec F - 1)" "m \<le> 2 * P" "q = 0 \<or> P \<le> m"
  shows "fval F (q * P + m) = m * 2 ^ q"
proof -
  have P: "0 < P" using assms(1) by simp
  consider "m < P" | "P \<le> m" "m < 2 * P" | "m = 2 * P" using assms(2) by linarith
  then show ?thesis
  proof cases
    case 1
    then show ?thesis
      using assms P by (simp add: fval_def sig_def expo_def)
  next
    case 2
    then obtain r where r: "m = P + r" "r < P"
      by (metis add_diff_inverse_nat less_diff_conv2 linorder_not_less mult_2)
    have "(q * P + m) div P = Suc q" "(q * P + m) mod P = r"
      using r P by (simp_all add: div_mult_self3)
    then show ?thesis
      unfolding fval_def sig_def expo_def assms(1) [symmetric] using r by simp
  next
    case 3
    have "(q * P + m) div P = Suc (Suc q)" "(q * P + m) mod P = 0"
      using P 3 by (simp_all flip: add_mult_distrib)
    then show ?thesis
      unfolding fval_def sig_def expo_def assms(1) [symmetric] using 3 by simp
  qed
qed

lemma fval_Suc: "fval F n \<le> fval F (Suc n)"
proof -
  define P where "P = (2::nat) ^ (prec F - 1)"
  define E f where "E = n div P" and "f = n mod P"
  have P: "0 < P" by (simp add: P_def)
  have n: "n = E * P + f" "f < P" using P by (simp_all add: E_def f_def)
  show ?thesis
  proof (cases "E = 0")
    case True
    have "fval F (0 * P + n) = n * 2 ^ 0" "fval F (0 * P + Suc n) = Suc n * 2 ^ 0"
      using n True by (intro fval_pack; simp add: P_def)+
    then show ?thesis by simp
  next
    case False
    then obtain q where q: "E = Suc q" by (cases E) auto
    have "fval F (q * P + (P + f)) = (P + f) * 2 ^ q"
      "fval F (q * P + (P + Suc f)) = (P + Suc f) * 2 ^ q"
      using n by (intro fval_pack; simp add: P_def)+
    then show ?thesis using n q by (simp add: algebra_simps)
  qed
qed

lemma fval_mono: "a \<le> b \<Longrightarrow> fval F a \<le> fval F b"
  by (rule lift_Suc_mono_le [of "fval F"]) (auto intro: fval_Suc)

lemma fval_less_inf: "fval F a < fval F (infm F) \<Longrightarrow> a < infm F"
  using fval_mono [of "infm F" a F] by linarith

lemma fval_inf: "fval F32 (infm F32) = 2 ^ 277" "fval F64 (infm F64) = 2 ^ 2098"
proof -
  have "fval F32 (253 * 2 ^ 23 + 2 * 2 ^ 23) = 2 * 2 ^ 23 * 2 ^ 253"
    by (rule fval_pack) (simp_all add: F32_def)
  then show "fval F32 (infm F32) = 2 ^ 277" by (simp add: F32_def)
  have "fval F64 (2045 * 2 ^ 52 + 2 * 2 ^ 52) = 2 * 2 ^ 52 * 2 ^ 2045"
    by (rule fval_pack) (simp_all add: F64_def)
  then show "fval F64 (infm F64) = 2 ^ 2098"
    by (simp add: F64_def flip: power_Suc power_add)
qed

lemma fval_finite: "is_finm F x \<Longrightarrow> fval F (snd x) \<le> fval F (infm F)"
  by (simp add: is_finm_def fval_mono)


section \<open>Rounding stays below representable bounds\<close>

lemma round_mag_0 [simp]: "round_mag F 0 k = 0"
  by (simp add: round_mag_def)

lemma round_mag_le_inf [simp]: "round_mag F m k \<le> infm F"
  by (simp add: round_mag_def Let_def)


text \<open>
  Rounding \<open>m * 2 ^ k\<close> cannot pass a representable bound \<open>c * 2 ^ j\<close>: the rounded value is at
  most the bound.  The bound is compared exactly, over the reals since \<open>k\<close> may be negative.
\<close>

lemma round_mag_unpacked:
  assumes "0 < m" "0 < prec F"
    and q: "q = max 0 (k + int (bitlen m) - int (prec F))"
    and m': "m' = (if q \<le> k then m * 2 ^ nat (k - q) else rne m (nat (q - k)))"
  shows "fval F (nat q * 2 ^ (prec F - 1) + m') = m' * 2 ^ nat q"
proof -
  define P where "P = (2::nat) ^ (prec F - 1)"
  have two_P: "2 * P = 2 ^ prec F" using assms(2) by (simp add: P_def power_eq_if)
  have b: "2 ^ (bitlen m - 1) \<le> m" "m < 2 ^ bitlen m" "0 < bitlen m"
    using bitlen_bounds [OF assms(1)] by auto
  have "m' \<le> 2 * P \<and> (q = 0 \<or> P \<le> m')"
  proof (cases "q \<le> k")
    case True
    have "bitlen m + nat (k - q) \<le> prec F" using q True by linarith
    then have "2 ^ bitlen m * 2 ^ nat (k - q) \<le> 2 * P"
      unfolding two_P power_add [symmetric] by simp
    moreover have "m * 2 ^ nat (k - q) \<le> 2 ^ bitlen m * 2 ^ nat (k - q)"
      using b(2) by simp
    ultimately have "m' \<le> 2 * P" using m' True by (metis order_trans)
    moreover have "P \<le> m'" if "q \<noteq> 0"
    proof -
      have "prec F - 1 = (bitlen m - 1) + nat (k - q)" using q that True b(3) by linarith
      then have "P = 2 ^ (bitlen m - 1) * 2 ^ nat (k - q)" by (simp add: P_def power_add)
      then show ?thesis using b(1) m' True by simp
    qed
    ultimately show ?thesis by blast
  next
    case False
    define s where "s = nat (q - k)"
    have "bitlen m \<le> prec F + s" using q False s_def by linarith
    then have "m \<le> 2 ^ (prec F + s)"
      using b(2) by (meson less_imp_le_nat one_le_numeral order_trans power_increasing)
    then have "m' \<le> 2 * P"
      using m' False by (simp add: two_P s_def rne_le power_add)
    moreover have "P \<le> m'" if "q \<noteq> 0"
    proof -
      have "(prec F - 1) + s = bitlen m - 1" using q that False b(3) assms(2) s_def by linarith
      then have "P * 2 ^ s \<le> m" using b(1) by (simp add: P_def flip: power_add)
      then show ?thesis using m' False by (simp add: s_def rne_ge)
    qed
    ultimately show ?thesis by blast
  qed
  then show ?thesis
    unfolding P_def by (intro fval_pack) auto
qed

lemma round_mag_le:
  assumes p: "0 < prec F" and c: "c < 2 ^ prec F"
    and le: "real m * 2 powi k \<le> real c * 2 ^ j"
  shows "fval F (round_mag F m k) \<le> c * 2 ^ j"
proof (cases "m = 0")
  case True
  then show ?thesis by (simp add: fval_def sig_def)
next
  case False
  define q where "q = max 0 (k + int (bitlen m) - int (prec F))"
  define m' where "m' = (if q \<le> k then m * 2 ^ nat (k - q) else rne m (nat (q - k)))"
  have b: "2 ^ (bitlen m - 1) \<le> m" "0 < bitlen m"
    using bitlen_bounds [of m] False by auto
  have q0: "0 \<le> q" by (simp add: q_def)
  have "m' * 2 ^ nat q \<le> c * 2 ^ j"
  proof (cases "q \<le> k")
    case True
    then have "m' * 2 ^ nat q = m * 2 ^ nat k"
      using q0 by (simp add: m'_def flip: power_add nat_add_distrib)
    moreover have "real (m * 2 ^ nat k) \<le> real (c * 2 ^ j)"
      using le True q0 by (simp add: power_int_def)
    ultimately show ?thesis by (metis of_nat_le_iff)
  next
    case False
    define s where "s = nat (q - k)"
    have qk: "q = k + int s" using False by (simp add: s_def)
    have up: "(2::real) powi q = 2 powi k * 2 ^ s"
      using qk by (simp add: power_int_add)
    have Q: "(2::real) powi q = 2 ^ nat q" using q0 by (simp add: power_int_def)
    have pos: "(0::real) < 2 powi k" by simp
    show ?thesis
    proof (cases "nat q \<le> j")
      case True
      define N where "N = c * 2 ^ (j - nat q)"
      have "real c * 2 ^ j = real N * 2 powi q"
        using True by (simp add: N_def Q flip: power_add)
      then have "2 powi k * real m \<le> 2 powi k * (real N * 2 ^ s)"
        using le up by (simp add: algebra_simps)
      then have "real m \<le> real (N * 2 ^ s)"
        using pos by simp
      then have "m \<le> N * 2 ^ s" by (simp only: of_nat_le_iff)
      then have "m' \<le> N" using False by (simp add: m'_def s_def [symmetric] rne_le)
      then have "m' * 2 ^ nat q \<le> N * 2 ^ nat q" by simp
      also have "N * 2 ^ nat q = c * 2 ^ j"
        using True by (simp add: N_def flip: power_add)
      finally show ?thesis .
    next
      case j: False
      then have "q \<noteq> 0" by auto
      then have bl: "int (bitlen m) - 1 + k = q + int (prec F) - 1"
        by (simp add: q_def)
      have "(2::real) ^ (j + prec F) \<le> 2 ^ (nat q + (prec F - 1))"
        using j p by (intro power_increasing) auto
      also have "\<dots> = 2 powi (q + int (prec F) - 1)"
        using p q0 by (simp add: power_int_def nat_add_distrib nat_diff_distrib')
      also have "\<dots> = 2 powi (int (bitlen m - 1)) * 2 powi k"
        using bl b(2) by (simp add: of_nat_diff power_int_add [symmetric] algebra_simps)
      also have "\<dots> \<le> real m * 2 powi k"
        using b(1) by (simp add: power_int_of_nat)
      also have "\<dots> \<le> real c * 2 ^ j" by (rule le)
      finally have "(2::real) ^ prec F \<le> real c"
        by (simp add: power_add)
      then have "2 ^ prec F \<le> c"
        by (metis of_nat_le_iff of_nat_numeral of_nat_power)
      then show ?thesis using c by simp
    qed
  qed
  moreover have "fval F (nat q * 2 ^ (prec F - 1) + m') = m' * 2 ^ nat q"
    using False p q_def m'_def by (intro round_mag_unpacked) auto
  moreover have "fval F (round_mag F m k) \<le> fval F (nat q * 2 ^ (prec F - 1) + m')"
    using False by (intro fval_mono) (simp add: round_mag_def Let_def q_def m'_def)
  ultimately show ?thesis by simp
qed



section \<open>Encodings\<close>

lemma fmt_simps [simp]:
  "prec F32 = 24" "infm F32 = 255 * 2 ^ 23" "funit F32 = 149"
  "prec F64 = 53" "infm F64 = 2047 * 2 ^ 52" "funit F64 = 1074"
  by (simp_all add: F32_def F64_def)

text \<open>Every result of an operation is in the range \<open>enc32\<close> and \<open>enc64\<close> represent.\<close>

definition in_range :: "fmt \<Rightarrow> smag \<Rightarrow> bool" where
  "in_range F x \<longleftrightarrow> snd x \<le> infm F + 2 ^ (prec F - 2)"

lemma in_rangeI: "snd x \<le> infm F \<Longrightarrow> in_range F x"
  by (simp add: in_range_def)

lemma in_range_nanv [simp]: "in_range F (nanv F)"
  by (simp add: in_range_def nanv_def)

lemma dec_enc32 [simp]: "in_range F32 x \<Longrightarrow> dec32 (enc32 x) = x"
  by (cases x) (auto simp: in_range_def dec32_def enc32_def unat_of_nat)

lemma dec_enc64 [simp]: "in_range F64 x \<Longrightarrow> dec64 (enc64 x) = x"
  by (cases x) (auto simp: in_range_def dec64_def enc64_def unat_of_nat)

lemma enc_dec32 [simp]: "enc32 (dec32 w) = w"
proof -
  have "unat w < 2 ^ 32" using unsigned_less [of w] by simp
  then have "(if 2 ^ 31 \<le> unat w then 2 ^ 31 + unat w mod 2 ^ 31 else unat w mod 2 ^ 31) = unat w"
    by (auto simp: not_le mod_if [of "unat w"])
  then have "enc32 (dec32 w) = word_of_nat (unat w)" by (simp only: dec32_def enc32_def fst_conv snd_conv)
  then show ?thesis by simp
qed

lemma enc_dec64 [simp]: "enc64 (dec64 w) = w"
proof -
  have "unat w < 2 ^ 64" using unsigned_less [of w] by simp
  then have "(if 2 ^ 63 \<le> unat w then 2 ^ 63 + unat w mod 2 ^ 63 else unat w mod 2 ^ 63) = unat w"
    by (auto simp: not_le mod_if [of "unat w"])
  then have "enc64 (dec64 w) = word_of_nat (unat w)" by (simp only: dec64_def enc64_def fst_conv snd_conv)
  then show ?thesis by simp
qed

lemma not_nan_range: "\<not> is_nanm F x \<Longrightarrow> in_range F x"
  by (simp add: is_nanm_def in_range_def)

lemma fin_not_nan: "is_finm F x \<Longrightarrow> \<not> is_nanm F x"
  by (simp add: is_finm_def is_nanm_def)

lemma is_nan_nanv [simp]: "is_nanm F (nanv F)"
  by (simp add: is_nanm_def nanv_def)

lemma in_range_0 [simp]: "in_range F (s, 0)" and in_range_round [simp]: "in_range F (s, round_mag F m k)"
  and in_range_inf [simp]: "in_range F (s, infm F)"
  by (auto intro: in_rangeI)

lemma in_range_neg [simp]: "in_range F (fp_neg F x)"
  by (auto simp: fp_neg_def in_range_def is_nanm_def nanv_def)

lemma in_range_add [simp]: "in_range F (fp_add F x y)"
  by (auto simp: fp_add_def Let_def not_nan_range)

lemma in_range_mul [simp]: "in_range F (fp_mul F x y)"
  by (simp add: fp_mul_def)

lemma in_range_div [simp]: "in_range F (fp_div F x y)"
  by (simp add: fp_div_def Let_def)

lemma in_range_sqrt [simp]: "in_range F (fp_sqrt F x)"
  using not_nan_range [of F x] unfolding fp_sqrt_def Let_def
  by (simp only: in_range_nanv in_range_round simp_thms split: if_split) blast

lemma in_range_fma [simp]: "in_range F (fp_fma F x y z)"
  using not_nan_range [of F z] unfolding fp_fma_def Let_def
  by (simp only: in_range_nanv in_range_round in_range_inf in_range_0 simp_thms split: if_split) blast

lemma in_range_convert [simp]: "in_range G (fp_convert F G x)"
  by (simp add: fp_convert_def)

lemma in_range_of_nat [simp]: "in_range F (fp_of_nat F n)"
  by (simp add: fp_of_nat_def)

lemmas float_defs = f32_sub_def f32_mul_def f32_div_def f32_sqrt_def f64_add_def f64_neg_def
  f64_sub_def f64_mul_def f64_div_def f64_sqrt_def f64_fma_def f64_of_f32_def f32_of_f64_def
  f64_of_nat_def


section \<open>Comparison\<close>

lemma f32_lt_iff:
  "\<not> f32_isnan a \<Longrightarrow> \<not> f32_isnan b \<Longrightarrow> f32_lt a b \<longleftrightarrow> fkey (dec32 a) < fkey (dec32 b)"
  by (simp add: f32_lt_def fp_lt_def f32_isnan_def)

lemma f32_eq_iff:
  "\<not> f32_isnan a \<Longrightarrow> \<not> f32_isnan b \<Longrightarrow> f32_eq a b \<longleftrightarrow> fkey (dec32 a) = fkey (dec32 b)"
  by (simp add: f32_eq_def fp_eq_def f32_isnan_def)

lemma f32_le_iff:
  "\<not> f32_isnan a \<Longrightarrow> \<not> f32_isnan b \<Longrightarrow> f32_le a b \<longleftrightarrow> fkey (dec32 a) \<le> fkey (dec32 b)"
  by (auto simp: f32_le_def f32_lt_iff f32_eq_iff)

lemma f32_nan_lt [simp]: "f32_isnan a \<Longrightarrow> \<not> f32_lt a b" "f32_isnan b \<Longrightarrow> \<not> f32_lt a b"
  by (simp_all add: f32_lt_def fp_lt_def f32_isnan_def)

lemma f32_nan_eq [simp]: "f32_isnan a \<Longrightarrow> \<not> f32_eq a b" "f32_isnan b \<Longrightarrow> \<not> f32_eq a b"
  by (simp_all add: f32_eq_def fp_eq_def f32_isnan_def)

lemma f32_lt_key: "f32_lt a b \<Longrightarrow> fkey (dec32 a) < fkey (dec32 b)"
  by (simp add: f32_lt_def fp_lt_def)

lemma f32_finite_not_nan: "f32_isfinite a \<Longrightarrow> \<not> f32_isnan a"
  by (simp add: f32_isfinite_def f32_isnan_def fin_not_nan)

text \<open>The key is bounded below, so a chain of strictly smaller values is finite.\<close>

lemma fkey_lower: "- (2 ^ 31) < fkey (dec32 a)"
proof -
  have "unat a mod 2 ^ 31 < 2 ^ 31" by simp
  then have "int (unat a mod 2 ^ 31) < 2 ^ 31" by (metis of_nat_less_iff of_nat_numeral of_nat_power)
  moreover have "0 \<le> int (unat a mod 2 ^ 31)" by (rule of_nat_0_le_iff)
  ultimately show ?thesis unfolding fkey_def dec32_def by (simp only: fst_conv snd_conv split: if_split) linarith
qed

interpretation f32_order: strict_weak f32_lt "{a. \<not> f32_isnan a}"
  by unfold_locales (auto simp: f32_lt_iff)



section \<open>Where NaN comes from\<close>

lemma dec_ops [simp]:
  "dec32 (f32_sub a b) = fp_add F32 (dec32 a) (fp_neg F32 (dec32 b))"
  "dec32 (f32_mul a b) = fp_mul F32 (dec32 a) (dec32 b)"
  "dec32 (f32_div a b) = fp_div F32 (dec32 a) (dec32 b)"
  "dec32 (f32_sqrt a) = fp_sqrt F32 (dec32 a)"
  "dec64 (f64_add c d) = fp_add F64 (dec64 c) (dec64 d)"
  "dec64 (f64_neg c) = fp_neg F64 (dec64 c)"
  "dec64 (f64_sub c d) = fp_add F64 (dec64 c) (fp_neg F64 (dec64 d))"
  "dec64 (f64_mul c d) = fp_mul F64 (dec64 c) (dec64 d)"
  "dec64 (f64_fma c d e) = fp_fma F64 (dec64 c) (dec64 d) (dec64 e)"
  "dec64 (f64_of_f32 a) = fp_convert F32 F64 (dec32 a)"
  "dec32 (f32_of_f64 c) = fp_convert F64 F32 (dec64 c)"
  "dec64 (f64_of_nat n) = fp_of_nat F64 n"
  by (simp_all add: float_defs)

lemma round_mag_not_nan [fp_nan, simp]: "\<not> is_nanm F (s, round_mag F m k)"
  by (simp add: is_nanm_def not_less)

lemma is_nanm_0 [simp]: "\<not> is_nanm F (s, 0)"
  by (simp add: is_nanm_def)

lemma is_nanm_neg [fp_nan, simp]: "is_nanm F (fp_neg F x) = is_nanm F x"
  by (auto simp: fp_neg_def is_nanm_def nanv_def)

lemma is_finm_neg [fp_nan, simp]: "is_finm F (fp_neg F x) = is_finm F x"
  by (auto simp: fp_neg_def is_nanm_def is_finm_def nanv_def)

lemma fp_add_fin_not_nan [fp_nan]:
  "is_finm F x \<Longrightarrow> is_finm F y \<Longrightarrow> \<not> is_nanm F (fp_add F x y)"
  by (simp add: fp_add_def Let_def fin_not_nan) (simp add: is_finm_def)

lemma fp_add_nonneg [fp_nan]:
  assumes "\<not> is_nanm F x" "\<not> is_nanm F y" "\<not> fst x" "\<not> fst y"
  shows "\<not> is_nanm F (fp_add F x y) \<and> \<not> fst (fp_add F x y)"
proof -
  have "0 \<le> ssig F x k" "0 \<le> ssig F y k" for k
    using assms by (simp_all add: ssig_def)
  then show ?thesis
    using assms by (auto simp: fp_add_def Let_def not_less add_nonneg_nonneg)
qed

lemma fp_mul_fin_not_nan [fp_nan]:
  "is_finm F x \<Longrightarrow> is_finm F y \<Longrightarrow> \<not> is_nanm F (fp_mul F x y)"
  by (simp add: fp_mul_def fin_not_nan) (simp add: is_finm_def)

lemma fp_mul_self [fp_nan]:
  "\<not> is_nanm F x \<Longrightarrow> 0 < infm F \<Longrightarrow> \<not> is_nanm F (fp_mul F x x) \<and> \<not> fst (fp_mul F x x)"
  by (auto simp: fp_mul_def is_nanm_def not_less)

lemma fp_convert_nan [fp_nan, simp]: "is_nanm G (fp_convert F G x) = is_nanm F x"
  by (simp add: fp_convert_def is_nanm_def nanv_def not_less)

lemma fst_fp_convert: "\<not> is_nanm F x \<Longrightarrow> fst (fp_convert F G x) = fst x"
  by (simp add: fp_convert_def)

lemma fp_sqrt_nonneg [fp_nan]:
  assumes "\<not> is_nanm F x" "\<not> fst x"
  shows "\<not> is_nanm F (fp_sqrt F x) \<and> \<not> fst (fp_sqrt F x)"
  using assms unfolding fp_sqrt_def Let_def
  by (simp only: round_mag_not_nan fst_conv simp_thms if_False split: if_split)

lemma fp_add_comm: "fp_add F x y = fp_add F y x"
  by (auto simp: fp_add_def Let_def min.commute add.commute prod_eq_iff)

lemma fp_mul_comm: "fp_mul F x y = fp_mul F y x"
  by (auto simp: fp_mul_def mult.commute add.commute)


section \<open>Bounds\<close>

definition bounded_by :: "fmt \<Rightarrow> smag \<Rightarrow> nat \<Rightarrow> nat \<Rightarrow> bool" where
  "bounded_by F x c j \<longleftrightarrow> is_finm F x \<and> fval F (snd x) \<le> c * 2 ^ j"

lemma bounded_by_round:
  assumes "0 < prec F" "c < 2 ^ prec F" "c * 2 ^ j < fval F (infm F)"
    and "real m * 2 powi k \<le> real c * 2 ^ j"
  shows "bounded_by F (s, round_mag F m k) c j"
proof -
  have "fval F (round_mag F m k) \<le> c * 2 ^ j"
    using assms by (intro round_mag_le)
  then show ?thesis
    using assms(3) by (auto simp: bounded_by_def is_finm_def intro: fval_less_inf)
qed

lemma abs_ssig: "k \<le> expo F (snd x) \<Longrightarrow> \<bar>ssig F x k\<bar> * 2 ^ k = int (fval F (snd x))"
  by (simp add: ssig_def fval_def abs_mult flip: power_add)

lemma bounded_by_0: "0 < infm F \<Longrightarrow> bounded_by F (s, 0) c j"
  by (simp add: bounded_by_def is_finm_def fval_def sig_def)

lemma fp_add_bounded:
  assumes x: "bounded_by F x c j" and y: "bounded_by F y d j"
    and F: "0 < prec F" "0 < infm F" "c + d < 2 ^ prec F" "(c + d) * 2 ^ j < fval F (infm F)"
  shows "bounded_by F (fp_add F x y) (c + d) j"
proof -
  define k where "k = min (expo F (snd x)) (expo F (snd y))"
  define s where "s = ssig F x k + ssig F y k"
  have fin: "is_finm F x" "is_finm F y" using x y by (simp_all add: bounded_by_def)
  have "\<bar>s\<bar> * 2 ^ k \<le> (\<bar>ssig F x k\<bar> + \<bar>ssig F y k\<bar>) * 2 ^ k"
    unfolding s_def by (intro mult_right_mono abs_triangle_ineq) simp
  also have "\<dots> = int (fval F (snd x)) + int (fval F (snd y))"
    by (simp add: distrib_right abs_ssig k_def)
  also have "\<dots> \<le> int ((c + d) * 2 ^ j)"
    using x y by (simp add: bounded_by_def distrib_right flip: of_nat_add of_nat_le_iff
        del: of_nat_mult)
  finally have "real_of_int (\<bar>s\<bar> * 2 ^ k) \<le> real_of_int (int ((c + d) * 2 ^ j))"
    by (simp only: of_int_le_iff)
  then have le: "real (nat \<bar>s\<bar>) * 2 powi int k \<le> real (c + d) * 2 ^ j"
    by simp
  have "fp_add F x y = (if s = 0 then (fst x \<and> fst y, 0) else (s < 0, round_mag F (nat \<bar>s\<bar>) (int k)))"
    using fin fin_not_nan [OF fin(1)] fin_not_nan [OF fin(2)]
    by (simp add: fp_add_def is_finm_def s_def k_def Let_def)
  then show ?thesis
    using F le by (simp add: bounded_by_0 bounded_by_round)
qed

lemma fp_mul_bounded:
  assumes x: "bounded_by F x 1 a" and y: "bounded_by F y 1 b"
    and F: "0 < prec F" "funit F \<le> a + b" "2 ^ (a + b - funit F) < fval F (infm F)"
  shows "bounded_by F (fp_mul F x y) 1 (a + b - funit F)"
proof -
  have fin: "is_finm F x" "is_finm F y" using x y by (simp_all add: bounded_by_def)
  have "fval F (snd x) * fval F (snd y) \<le> 2 ^ a * 2 ^ b"
    using x y by (intro mult_le_mono) (simp_all add: bounded_by_def)
  then have *: "real (fval F (snd x) * fval F (snd y)) \<le> 2 ^ (a + b)"
    by (metis of_nat_le_iff of_nat_numeral of_nat_power power_add)
  have "real (sig F (snd x) * sig F (snd y)) * 2 powi (int (expo F (snd x) + expo F (snd y)) - int (funit F))
      = real (fval F (snd x) * fval F (snd y)) / 2 ^ funit F"
    by (simp add: fval_def power_int_diff power_int_add power_add field_simps)
  also have "\<dots> \<le> 2 ^ (a + b) / 2 ^ funit F"
    using * by (intro divide_right_mono) auto
  also have "\<dots> = real 1 * 2 ^ (a + b - funit F)"
    using F(2) by (simp add: power_diff)
  finally have "bounded_by F (fst x \<noteq> fst y, round_mag F (sig F (snd x) * sig F (snd y))
              (int (expo F (snd x) + expo F (snd y)) - int (funit F))) 1 (a + b - funit F)"
    using F one_less_power [of "2::nat" "prec F"] by (intro bounded_by_round) auto
  then show ?thesis
    using fin fin_not_nan [OF fin(1)] fin_not_nan [OF fin(2)]
    by (simp add: fp_mul_def is_finm_def)
qed

lemma widen_bounded:
  assumes "is_finm F32 x"
  shows "bounded_by F64 (fp_convert F32 F64 x) 1 1202"
proof -
  have "fval F32 (snd x) \<le> 2 ^ 277"
    using fval_finite [OF assms] by (simp only: fval_inf)
  then have "real (fval F32 (snd x)) * 2 ^ 925 \<le> 2 ^ 277 * 2 ^ 925"
    by (intro mult_right_mono) (simp_all flip: of_nat_le_iff)
  then have "real (sig F32 (snd x)) * 2 powi (int (expo F32 (snd x)) - 149 + 1074) \<le> real 1 * 2 ^ 1202"
    by (simp add: fval_def power_int_add power_int_diff flip: power_add)
  then have "bounded_by F64 (fst x, round_mag F64 (sig F32 (snd x))
       (int (expo F32 (snd x)) - int (funit F32) + int (funit F64))) 1 1202"
  proof (intro bounded_by_round)
    show "1 * 2 ^ 1202 < fval F64 (infm F64)" by (simp only: fval_inf) simp
  qed simp_all
  then show ?thesis
    using assms fin_not_nan [OF assms] by (simp add: fp_convert_def is_finm_def)
qed


section \<open>Evaluation\<close>

text \<open>
  Concrete floating-point computations run by rewriting with \<open>fl_eval\<close>, under
  \<open>let_weak_cong\<close> so that only values are rewritten.
\<close>

lemma bitlen_num:
  "bitlen 0 = 0" "bitlen 1 = 1" "bitlen (Suc 0) = 1"
  "bitlen (numeral (num.Bit0 k)) = bitlen (numeral k) + 1"
  "bitlen (numeral (num.Bit1 k)) = bitlen (numeral k) + 1"
  by (subst bitlen.simps, simp add: bitlen.simps [of 0])+

lemma isqrt_num:
  "isqrt 0 = 0" "isqrt 1 = 1" "isqrt (Suc 0) = 1"
  "isqrt (numeral k) = (let r = 2 * isqrt (numeral k div 4) in if (r + 1) ^ 2 \<le> numeral k then r + 1 else r)"
  by (subst isqrt.simps, simp add: isqrt.simps [of 0])+

lemmas fl_eval = f32_sub_def f32_mul_def f32_div_def f32_sqrt_def f64_add_def f64_neg_def
  f64_sub_def f64_mul_def f64_div_def f64_sqrt_def f64_fma_def f64_of_f32_def f32_of_f64_def f64_of_nat_def
  f64_trunc_def f64_le_def f32_le_def f64_isnan_def f64_isfinite_def f32_zero_def f32_one_def f32_two_def
  f32_inf_def f64_zero_def f64_one_def dec32_def enc32_def dec64_def enc64_def fp_add_def fp_mul_def fp_div_def fp_sqrt_def fp_fma_def
  fp_convert_def fp_of_nat_def fp_neg_def round_mag_def rne_def sig_def expo_def ssig_def is_nanm_def is_finm_def
  Let_def fkey_def nanv_def bitlen_num isqrt_num fp_lt_def fp_eq_def f32_lt_def f32_eq_def
  f32_isnan_def f32_isfinite_def

end
