(* ===== verification/Types.thy ===== *)
theory Types
  imports Float_Facts
begin

text \<open>
  The shared data model (\<open>types.hpp\<close>), the error categories and results (\<open>error.hpp\<close>,
  \<open>error.cpp\<close>) and the parameter structs of the indexes (\<open>index.hpp\<close>).  A \<open>Status\<close> is a
  result without a value; the human-readable cause that accompanies a category is not modelled.
  Strings are byte strings; \<open>span<const float>\<close> and \<open>std::vector<float>\<close> are lists of
  binary32 patterns.
\<close>

section \<open>Errors\<close>

datatype error_category =
    NameConflict | InvalidName | InvalidDimensionality | InvalidMetric | NotFound
  | DimensionMismatch | InvalidValue | InvalidIdentifier | InvalidParameter | InvalidArgument
  | UndefinedDistance | AllocationFailure | WriteFailure | SnapshotNotFound
  | UnsupportedVersion | Corruption | DeletionFailed

type_synonym 'a result = "error_category + 'a"
type_synonym status = "unit result"

fun is_ok :: "'a result \<Rightarrow> bool" where
  "is_ok (Inl _) = False"
| "is_ok (Inr _) = True"

fun to_string :: "error_category \<Rightarrow> string" where
  "to_string NameConflict = ''NameConflict''"
| "to_string InvalidName = ''InvalidName''"
| "to_string InvalidDimensionality = ''InvalidDimensionality''"
| "to_string InvalidMetric = ''InvalidMetric''"
| "to_string NotFound = ''NotFound''"
| "to_string DimensionMismatch = ''DimensionMismatch''"
| "to_string InvalidValue = ''InvalidValue''"
| "to_string InvalidIdentifier = ''InvalidIdentifier''"
| "to_string InvalidParameter = ''InvalidParameter''"
| "to_string InvalidArgument = ''InvalidArgument''"
| "to_string UndefinedDistance = ''UndefinedDistance''"
| "to_string AllocationFailure = ''AllocationFailure''"
| "to_string WriteFailure = ''WriteFailure''"
| "to_string SnapshotNotFound = ''SnapshotNotFound''"
| "to_string UnsupportedVersion = ''UnsupportedVersion''"
| "to_string Corruption = ''Corruption''"
| "to_string DeletionFailed = ''DeletionFailed''"

lemma is_ok_iff: "is_ok r \<longleftrightarrow> (\<exists>x. r = Inr x)"
  by (cases r) auto


section \<open>Enumerations stored in snapshots\<close>

text \<open>
  An \<open>enum class : std::uint8_t\<close> can hold any byte, so a value outside the enumerators is the
  last constructor.
\<close>

datatype distance_metric = Euclidean | Cosine | DotProduct | MetricValue u8

fun metric_u8 :: "distance_metric \<Rightarrow> u8" where
  "metric_u8 Euclidean = 0"
| "metric_u8 Cosine = 1"
| "metric_u8 DotProduct = 2"
| "metric_u8 (MetricValue n) = n"

definition metric_of_u8 :: "u8 \<Rightarrow> distance_metric" where
  "metric_of_u8 n = (if n = 0 then Euclidean else if n = 1 then Cosine
                     else if n = 2 then DotProduct else MetricValue n)"

datatype index_type = NoIndex | HNSW | IVF | IndexTypeValue u8

fun index_type_u8 :: "index_type \<Rightarrow> u8" where
  "index_type_u8 NoIndex = 0"
| "index_type_u8 HNSW = 1"
| "index_type_u8 IVF = 2"
| "index_type_u8 (IndexTypeValue n) = n"

definition index_type_of_u8 :: "u8 \<Rightarrow> index_type" where
  "index_type_of_u8 n = (if n = 0 then NoIndex else if n = 1 then HNSW
                         else if n = 2 then IVF else IndexTypeValue n)"

fun known_metric :: "distance_metric \<Rightarrow> bool" where
  "known_metric (MetricValue _) = False"
| "known_metric _ = True"

lemma metric_of_u8_inverse [simp]: "known_metric m \<Longrightarrow> metric_of_u8 (metric_u8 m) = m"
  by (cases m) (simp_all add: metric_of_u8_def)

lemma metric_u8_of_u8 [simp]: "metric_u8 (metric_of_u8 n) = n"
  by (simp add: metric_of_u8_def)

lemma known_metric_of_u8: "n \<le> 2 \<Longrightarrow> known_metric (metric_of_u8 n)"
proof -
  assume "n \<le> 2"
  then have "unat n = 0 \<or> unat n = 1 \<or> unat n = 2" by (auto simp: word_le_nat_alt)
  then have "n = 0 \<or> n = 1 \<or> n = 2" by (simp add: word_unat_eq_iff)
  then show ?thesis by (auto simp: metric_of_u8_def)
qed


section \<open>Records, metadata and configuration\<close>

type_synonym record_id = string

datatype metadata_value = MString string | MInt64 u64 | MDouble f64 | MBool bool

type_synonym metadata = "(string, metadata_value) omap"

text \<open>
  A pointer: null, an offset into the allocator's arena, or an offset into the file mapping that
  backs a loaded collection.  The two regions are separate objects of the C++ program.
\<close>

datatype ptr = NullPtr | ArenaPtr nat | MapPtr nat

record block =
  blk_data :: ptr
  blk_size :: nat

record collection_config =
  cfg_name :: string
  cfg_dim :: u32
  cfg_metric :: distance_metric

record collection_info =
  info_name :: string
  info_dim :: u32
  info_metric :: distance_metric
  info_count :: u64

record record_slot =
  vector_block :: block
  slot_meta :: "metadata option"

record record_input =
  in_id :: record_id
  in_vector :: "f32 list"
  in_meta :: "metadata option"

record record_view =
  view_vector :: "f32 list"
  view_meta :: "metadata option"

text \<open>\<open>Neighbor\<close> and \<open>Candidate\<close> both pair an identifier with a distance.\<close>

type_synonym neighbor = "record_id \<times> f32"
type_synonym candidate = "record_id \<times> f32"

text \<open>Allocator tags are a strong type over a 64-bit number, ordered by it.\<close>

datatype collection_tag = CollectionTag (tag_value: u64)

instantiation collection_tag :: linorder
begin

definition less_eq_collection_tag :: "collection_tag \<Rightarrow> collection_tag \<Rightarrow> bool" where
  "less_eq_collection_tag a b \<longleftrightarrow> tag_value a \<le> tag_value b"

definition less_collection_tag :: "collection_tag \<Rightarrow> collection_tag \<Rightarrow> bool" where
  "less_collection_tag a b \<longleftrightarrow> tag_value a < tag_value b"

instance
  by standard (auto simp: less_eq_collection_tag_def less_collection_tag_def collection_tag.expand)

end

record index_params =
  ip_m :: u32
  ip_ef_construction :: u32
  ip_nlist :: u32
  ip_seed :: u64

definition default_index_params :: index_params where
  "default_index_params = \<lparr>ip_m = 16, ip_ef_construction = 200, ip_nlist = 0,
     ip_seed = 0x9E3779B97F4A7C15\<rparr>"

record query_params =
  qp_ef_search :: u32
  qp_nprobe :: u32

definition default_query_params :: query_params where
  "default_query_params = \<lparr>qp_ef_search = 50, qp_nprobe = 1\<rparr>"


section \<open>The order of query results\<close>

text \<open>
  The comparator of the final sort in \<open>Collection::query\<close> and in both index searches: ascending
  distance, ties broken by ascending identifier.
\<close>

definition by_distance_then_id :: "record_id \<times> f32 \<Rightarrow> record_id \<times> f32 \<Rightarrow> bool" where
  "by_distance_then_id a b =
     (if \<not> f32_eq (snd a) (snd b) then f32_lt (snd a) (snd b) else fst a < fst b)"

text \<open>\<open>operator<\<close> of \<open>std::pair<float, std::uint32_t>\<close>.\<close>

definition pair_less :: "f32 \<times> nat \<Rightarrow> f32 \<times> nat \<Rightarrow> bool" where
  "pair_less a b \<longleftrightarrow> f32_lt (fst a) (fst b) \<or> (\<not> f32_lt (fst b) (fst a) \<and> snd a < snd b)"

abbreviation no_nan :: "('a \<times> f32) list \<Rightarrow> bool" where
  "no_nan xs \<equiv> \<forall>x \<in> set xs. \<not> f32_isnan (snd x)"

abbreviation no_nan_fst :: "(f32 \<times> 'a) list \<Rightarrow> bool" where
  "no_nan_fst xs \<equiv> \<forall>x \<in> set xs. \<not> f32_isnan (fst x)"

text \<open>Away from NaN both comparators are strict weak orderings.\<close>

interpretation result_order: strict_weak by_distance_then_id "{x. \<not> f32_isnan (snd x)}"
  by unfold_locales
    (auto simp: by_distance_then_id_def f32_lt_iff f32_eq_iff split: if_splits)

interpretation pair_order: strict_weak pair_less "{x. \<not> f32_isnan (fst x)}"
  by unfold_locales (auto simp: pair_less_def f32_lt_iff)

text \<open>
  On a list with distinct identifiers the result order is total, so any sort gives one result.
\<close>

lemma by_distance_then_id_total:
  assumes "\<not> f32_isnan (snd x)" "\<not> f32_isnan (snd y)"
    "\<not> by_distance_then_id x y" "\<not> by_distance_then_id y x"
  shows "fst x = fst y"
  using assms by (auto simp: by_distance_then_id_def f32_lt_iff f32_eq_iff split: if_splits)

text \<open>So results over distinct identifiers have one sorted order.\<close>

lemma results_sort_unique:
  assumes "no_nan xs" "distinct (map fst xs)" "mset xs = mset ys"
  shows "sort_by by_distance_then_id xs = sort_by by_distance_then_id ys"
proof (rule result_order.sort_by_perm_on)
  fix x y assume xy: "x \<in> set xs" "y \<in> set xs" "\<not> by_distance_then_id x y" "\<not> by_distance_then_id y x"
  then have "fst x = fst y" using by_distance_then_id_total assms(1) by blast
  then show "x = y" using xy(1,2) assms(2) by (metis eq_key_imp_eq_value prod.collapse)
qed (use assms in auto)

lemma results_sort_sorted: "no_nan xs \<Longrightarrow> sorted_by by_distance_then_id (sort_by by_distance_then_id xs)"
  by (rule result_order.sort_by_sorted) auto

lemma results_sort_defined:
  "no_nan xs \<Longrightarrow> std_sort by_distance_then_id xs = Some (sort_by by_distance_then_id xs)"
  by (rule result_order.std_sort_defined) auto

end
