(* ===== verification/Crc64.thy ===== *)
theory Crc64
  imports Types
begin

unbundle bit_operations_syntax

text \<open>
  \<open>crc64.cpp\<close>: the table-driven CRC-64/ECMA-182, against a bit-serial reference, and the errors
  it is certain to detect.
\<close>

section \<open>The code\<close>

definition kPoly :: u64 where "kPoly = 0x42F0E1EBA9EA3693"

definition crc_bit :: "u64 \<Rightarrow> u64" where
  "crc_bit crc = (if crc AND 0x8000000000000000 \<noteq> 0 then push_bit 1 crc XOR kPoly else push_bit 1 crc)"

definition table_entry :: "u8 \<Rightarrow> u64" where
  "table_entry i = foldl (\<lambda>crc _. crc_bit crc) (push_bit 56 (ucast i)) [0..<8]"

definition crc_table :: "u64 list" where
  "crc_table = map (\<lambda>i. table_entry (word_of_nat i)) [0..<256]"

definition crc64_ecma :: "u8 list \<Rightarrow> u64 \<Rightarrow> u64" where
  "crc64_ecma bytes crc =
     foldl (\<lambda>crc b. let index = ucast (drop_bit 56 crc) XOR b
                    in push_bit 8 crc XOR crc_table ! unat (index :: u8)) crc bytes"


section \<open>The reference: one message bit at a time, high bit first\<close>

definition crc_bits :: "bool list \<Rightarrow> u64 \<Rightarrow> u64" where
  "crc_bits bs crc = foldl (\<lambda>crc b. crc_bit (crc XOR (if b then 0x8000000000000000 else 0))) crc bs"

definition byte_bits :: "u8 \<Rightarrow> bool list" where
  "byte_bits b = map (bit b) (rev [0..<8])"


section \<open>Linearity\<close>

lemma top_bit: "(0x8000000000000000 :: u64) = push_bit 63 1"
  by simp

lemma bit_top_int: "bit (9223372036854775808 :: int) n \<longleftrightarrow> n = 63"
  using bit_exp_iff [of 63 n, where 'a = int] by simp

lemma bit_top: "bit (0x8000000000000000 :: u64) n \<longleftrightarrow> n = 63"
  by (auto simp: bit_top_int)

lemma no_bit_64 [simp]: "\<not> bit (w :: u64) 64"
  by (auto dest: bit_imp_le_length)

lemma top_bit_test: "x AND 0x8000000000000000 \<noteq> 0 \<longleftrightarrow> bit (x :: u64) 63"
proof -
  have "x AND 0x8000000000000000 = (if bit x 63 then 0x8000000000000000 else 0)"
    by (rule bit_word_eqI) (auto simp: bit_simps bit_top_int)
  then show ?thesis by simp
qed

lemma crc_bit_alt: "crc_bit x = push_bit 1 x XOR (if bit x 63 then kPoly else 0)"
  by (simp add: crc_bit_def top_bit_test)

lemma crc_bit_xor: "crc_bit (x XOR y) = crc_bit x XOR crc_bit y"
  by (simp add: crc_bit_alt bit_simps push_bit_xor ac_simps)

lemma crc_bit_0 [simp]: "crc_bit 0 = 0"
  by (simp add: crc_bit_alt)

lemma crc_bits_xor: "(crc_bit ^^ n) (x XOR y) = (crc_bit ^^ n) x XOR (crc_bit ^^ n) y"
  by (induction n) (simp_all add: crc_bit_xor)

lemma crc_bit_shift: "\<not> bit x 63 \<Longrightarrow> crc_bit x = push_bit 1 x"
  by (simp add: crc_bit_alt)

text \<open>Bits that have room to move are only shifted.\<close>

lemma crc_bits_shift:
  "n \<le> 64 \<Longrightarrow> (\<forall>i. 64 - n \<le> i \<longrightarrow> \<not> bit x i) \<Longrightarrow> (crc_bit ^^ n) x = push_bit n x"
proof (induction n)
  case (Suc n)
  have "(crc_bit ^^ n) x = push_bit n x" using Suc by simp
  moreover have "\<not> bit (push_bit n x) 63" using Suc.prems by (simp add: bit_simps)
  ultimately show ?case by (simp add: crc_bit_shift)
qed simp

text \<open>The step is invertible because the polynomial has a constant term.\<close>

lemma crc_bit_inj: "crc_bit x = crc_bit y \<Longrightarrow> x = y"
proof -
  assume eq: "crc_bit x = crc_bit y"
  have "bit (crc_bit z) 0 = bit z 63" for z
    unfolding crc_bit_alt bit_xor_iff bit_push_bit_iff by (simp add: kPoly_def)
  then have top: "bit x 63 = bit y 63" using eq by metis
  define k where "k = (if bit y 63 then kPoly else 0)"
  have "push_bit 1 x XOR k = push_bit 1 y XOR k"
    using eq top by (simp only: crc_bit_alt k_def)
  then have "(push_bit 1 x XOR k) XOR k = (push_bit 1 y XOR k) XOR k" by (simp only:)
  then have sh: "push_bit 1 x = push_bit 1 y"
    by (simp only: xor.assoc xor_self_eq xor.right_neutral)
  show ?thesis
  proof (rule bit_word_eqI)
    fix n assume "n < LENGTH(64)"
    then consider "n = 63" | "Suc n < 64" by force
    then show "bit x n = bit y n"
    proof cases
      case 2
      have "bit (push_bit 1 x) (Suc n) = bit (push_bit 1 y) (Suc n)" using sh by simp
      then show ?thesis using 2 unfolding bit_push_bit_iff by simp
    qed (use top in simp)
  qed
qed

lemma crc_bits_inj: "(crc_bit ^^ n) x = (crc_bit ^^ n) y \<Longrightarrow> x = y"
  by (induction n) (auto dest: crc_bit_inj)


section \<open>The table step\<close>

definition crc_byte :: "u64 \<Rightarrow> u8 \<Rightarrow> u64" where
  "crc_byte crc b = (crc_bit ^^ 8) (crc XOR push_bit 56 (ucast b))"

lemma foldl_const: "foldl (\<lambda>x _. f x) a xs = (f ^^ length xs) a"
  by (induction xs arbitrary: a) (simp_all add: funpow_swap1)

lemma table_entry_alt: "table_entry i = (crc_bit ^^ 8) (push_bit 56 (ucast i))"
  by (simp add: table_entry_def foldl_const)

lemma crc_table_nth: "crc_table ! unat i = table_entry i"
proof -
  have "unat i < 256" using unsigned_less [of i, where 'a = nat] by simp
  then show ?thesis by (simp add: crc_table_def)
qed

lemma table_step:
  "push_bit 8 crc XOR crc_table ! unat (ucast (drop_bit 56 crc) XOR b :: u8) = crc_byte crc b"
proof -
  define low where "low = take_bit 56 crc"
  have "\<forall>i. 64 - 8 \<le> i \<longrightarrow> \<not> bit low i" by (simp add: low_def bit_simps)
  then have low8: "(crc_bit ^^ 8) low = push_bit 8 low" by (intro crc_bits_shift) auto
  have "push_bit 8 crc = push_bit 8 low"
    by (rule bit_word_eqI) (auto simp: low_def bit_simps)
  moreover have "low XOR push_bit 56 (ucast (ucast (drop_bit 56 crc) XOR b :: u8)) = crc XOR push_bit 56 (ucast b)"
    by (rule bit_word_eqI) (auto simp: low_def bit_simps)
  ultimately show ?thesis
    using crc_bits_xor [of 8 low "push_bit 56 (ucast (ucast (drop_bit 56 crc) XOR b :: u8))"] low8
    unfolding crc_table_nth table_entry_alt crc_byte_def by metis
qed

lemma crc64_fold: "crc64_ecma bytes crc = foldl crc_byte crc bytes"
  by (simp add: crc64_ecma_def Let_def table_step)


section \<open>Messages as bits\<close>

text \<open>A block of message bits, aligned to the high end of the register.\<close>

fun pack_bits :: "bool list \<Rightarrow> u64" where
  "pack_bits [] = 0"
| "pack_bits (b # bs) = (if b then 0x8000000000000000 else 0) XOR drop_bit 1 (pack_bits bs)"

lemma bit_pack_bits: "n < 64 \<Longrightarrow> bit (pack_bits bs) n \<longleftrightarrow> 63 - n < length bs \<and> bs ! (63 - n)"
proof (induction bs arbitrary: n)
  case (Cons b bs)
  show ?case
  proof (cases "n = 63")
    case True
    then show ?thesis by (simp add: bit_simps bit_top_int)
  next
    case False
    then have n: "Suc n < 64" "63 - n = Suc (63 - Suc n)" using Cons.prems by auto
    have "bit (pack_bits (b # bs)) n = bit (pack_bits bs) (Suc n)"
      using False by (auto simp: bit_simps bit_top_int)
    then show ?thesis using Cons.IH [OF n(1)] n(2) by simp
  qed
qed simp

lemma crc_bits_pack:
  "length bs \<le> 64 \<Longrightarrow> crc_bits bs crc = (crc_bit ^^ length bs) (crc XOR pack_bits bs)"
proof (induction bs arbitrary: crc)
  case (Cons b bs)
  let ?t = "if b then 0x8000000000000000 else 0 :: u64"
  let ?p = "pack_bits bs"
  have len: "length bs < 64" using Cons.prems by simp
  have "\<not> bit (drop_bit 1 ?p) 63" by (simp add: bit_simps)
  then have "crc_bit (drop_bit 1 ?p) = push_bit 1 (drop_bit 1 ?p)" by (rule crc_bit_shift)
  also have "\<dots> = ?p"
  proof (rule bit_word_eqI)
    fix n assume n: "n < LENGTH(64)"
    have "\<not> bit ?p 0" using len bit_pack_bits [of 0 bs] by simp
    then show "bit (push_bit 1 (drop_bit 1 ?p)) n = bit ?p n"
      using n unfolding bit_push_bit_iff bit_drop_bit_eq o_def by (cases n) auto
  qed
  finally have "crc_bit (crc XOR ?t) XOR ?p = crc_bit (crc XOR pack_bits (b # bs))"
    unfolding pack_bits.simps xor.assoc [symmetric] by (subst (2) crc_bit_xor) simp
  then show ?case
    using Cons by (simp add: crc_bits_def funpow_swap1)
qed (simp add: crc_bits_def)

lemma crc_bits_append: "crc_bits (xs @ ys) crc = crc_bits ys (crc_bits xs crc)"
  by (simp add: crc_bits_def)

lemma length_byte_bits [simp]: "length (byte_bits b) = 8"
  by (simp add: byte_bits_def)

lemma crc_byte_serial: "crc_byte crc b = crc_bits (byte_bits b) crc"
proof -
  have "pack_bits (byte_bits b) = push_bit 56 (ucast b)"
  proof (rule bit_word_eqI)
    fix n assume n: "n < LENGTH(64)"
    then show "bit (pack_bits (byte_bits b)) n = bit (push_bit 56 (ucast b) :: u64) n"
      using bit_pack_bits [of n "byte_bits b"]
      by (auto simp: byte_bits_def rev_nth bit_simps dest: bit_imp_le_length)
  qed
  then show ?thesis using crc_bits_pack [of "byte_bits b" crc] by (simp add: crc_byte_def)
qed

lemma crc64_serial: "crc64_ecma bytes crc = crc_bits (concat (map byte_bits bytes)) crc"
  unfolding crc64_fold
proof (induction bytes arbitrary: crc)
  case (Cons b bytes)
  then show ?case by (simp add: crc_bits_append crc_byte_serial)
qed (simp add: crc_bits_def)

lemma crc_bits_inj_state: "crc_bits bs x = crc_bits bs y \<Longrightarrow> x = y"
proof (induction bs arbitrary: x y)
  case (Cons b bs)
  let ?t = "if b then 0x8000000000000000 else 0 :: u64"
  have "crc_bit (x XOR ?t) = crc_bit (y XOR ?t)"
    using Cons by (simp add: crc_bits_def)
  then have "x XOR ?t = y XOR ?t" by (rule crc_bit_inj)
  then have "(x XOR ?t) XOR ?t = (y XOR ?t) XOR ?t" by simp
  then show ?case by (simp only: xor.assoc xor_self_eq xor.right_neutral)
qed (simp add: crc_bits_def)


section \<open>Properties\<close>

text \<open>
  C28: the table-driven checksum is the bit-serial CRC-64/ECMA-182 division of the message, high
  bit first, and it may be computed piecewise: continuing with the running value over a second
  buffer gives the checksum of the concatenation.
\<close>

theorem crc64_is_bit_serial_and_incremental:
  "crc64_ecma bytes crc = crc_bits (concat (map byte_bits bytes)) crc \<and>
   crc64_ecma (bytes @ rest) crc = crc64_ecma rest (crc64_ecma bytes crc)"
  using crc64_serial by (simp add: crc64_fold)

lemma crc_burst:
  assumes "concat (map byte_bits a) = pre @ x @ post" "concat (map byte_bits b) = pre @ y @ post"
    "length x = length y" "length x \<le> 64" "x \<noteq> y"
  shows "crc64_ecma a crc \<noteq> crc64_ecma b crc"
proof
  assume "crc64_ecma a crc = crc64_ecma b crc"
  then have "crc_bits post (crc_bits x (crc_bits pre crc)) = crc_bits post (crc_bits y (crc_bits pre crc))"
    unfolding crc64_serial assms(1,2) crc_bits_append .
  then have "crc_bits x (crc_bits pre crc) = crc_bits y (crc_bits pre crc)" by (rule crc_bits_inj_state)
  then have "crc_bits pre crc XOR pack_bits x = crc_bits pre crc XOR pack_bits y"
    using crc_bits_pack assms(3,4) crc_bits_inj by metis
  then have "crc_bits pre crc XOR (crc_bits pre crc XOR pack_bits x)
      = crc_bits pre crc XOR (crc_bits pre crc XOR pack_bits y)" by (simp only:)
  then have p: "pack_bits x = pack_bits y"
    by (simp only: xor.assoc [symmetric] xor_self_eq xor.left_neutral)
  have "x = y"
  proof (rule nth_equalityI)
    fix i assume i: "i < length x"
    then have "63 - i < 64" "63 - (63 - i) = i" using assms(4) by auto
    then show "x ! i = y ! i"
      using bit_pack_bits [of "63 - i" x] bit_pack_bits [of "63 - i" y] p i assms(3) by simp
  qed (use assms(3) in simp)
  then show False using assms(5) by simp
qed

lemma byte_bits_inj: "byte_bits b = byte_bits b' \<Longrightarrow> b = b'"
proof (rule bit_word_eqI)
  fix n assume eq: "byte_bits b = byte_bits b'" and "n < LENGTH(8)"
  then have "byte_bits b ! (7 - n) = byte_bits b' ! (7 - n)" "n < 8" by simp_all
  then show "bit b n \<longleftrightarrow> bit b' n" by (simp add: byte_bits_def rev_nth)
qed

lemma all_bits_inj: "concat (map byte_bits xs) = concat (map byte_bits ys) \<Longrightarrow> xs = ys"
proof (induction xs arbitrary: ys)
  case Nil
  then show ?case by (cases ys) (auto simp: byte_bits_def)
next
  case (Cons x xs)
  then obtain y ys' where ys: "ys = y # ys'" by (cases ys) (auto simp: byte_bits_def)
  with Cons.prems have "byte_bits x = byte_bits y \<and> concat (map byte_bits xs) = concat (map byte_bits ys')"
    by (simp add: append_eq_append_conv)
  then show ?case using Cons.IH byte_bits_inj ys by blast
qed

text \<open>In bytes: at most eight consecutive ones.\<close>

lemma crc_byte_burst:
  assumes "length x = length y" "length x \<le> 8" "x \<noteq> y"
  shows "crc64_ecma (pre @ x @ post) crc \<noteq> crc64_ecma (pre @ y @ post) crc"
proof (rule crc_burst)
  let ?bits = "\<lambda>xs. concat (map byte_bits xs)"
  show "?bits (pre @ x @ post) = ?bits pre @ ?bits x @ ?bits post" "?bits (pre @ y @ post) = ?bits pre @ ?bits y @ ?bits post" by simp_all
  have len: "length (?bits xs) = 8 * length xs" for xs by (induction xs) simp_all
  show "length (?bits x) = length (?bits y)" "length (?bits x) \<le> 64" using assms(1,2) by (simp_all add: len)
  show "?bits x \<noteq> ?bits y" using assms(3) all_bits_inj by blast
qed

text \<open>
  A burst error of at most 64 bits is always detected: two messages that agree outside a
  window of at most 64 bits and differ inside it have different checksums, whatever the length of
  the messages and the running value.
\<close>

theorem crc64_detects_bursts:
  assumes "concat (map byte_bits a) = pre @ x @ post" "concat (map byte_bits b) = pre @ y @ post"
    "length x = length y" "length x \<le> 64" "x \<noteq> y"
  shows "crc64_ecma a crc \<noteq> crc64_ecma b crc"
  using assms by (rule crc_burst)

theorem crc64_detects_bursts_witness:
  "crc64_ecma [1, 2, 3] 0 \<noteq> crc64_ecma [1, 255, 3] 0"
  by (rule crc64_detects_bursts [of _ "byte_bits 1" "byte_bits 2" "byte_bits 3" _ "byte_bits 255"])
    (simp_all add: byte_bits_def upt_rec)

end
