(* ===== verification/Distance.thy ===== *)
theory Distance
  imports Types
begin

text \<open>
  \<open>distance.cpp\<close>: the scalar kernels, the one-time choice of kernels and
  \<open>DistanceCalculator::distance\<close>.  A kernel reduces two vectors over their first \<open>n\<close>
  components; \<open>distance\<close> only calls it with \<open>n\<close> the length of both.  The AVX-512 kernels are
  arguments of \<open>create\<close>; \<open>Distance_Simd\<close> has the code's.  Sums are evaluated as
  written, one rounding per operation (no contraction into fused operations).
\<close>

type_synonym kernel = "f32 list \<Rightarrow> f32 list \<Rightarrow> nat \<Rightarrow> f32"

record distance_calculator =
  dc_l2_squared :: kernel
  dc_dot :: kernel
  dc_uses_simd :: bool


section \<open>Scalar kernels\<close>

definition l2_term :: "f32 \<Rightarrow> f32 \<Rightarrow> f64" where
  "l2_term x y = (let diff = f64_sub (f64_of_f32 x) (f64_of_f32 y) in f64_mul diff diff)"

definition dot_term :: "f32 \<Rightarrow> f32 \<Rightarrow> f64" where
  "dot_term x y = f64_mul (f64_of_f32 x) (f64_of_f32 y)"

definition scalar_l2_squared :: kernel where
  "scalar_l2_squared a b n =
     f32_of_f64 (foldl (\<lambda>sum i. f64_add sum (l2_term (a ! i) (b ! i))) f64_zero [0..<n])"

definition scalar_dot :: kernel where
  "scalar_dot a b n =
     f32_of_f64 (foldl (\<lambda>sum i. f64_add sum (dot_term (a ! i) (b ! i))) f64_zero [0..<n])"

text \<open>
  \<open>DistanceCalculator::create\<close>, given what the host supports and the SIMD kernels.
\<close>

definition create :: "bool \<Rightarrow> kernel \<Rightarrow> kernel \<Rightarrow> distance_calculator" where
  "create avx512 avx512_l2_squared avx512_dot =
     \<lparr>dc_l2_squared = (if avx512 then avx512_l2_squared else scalar_l2_squared),
      dc_dot = (if avx512 then avx512_dot else scalar_dot),
      dc_uses_simd = avx512\<rparr>"


section \<open>The metrics\<close>

definition cosine_from :: "f32 \<Rightarrow> f32 \<Rightarrow> f32 \<Rightarrow> f32" where
  "cosine_from norm_a_sq norm_b_sq dot_ab =
     (let denom = f32_mul (f32_sqrt norm_a_sq) (f32_sqrt norm_b_sq);
          cosine_distance = f32_sub f32_one (f32_div dot_ab denom)
      in if f32_lt cosine_distance f32_zero then f32_zero
         else if f32_lt f32_two cosine_distance then f32_two
         else cosine_distance)"

definition distance :: "distance_calculator \<Rightarrow> distance_metric \<Rightarrow> f32 list \<Rightarrow> f32 list \<Rightarrow> f32 result" where
  "distance c metric a b =
     (if length a \<noteq> length b then Inl DimensionMismatch
      else let n = length a in
        case metric of
          Euclidean \<Rightarrow> Inr (f32_sqrt (dc_l2_squared c a b n))
        | DotProduct \<Rightarrow> Inr (dc_dot c a b n)
        | Cosine \<Rightarrow>
            (let norm_a_sq = dc_dot c a a n; norm_b_sq = dc_dot c b b n in
             if f32_eq norm_a_sq f32_zero \<or> f32_eq norm_b_sq f32_zero
             then Inl UndefinedDistance
             else Inr (cosine_from norm_a_sq norm_b_sq (dc_dot c a b n)))
        | MetricValue _ \<Rightarrow> Inl InvalidMetric)"

text \<open>
  Both indexes and the query path read an error as an infinite distance
  (\<open>HnswIndex::distance_to\<close>, \<open>IvfIndex::metric_distance\<close>, \<open>exact_distance\<close>).
\<close>

definition distance_or_inf :: "distance_calculator \<Rightarrow> distance_metric \<Rightarrow> f32 list \<Rightarrow> f32 list \<Rightarrow> f32" where
  "distance_or_inf c metric a b = (case distance c metric a b of Inl _ \<Rightarrow> f32_inf | Inr d \<Rightarrow> d)"

abbreviation finite_vec :: "f32 list \<Rightarrow> bool" where
  "finite_vec v \<equiv> \<forall>x \<in> set v. f32_isfinite x"

definition scalar_calculator :: distance_calculator where
  "scalar_calculator = \<lparr>dc_l2_squared = scalar_l2_squared, dc_dot = scalar_dot, dc_uses_simd = False\<rparr>"



section \<open>The scalar kernels on finite vectors\<close>

lemma dec64_zero [simp]: "dec64 f64_zero = (False, 0)"
  by (simp add: dec64_def f64_zero_def)

lemma f32_finite_bounded: "f32_isfinite x \<Longrightarrow> bounded_by F64 (dec64 (f64_of_f32 x)) 1 1202"
  unfolding dec_ops f32_isfinite_def by (rule widen_bounded)

lemma f64_of_f32_finite: "f32_isfinite x \<Longrightarrow> is_finm F64 (dec64 (f64_of_f32 x))"
  using f32_finite_bounded by (simp add: bounded_by_def)

lemma l2_term_nonneg:
  assumes "f32_isfinite x" "f32_isfinite y"
  shows "\<not> is_nanm F64 (dec64 (l2_term x y)) \<and> \<not> fst (dec64 (l2_term x y))"
proof -
  have "\<not> is_nanm F64 (dec64 (f64_sub (f64_of_f32 x) (f64_of_f32 y)))"
    using assms [THEN f64_of_f32_finite] by (simp add: fp_add_fin_not_nan is_finm_neg)
  then show ?thesis
    by (simp add: l2_term_def Let_def fp_mul_self)
qed

text \<open>A sum of squares of finite components is never NaN and never negative, overflow included.\<close>

lemma scalar_l2_squared_nonneg:
  assumes "n \<le> length a" "n \<le> length b" "finite_vec a" "finite_vec b"
  shows "\<not> f32_isnan (scalar_l2_squared a b n) \<and> \<not> fst (dec32 (scalar_l2_squared a b n))"
proof -
  define S where "S m = foldl (\<lambda>sum i. f64_add sum (l2_term (a ! i) (b ! i))) f64_zero [0..<m]" for m
  have "\<not> is_nanm F64 (dec64 (S m)) \<and> \<not> fst (dec64 (S m))" if "m \<le> n" for m
    using that
  proof (induction m)
    case (Suc m)
    have "f32_isfinite (a ! m)" "f32_isfinite (b ! m)"
      using Suc.prems assms by simp_all
    then have "\<not> is_nanm F64 (dec64 (l2_term (a ! m) (b ! m))) \<and> \<not> fst (dec64 (l2_term (a ! m) (b ! m)))"
      by (rule l2_term_nonneg)
    moreover have "S (Suc m) = f64_add (S m) (l2_term (a ! m) (b ! m))"
      by (simp add: S_def)
    ultimately show ?case using Suc by (simp add: fp_add_nonneg)
  qed (simp add: S_def)
  then have "\<not> is_nanm F64 (dec64 (S n)) \<and> \<not> fst (dec64 (S n))" by blast
  then show ?thesis
    by (simp add: scalar_l2_squared_def S_def [symmetric] f32_isnan_def fst_fp_convert)
qed

lemma dot_term_bounded:
  assumes "f32_isfinite x" "f32_isfinite y"
  shows "bounded_by F64 (dec64 (dot_term x y)) 1 1330"
proof -
  have "bounded_by F64 (fp_mul F64 (dec64 (f64_of_f32 x)) (dec64 (f64_of_f32 y))) 1 (1202 + 1202 - funit F64)"
  proof (rule fp_mul_bounded)
    show "2 ^ (1202 + 1202 - funit F64) < fval F64 (infm F64)" by (simp only: fval_inf) simp
  qed (use assms f32_finite_bounded in simp_all)
  then show ?thesis by (simp add: dot_term_def)
qed

text \<open>With at most 65536 finite components the double sum stays far from overflow.\<close>

lemma scalar_dot_not_nan:
  assumes "n \<le> length a" "n \<le> length b" "finite_vec a" "finite_vec b" "n \<le> 65536"
  shows "\<not> f32_isnan (scalar_dot a b n)"
proof -
  define S where "S m = foldl (\<lambda>sum i. f64_add sum (dot_term (a ! i) (b ! i))) f64_zero [0..<m]" for m
  have lim: "(m + 1) * 2 ^ 1330 < fval F64 (infm F64)" if "m \<le> 65536" for m :: nat
  proof -
    have "(m + 1) * 2 ^ 1330 \<le> 2 ^ 17 * 2 ^ 1330" using that by (intro mult_le_mono1) simp
    also have "\<dots> < fval F64 (infm F64)" by (simp only: fval_inf) (simp flip: power_add)
    finally show ?thesis .
  qed
  have "bounded_by F64 (dec64 (S m)) m 1330" if "m \<le> n" for m
    using that
  proof (induction m)
    case 0
    then show ?case by (simp add: S_def bounded_by_0)
  next
    case (Suc m)
    have "f32_isfinite (a ! m)" "f32_isfinite (b ! m)"
      using Suc.prems assms by simp_all
    then have "bounded_by F64 (dec64 (dot_term (a ! m) (b ! m))) 1 1330"
      by (rule dot_term_bounded)
    moreover have "S (Suc m) = f64_add (S m) (dot_term (a ! m) (b ! m))"
      by (simp add: S_def)
    moreover have "m + 1 < 2 ^ prec F64" using Suc.prems assms(5) by simp
    ultimately show ?case
      using Suc lim [of m] assms(5) fp_add_bounded [of F64 "dec64 (S m)" m 1330 _ 1] by simp
  qed
  then have "bounded_by F64 (dec64 (S n)) n 1330" by blast
  then have "\<not> is_nanm F64 (dec64 (S n))" by (simp add: bounded_by_def fin_not_nan)
  then show ?thesis
    by (simp add: scalar_dot_def S_def [symmetric] f32_isnan_def)
qed



section \<open>Symmetry and identity of the squared distance\<close>

lemma fp_neg_fin: "is_finm F x \<Longrightarrow> fp_neg F x = (\<not> fst x, snd x)"
  by (simp add: fp_neg_def fin_not_nan)

lemma ssig_neg: "is_finm F x \<Longrightarrow> ssig F (fp_neg F x) k = - ssig F x k"
  by (simp add: fp_neg_fin ssig_def)

lemma fp_add_fin:
  "is_finm F x \<Longrightarrow> is_finm F y \<Longrightarrow>
   fp_add F x y = (let k = min (expo F (snd x)) (expo F (snd y)); s = ssig F x k + ssig F y k
     in if s = 0 then (fst x \<and> fst y, 0) else (s < 0, round_mag F (nat \<bar>s\<bar>) (int k)))"
  using fin_not_nan [of F x] fin_not_nan [of F y]
  by (simp add: fp_add_def) (simp add: is_finm_def)

lemma snd_fp_sub_swap:
  assumes "is_finm F x" "is_finm F y"
  shows "snd (fp_add F x (fp_neg F y)) = snd (fp_add F y (fp_neg F x))"
proof -
  have *: "\<bar>ssig F x k - ssig F y k\<bar> = \<bar>ssig F y k - ssig F x k\<bar>" for k by (rule abs_minus_commute)
  have "snd (fp_neg F z) = snd z" if "is_finm F z" for z using that by (simp add: fp_neg_fin)
  then show ?thesis
    using assms * by (simp add: fp_add_fin is_finm_neg ssig_neg Let_def min.commute)
qed

lemma fp_mul_self_snd: "snd d = snd d' \<Longrightarrow> fp_mul F d d = fp_mul F d' d'"
  by (simp add: fp_mul_def is_nanm_def)

lemma fp_sub_self:
  assumes "is_finm F x"
  shows "fp_add F x (fp_neg F x) = (False, 0)"
  using fp_add_fin [OF assms, of "fp_neg F x"] assms
  by (simp add: is_finm_neg ssig_neg Let_def) (simp add: fp_neg_fin)

lemma l2_term_swap:
  assumes "f32_isfinite x" "f32_isfinite y"
  shows "l2_term x y = l2_term y x"
proof -
  let ?d = "\<lambda>x y. dec64 (f64_sub (f64_of_f32 x) (f64_of_f32 y))"
  have "snd (?d x y) = snd (?d y x)"
    unfolding dec_ops(7) using assms by (intro snd_fp_sub_swap f64_of_f32_finite)
  then have "fp_mul F64 (?d x y) (?d x y) = fp_mul F64 (?d y x) (?d y x)"
    by (rule fp_mul_self_snd)
  then show ?thesis
    unfolding l2_term_def Let_def f64_mul_def by simp
qed

lemma l2_term_self:
  assumes "f32_isfinite x"
  shows "l2_term x x = f64_zero"
proof -
  have "dec64 (f64_sub (f64_of_f32 x) (f64_of_f32 x)) = (False, 0)"
    unfolding dec_ops(7) using assms by (intro fp_sub_self f64_of_f32_finite)
  then have "dec64 (l2_term x x) = (False, 0)"
    by (simp only: l2_term_def Let_def dec_ops(8)) (simp add: fp_mul_def is_nanm_def sig_def)
  then show ?thesis by (metis dec64_zero enc_dec64)
qed

lemma f64_add_zero_zero [simp]: "f64_add f64_zero f64_zero = f64_zero"
proof -
  have "dec64 (f64_add f64_zero f64_zero) = (False, 0)"
    by (simp add: fp_add_def is_nanm_def Let_def ssig_def sig_def)
  then show ?thesis by (metis dec64_zero enc_dec64)
qed

lemma f32_of_f64_zero [simp]: "f32_of_f64 f64_zero = f32_zero"
  by (simp add: f32_of_f64_def fp_convert_def is_nanm_def sig_def enc32_def f32_zero_def)

lemma dec32_consts [simp]:
  "dec32 f32_zero = (False, 0)" "dec32 f32_two = (False, 0x40000000)"
  "dec32 f32_inf = (False, 255 * 2 ^ 23)" "dec32 f32_one = (False, 0x3F800000)"
  by (simp_all add: dec32_def f32_zero_def f32_two_def f32_inf_def f32_one_def)

lemma f32_consts_not_nan [simp]:
  "\<not> f32_isnan f32_zero" "\<not> f32_isnan f32_two" "\<not> f32_isnan f32_inf" "\<not> f32_isnan f32_one"
  by (simp_all add: f32_isnan_def is_nanm_def)

lemma f32_sqrt_zero [simp]: "f32_sqrt f32_zero = f32_zero"
proof -
  have "dec32 (f32_sqrt f32_zero) = (False, 0)"
    by (simp add: fp_sqrt_def is_nanm_def)
  then show ?thesis by (metis dec32_consts(1) enc_dec32)
qed

lemma foldl_cong_nth:
  "(\<And>i s. i < n \<Longrightarrow> f s i = g s i) \<Longrightarrow> foldl f s [0..<n] = foldl g s [0..<n]"
  by (intro foldl_cong) auto

lemma scalar_l2_squared_swap:
  assumes "n \<le> length a" "n \<le> length b" "finite_vec a" "finite_vec b"
  shows "scalar_l2_squared a b n = scalar_l2_squared b a n"
  using assms unfolding scalar_l2_squared_def
  by (intro arg_cong [of _ _ f32_of_f64] foldl_cong_nth arg_cong2 [of _ _ _ _ f64_add] l2_term_swap) auto

lemma scalar_l2_squared_self:
  assumes "finite_vec a"
  shows "scalar_l2_squared a a (length a) = f32_zero"
proof -
  have "foldl (\<lambda>sum i. f64_add sum (l2_term (a ! i) (a ! i))) f64_zero [0..<m] = f64_zero"
    if "m \<le> length a" for m
    using that by (induction m) (simp_all add: assms l2_term_self)
  then show ?thesis by (simp add: scalar_l2_squared_def)
qed


section \<open>What the metrics return\<close>

lemmas distance_eval = distance_def cosine_from_def scalar_calculator_def scalar_l2_squared_def scalar_dot_def
  l2_term_def dot_term_def distance_or_inf_def

lemma scalar_calculator_sel [simp]:
  "dc_l2_squared scalar_calculator = scalar_l2_squared" "dc_dot scalar_calculator = scalar_dot"
  by (simp_all add: scalar_calculator_def)

lemma create_scalar: "create False k k' = scalar_calculator"
  by (simp add: create_def scalar_calculator_def)

text \<open>
  On finite vectors of equal length the Euclidean distance of the scalar path is a non-negative
  number (possibly infinite, never NaN), it does not depend on the order of its arguments, and
  the distance of a vector to itself is exactly zero.
\<close>

lemma euclidean_distance:
  assumes "length a = length b" "finite_vec a" "finite_vec b"
  obtains d where "distance scalar_calculator Euclidean a b = Inr d" "\<not> f32_isnan d"
    "f32_le f32_zero d" "distance scalar_calculator Euclidean b a = Inr d"
proof
  let ?d = "f32_sqrt (scalar_l2_squared a b (length a))"
  show "distance scalar_calculator Euclidean a b = Inr ?d"
    "distance scalar_calculator Euclidean b a = Inr ?d"
    using assms scalar_l2_squared_swap [of "length a" a b] by (simp_all add: distance_def)
  have *: "\<not> f32_isnan ?d \<and> \<not> fst (dec32 ?d)"
    using scalar_l2_squared_nonneg [of "length a" a b] assms
    by (simp add: f32_isnan_def fp_sqrt_nonneg)
  then show "\<not> f32_isnan ?d" by blast
  then show "f32_le f32_zero ?d" using * by (simp only: f32_le_iff f32_consts_not_nan) (simp add: fkey_def)
qed

lemma cosine_from_range:
  "f32_isnan (cosine_from p q r) \<or>
   (f32_le f32_zero (cosine_from p q r) \<and> f32_le (cosine_from p q r) f32_two)"
  by (auto simp: cosine_from_def Let_def f32_le_iff f32_lt_iff fkey_def)

lemma distance_or_inf_euclidean_not_nan:
  assumes "length a = length b" "finite_vec a" "finite_vec b"
  shows "\<not> f32_isnan (distance_or_inf scalar_calculator Euclidean a b)"
  using assms by (metis euclidean_distance distance_or_inf_def sum.simps(6))

lemma distance_or_inf_dot_not_nan:
  assumes "length a = length b" "finite_vec a" "finite_vec b" "length a \<le> 65536"
  shows "\<not> f32_isnan (distance_or_inf scalar_calculator DotProduct a b)"
  using assms by (simp add: distance_or_inf_def distance_def scalar_dot_not_nan)


section \<open>Properties\<close>

text \<open>
  On finite vectors of equal length the Euclidean distance of the scalar path is a
  non-negative number (possibly infinite, never NaN), it does not depend on the order of its
  arguments, and the distance of a vector to itself is exactly zero.
\<close>

theorem euclidean_laws:
  assumes "length a = length b" "finite_vec a" "finite_vec b"
  shows "\<exists>d. distance scalar_calculator Euclidean a b = Inr d \<and> \<not> f32_isnan d \<and> f32_le f32_zero d
      \<and> distance scalar_calculator Euclidean b a = Inr d
      \<and> distance scalar_calculator Euclidean a a = Inr f32_zero"
proof -
  obtain d where "distance scalar_calculator Euclidean a b = Inr d" "\<not> f32_isnan d"
    "f32_le f32_zero d" "distance scalar_calculator Euclidean b a = Inr d"
    using euclidean_distance [OF assms] .
  moreover have "distance scalar_calculator Euclidean a a = Inr f32_zero"
    using scalar_l2_squared_self [OF assms(2)] by (simp add: distance_def)
  ultimately show ?thesis by blast
qed

theorem euclidean_laws_witness:
  "\<exists>d. distance scalar_calculator Euclidean [0x3F800000, 0x40000000] [0xC0400000, 0x7F7FFFFF] = Inr d
      \<and> f32_le f32_zero d"
proof -
  have "finite_vec [0x3F800000, 0x40000000]" "finite_vec [0xC0400000, 0x7F7FFFFF]"
    by (simp_all add: fl_eval cong: let_weak_cong)
  from euclidean_laws [OF _ this] show ?thesis by (metis length_Cons)
qed

text \<open>
  C25: which inputs \<open>distance\<close> rejects, and what it returns otherwise.  For any kernels: vectors of
  different lengths are a dimension mismatch before anything else; a metric value outside the
  enumeration is an invalid metric; the cosine distance is undefined exactly when one of the two
  computed squared norms equals zero, and is otherwise in [0, 2] or NaN; the other metrics
  always succeed.
\<close>

theorem distance_outcomes:
  "distance c metric a b =
     (if length a \<noteq> length b then Inl DimensionMismatch
      else if \<not> known_metric metric then Inl InvalidMetric
      else if metric = Cosine \<and> (f32_eq (dc_dot c a a (length a)) f32_zero \<or> f32_eq (dc_dot c b b (length b)) f32_zero)
      then Inl UndefinedDistance
      else Inr (distance_or_inf c metric a b))
   \<and> (metric = Cosine \<and> is_ok (distance c metric a b) \<longrightarrow>
        f32_isnan (distance_or_inf c metric a b) \<or>
        (f32_le f32_zero (distance_or_inf c metric a b) \<and> f32_le (distance_or_inf c metric a b) f32_two))"
  using cosine_from_range
  by (cases metric) (auto simp: distance_def distance_or_inf_def Let_def)

theorem distance_outcomes_witness:
  "is_ok (distance scalar_calculator Cosine [0x3F800000] [0xBF800000]) \<and>
   (f32_isnan (distance_or_inf scalar_calculator Cosine [0x3F800000] [0xBF800000]) \<or>
    (f32_le f32_zero (distance_or_inf scalar_calculator Cosine [0x3F800000] [0xBF800000]) \<and>
     f32_le (distance_or_inf scalar_calculator Cosine [0x3F800000] [0xBF800000]) f32_two))"
proof -
  have "is_ok (distance scalar_calculator Cosine [0x3F800000] [0xBF800000])"
    by (simp add: distance_eval Let_def) (simp add: fl_eval cong: let_weak_cong)
  then show ?thesis
    using distance_outcomes [of scalar_calculator Cosine "[0x3F800000]" "[0xBF800000]"] by simp
qed


end
