(* ===== verification/Index_Spec.thy ===== *)
theory Index_Spec
  imports Distance
begin

text \<open>
  What both indexes share: the host facilities they draw on, the assumption that distances are
  numbers, and the contract of \<open>index.hpp\<close> as a locale.  The collection is proved against the
  contract; \<open>Ivf\<close>, \<open>Hnsw\<close> and the dispatching \<open>Index\<close> discharge it.
\<close>

section \<open>The host\<close>

text \<open>
  What the program takes from the compiler's library and the processor, and the standard leaves
  open: the calculator bound at start-up, the permutation of \<open>std::shuffle\<close> under a seeded
  generator, the \<open>n\<close>-th draw of a uniform real distribution from a seeded generator, and
  \<open>std::log\<close>.
\<close>

record host =
  h_calculator :: distance_calculator
  h_shuffle :: "u64 \<Rightarrow> nat list \<Rightarrow> nat list"
  h_draw :: "u64 \<Rightarrow> nat \<Rightarrow> f64"
  h_log :: "f64 \<Rightarrow> f64"

text \<open>\<open>std::shuffle\<close> rearranges its range.\<close>

definition shuffle_permutes :: "host \<Rightarrow> bool" where
  "shuffle_permutes h \<longleftrightarrow> (\<forall>seed xs. mset (h_shuffle h seed xs) = mset xs)"

text \<open>
  No distance between finite vectors is NaN.  This holds of the scalar kernels for the Euclidean
  and dot-product metrics; the cosine metric can break it.
\<close>

definition nan_free :: "host \<Rightarrow> distance_metric \<Rightarrow> nat \<Rightarrow> bool" where
  "nan_free h metric n \<longleftrightarrow>
     (\<forall>a b. length a = n \<longrightarrow> length b = n \<longrightarrow> finite_vec a \<longrightarrow> finite_vec b \<longrightarrow>
        \<not> f32_isnan (distance_or_inf (h_calculator h) metric a b))"

lemma nan_freeD:
  "nan_free h metric n \<Longrightarrow> length a = n \<Longrightarrow> length b = n \<Longrightarrow> finite_vec a \<Longrightarrow> finite_vec b \<Longrightarrow>
   \<not> f32_isnan (distance_or_inf (h_calculator h) metric a b)"
  by (simp add: nan_free_def)

lemma nan_free_scalar:
  "h_calculator h = scalar_calculator \<Longrightarrow> metric = Euclidean \<or> metric = DotProduct \<Longrightarrow> n \<le> 65536 \<Longrightarrow>
   nan_free h metric n"
  unfolding nan_free_def
  by (auto simp: distance_or_inf_euclidean_not_nan distance_or_inf_dot_not_nan)

text \<open>
  A host for the examples: the scalar kernels, a shuffle that does nothing, draws of 1 but for one
  of 1/2, and a logarithm right at these two and 1 elsewhere.
\<close>

definition plain_host :: host where
  "plain_host = \<lparr>h_calculator = scalar_calculator, h_shuffle = (\<lambda>_ xs. xs),
     h_draw = (\<lambda>_ n. if n = 1 then 0x3FE0000000000000 else f64_one),
     h_log = (\<lambda>x. if x = f64_one then f64_zero else if x = 0x3FE0000000000000 then f64_neg f64_one else f64_one)\<rparr>"

text \<open>Overwriting one slot changes the number of live slots by at most that slot.\<close>

lemma length_filter_update:
  assumes "s < length xs"
  shows "length (filter P (xs[s := e])) + (if P (xs ! s) then 1 else 0)
       = length (filter P xs) + (if P e then 1 else 0)"
  using assms
proof (induction xs arbitrary: s)
  case (Cons x xs)
  show ?case
  proof (cases s)
    case (Suc n)
    then show ?thesis using Cons.IH [of n] Cons.prems by simp
  qed simp
qed simp


lemma all_update: "\<forall>x \<in> set xs. P x \<Longrightarrow> P e \<Longrightarrow> \<forall>x \<in> set (xs[s := e]). P x"
  using set_update_subset_insert [of xs s e] by blast


text \<open>The id table of an index names exactly the slots, by their distinct identifiers.\<close>

definition id_table :: "(record_id \<times> nat) list \<Rightarrow> record_id list \<Rightarrow> bool" where
  "id_table tbl ids \<longleftrightarrow> (\<forall>rid s. omap_find rid tbl = Some s \<longleftrightarrow> s < length ids \<and> ids ! s = rid)"

lemma id_table_Nil [simp]: "id_table [] []"
  by (simp add: id_table_def)

lemma id_tableD: "id_table tbl ids \<Longrightarrow> omap_find rid tbl = Some s \<longleftrightarrow> s < length ids \<and> ids ! s = rid"
  by (simp add: id_table_def)

lemma id_table_fresh: "id_table tbl ids \<Longrightarrow> omap_find rid tbl = None \<Longrightarrow> rid \<notin> set ids"
proof
  assume t: "id_table tbl ids" and "omap_find rid tbl = None" "rid \<in> set ids"
  then obtain s where "s < length ids" "ids ! s = rid" by (auto simp: in_set_conv_nth)
  then have "omap_find rid tbl = Some s" using id_tableD [OF t] by simp
  then show False using \<open>omap_find rid tbl = None\<close> by simp
qed

lemma id_table_slot: "id_table tbl ids \<Longrightarrow> s < length ids \<Longrightarrow> omap_find (ids ! s) tbl = Some s"
  by (simp add: id_table_def)

lemma id_table_append:
  assumes t: "id_table tbl ids" and new: "omap_find rid tbl = None"
  shows "id_table ((rid, length ids) # tbl) (ids @ [rid])"
  unfolding id_table_def
proof (intro allI)
  fix r s
  have "ids ! s \<noteq> rid" if "s < length ids" using id_table_fresh [OF t new] that nth_mem by metis
  then show "omap_find r ((rid, length ids) # tbl) = Some s \<longleftrightarrow> s < length (ids @ [rid]) \<and> (ids @ [rid]) ! s = r"
    using id_tableD [OF t, of r s] by (auto simp: nth_append less_Suc_eq)
qed

lemma id_table_distinct: "id_table tbl ids \<Longrightarrow> distinct ids"
  unfolding distinct_conv_nth id_table_def by (metis option.inject)


section \<open>The contract of an index\<close>

text \<open>
  \<open>contents\<close> is the set of live records.  \<open>slots\<close> counts the records ever added: identifiers are
  kept in 32 bits, so the operations need it small.  \<open>add\<close> and \<open>search\<close> are option-valued:
  \<open>None\<close> is undefined behaviour, which the contract rules out.
\<close>

locale vector_index =
  fixes inv :: "'i \<Rightarrow> bool"
    and slots :: "'i \<Rightarrow> nat"
    and width :: "'i \<Rightarrow> nat"
    and dist :: "'i \<Rightarrow> f32 list \<Rightarrow> f32 list \<Rightarrow> f32"
    and contents :: "'i \<Rightarrow> record_id \<Rightarrow> f32 list option"
    and add :: "'i \<Rightarrow> record_id \<Rightarrow> f32 list \<Rightarrow> (status \<times> 'i) option"
    and rem :: "'i \<Rightarrow> record_id \<Rightarrow> status \<times> 'i"
    and search :: "'i \<Rightarrow> f32 list \<Rightarrow> u32 \<Rightarrow> query_params \<Rightarrow> (candidate list \<times> 'i) option"
  assumes add_ok: "inv i \<Longrightarrow> slots i < 2 ^ 31 - 1 \<Longrightarrow> rid \<noteq> [] \<Longrightarrow> length v = width i \<Longrightarrow> finite_vec v \<Longrightarrow>
      \<exists>i'. add i rid v = Some (Inr (), i') \<and> inv i' \<and> slots i' \<le> slots i + 1 \<and> width i' = width i
         \<and> dist i' = dist i \<and> contents i' = (contents i)(rid \<mapsto> v)"
    and remove_ok: "inv i \<Longrightarrow>
      \<exists>i'. rem i rid = (if contents i rid = None then Inl NotFound else Inr (), i') \<and> inv i'
         \<and> slots i' = slots i \<and> width i' = width i \<and> dist i' = dist i
         \<and> contents i' = (contents i)(rid := None)"
    and search_ok: "inv i \<Longrightarrow> slots i < 2 ^ 31 \<Longrightarrow> length q = width i \<Longrightarrow> finite_vec q \<Longrightarrow>
      \<exists>cs i'. search i q k params = Some (cs, i') \<and> inv i' \<and> slots i' = slots i \<and> width i' = width i
         \<and> dist i' = dist i \<and> contents i' = contents i
         \<and> length cs \<le> unat k \<and> distinct (map fst cs)
         \<and> (\<forall>(rid, d) \<in> set cs. \<exists>v. contents i rid = Some v \<and> d = dist i q v)"
begin

text \<open>Adding a list of records, as an index build does.\<close>

fun add_all :: "'i \<Rightarrow> (record_id \<times> f32 list) list \<Rightarrow> 'i option" where
  "add_all i [] = Some i"
| "add_all i ((rid, v) # rs) = (case add i rid v of None \<Rightarrow> None | Some (_, i') \<Rightarrow> add_all i' rs)"

lemma add_all_ok:
  assumes "inv i" "slots i + length rs < 2 ^ 31" "\<forall>(rid, v) \<in> set rs. rid \<noteq> [] \<and> length v = width i \<and> finite_vec v"
  shows "\<exists>i'. add_all i rs = Some i' \<and> inv i' \<and> slots i' \<le> slots i + length rs \<and> width i' = width i
     \<and> dist i' = dist i \<and> contents i' = contents i ++ map_of (rev rs)"
  using assms
proof (induction rs arbitrary: i)
  case (Cons r rs)
  obtain rid v where r: "r = (rid, v)" by (cases r)
  have "rid \<noteq> []" "length v = width i" "finite_vec v" "slots i < 2 ^ 31 - 1" using Cons.prems r by auto
  then obtain i' where i': "add i rid v = Some (Inr (), i')" "inv i'" "slots i' \<le> slots i + 1" "width i' = width i"
    "dist i' = dist i" "contents i' = (contents i)(rid \<mapsto> v)"
    using add_ok Cons.prems(1) by meson
  obtain i'' where "add_all i' rs = Some i''" "inv i''" "slots i'' \<le> slots i' + length rs" "width i'' = width i'"
    "dist i'' = dist i'" "contents i'' = contents i' ++ map_of (rev rs)"
    using Cons.IH [of i'] Cons.prems i' by fastforce
  then show ?case using i' r by (simp add: map_add_upd_left)
qed simp

end

end
