(* ===== verification/Distance_Simd.thy ===== *)
theory Distance_Simd
  imports Index_Spec
begin

text \<open>
  The AVX-512 kernels of \<open>distance.cpp\<close>.  A register of 16 floats or 8 doubles is the list of its
  lanes, and each intrinsic works lane by lane with one rounding, as its documentation says.  The
  order in which \<open>_mm512_reduce_add_pd\<close> adds the lanes is left to the compiler: it is a parameter,
  known only to add every lane once.
\<close>

section \<open>Registers\<close>

type_synonym m512 = "f32 list"
type_synonym m512d = "f64 list"

definition loadu_ps :: "f32 list \<Rightarrow> nat \<Rightarrow> m512" where
  "loadu_ps a i = map (\<lambda>j. a ! (i + j)) [0..<16]"

definition sub_ps :: "m512 \<Rightarrow> m512 \<Rightarrow> m512" where
  "sub_ps x y = map (\<lambda>j. f32_sub (x ! j) (y ! j)) [0..<16]"

definition cvtps_pd :: "f32 list \<Rightarrow> m512d" where
  "cvtps_pd x = map f64_of_f32 x"

definition lower_ps256 :: "m512 \<Rightarrow> f32 list" where "lower_ps256 v = take 8 v"
definition upper_ps256 :: "m512 \<Rightarrow> f32 list" where "upper_ps256 v = drop 8 v"

definition setzero_pd :: m512d where "setzero_pd = replicate 8 f64_zero"

definition fmadd_pd :: "m512d \<Rightarrow> m512d \<Rightarrow> m512d \<Rightarrow> m512d" where
  "fmadd_pd x y z = map (\<lambda>j. f64_fma (x ! j) (y ! j) (z ! j)) [0..<8]"

text \<open>A reduction adds the lanes along some tree.\<close>

datatype sum_tree = Lane nat | Sum sum_tree sum_tree

fun tree_sum :: "m512d \<Rightarrow> sum_tree \<Rightarrow> f64" where
  "tree_sum x (Lane j) = x ! j"
| "tree_sum x (Sum l r) = f64_add (tree_sum x l) (tree_sum x r)"

fun tree_lanes :: "sum_tree \<Rightarrow> nat list" where
  "tree_lanes (Lane j) = [j]"
| "tree_lanes (Sum l r) = tree_lanes l @ tree_lanes r"

definition reduce_adds :: "(m512d \<Rightarrow> f64) \<Rightarrow> bool" where
  "reduce_adds reduce_add_pd \<longleftrightarrow>
     (\<exists>t. mset (tree_lanes t) = mset [0..<8] \<and> (\<forall>x. length x = 8 \<longrightarrow> reduce_add_pd x = tree_sum x t))"


section \<open>The kernels\<close>

text \<open>The loop over whole registers; it returns where the scalar tail starts.\<close>

function register_loop :: "(nat \<Rightarrow> 's \<Rightarrow> 's) \<Rightarrow> nat \<Rightarrow> nat \<Rightarrow> 's \<Rightarrow> nat \<times> 's" where
  "register_loop body n i acc = (if i + 16 \<le> n then register_loop body n (i + 16) (body i acc) else (i, acc))"
  by pat_completeness auto
termination by (relation "measure (\<lambda>(_, n, i, _). n - i)") auto

declare register_loop.simps [simp del]

definition l2_registers :: "f32 list \<Rightarrow> f32 list \<Rightarrow> nat \<Rightarrow> m512d \<times> m512d \<Rightarrow> m512d \<times> m512d" where
  "l2_registers a b i acc =
     (let va = loadu_ps a i; vb = loadu_ps b i; diff = sub_ps va vb;
          dlo = cvtps_pd (lower_ps256 diff); dhi = cvtps_pd (upper_ps256 diff)
      in (fmadd_pd dlo dlo (fst acc), fmadd_pd dhi dhi (snd acc)))"

definition avx512_l2_squared :: "(m512d \<Rightarrow> f64) \<Rightarrow> kernel" where
  "avx512_l2_squared reduce_add_pd a b n =
     (let (i, acc_lo, acc_hi) = register_loop (l2_registers a b) n 0 (setzero_pd, setzero_pd);
          total = f64_add (reduce_add_pd acc_lo) (reduce_add_pd acc_hi)
      in f32_of_f64 (foldl (\<lambda>sum i. f64_add sum (l2_term (a ! i) (b ! i))) total [i..<n]))"

definition dot_registers :: "f32 list \<Rightarrow> f32 list \<Rightarrow> nat \<Rightarrow> m512d \<times> m512d \<Rightarrow> m512d \<times> m512d" where
  "dot_registers a b i acc =
     (let va = loadu_ps a i; vb = loadu_ps b i;
          alo = cvtps_pd (lower_ps256 va); ahi = cvtps_pd (upper_ps256 va);
          blo = cvtps_pd (lower_ps256 vb); bhi = cvtps_pd (upper_ps256 vb)
      in (fmadd_pd alo blo (fst acc), fmadd_pd ahi bhi (snd acc)))"

definition avx512_dot :: "(m512d \<Rightarrow> f64) \<Rightarrow> kernel" where
  "avx512_dot reduce_add_pd a b n =
     (let (i, acc_lo, acc_hi) = register_loop (dot_registers a b) n 0 (setzero_pd, setzero_pd);
          total = f64_add (reduce_add_pd acc_lo) (reduce_add_pd acc_hi)
      in f32_of_f64 (foldl (\<lambda>sum i. f64_add sum (dot_term (a ! i) (b ! i))) total [i..<n]))"

text \<open>The calculator of a host with or without AVX-512.\<close>

abbreviation host_calculator :: "bool \<Rightarrow> (m512d \<Rightarrow> f64) \<Rightarrow> distance_calculator" where
  "host_calculator avx512 reduce_add_pd \<equiv> create avx512 (avx512_l2_squared reduce_add_pd) (avx512_dot reduce_add_pd)"


section \<open>Fused multiply-add\<close>

lemma fp_fma_self:
  assumes "\<not> is_nanm F x" "0 < infm F" "\<not> is_nanm F z" "\<not> fst z"
  shows "\<not> is_nanm F (fp_fma F x x z) \<and> \<not> fst (fp_fma F x x z)"
  using assms by (auto simp: fp_fma_def Let_def is_nanm_def not_less not_le add_nonneg_nonneg)

lemma fp_fma_self_snd: "snd d = snd d' \<Longrightarrow> fp_fma F d d z = fp_fma F d' d' z"
  by (simp add: fp_fma_def is_nanm_def)

lemma fp_fma_bounded:
  assumes x: "bounded_by F x 1 a" and y: "bounded_by F y 1 b" and z: "bounded_by F z c j" and j: "j + funit F = a + b"
    and F: "0 < prec F" "0 < infm F" "c + 1 < 2 ^ prec F" "(c + 1) * 2 ^ j < fval F (infm F)"
  shows "bounded_by F (fp_fma F x y z) (c + 1) j"
proof -
  define p where "p = sig F (snd x) * sig F (snd y)"
  define kp where "kp = int (expo F (snd x) + expo F (snd y)) - int (funit F)"
  define kz where "kz = int (expo F (snd z))"
  define k where "k = min kp kz"
  define v where "v = (if fst x \<noteq> fst y then -1 else 1) * (int p * 2 ^ nat (kp - k))
                 + (if fst z then -1 else 1) * (int (sig F (snd z)) * 2 ^ nat (kz - k))"
  have fin: "is_finm F x" "is_finm F y" "is_finm F z" using x y z by (simp_all add: bounded_by_def)
  have scale: "2 ^ nat (m - k) * 2 powi k = (2 powi m :: real)" if "k \<le> m" for m
    using that by (simp flip: power_int_add power_int_of_nat)
  have "\<bar>v\<bar> \<le> int p * 2 ^ nat (kp - k) + int (sig F (snd z)) * 2 ^ nat (kz - k)"
    unfolding v_def by (rule order_trans [OF abs_triangle_ineq]) (simp add: abs_mult)
  then have "real_of_int \<bar>v\<bar> \<le> real_of_int (int p * 2 ^ nat (kp - k) + int (sig F (snd z)) * 2 ^ nat (kz - k))"
    by (simp only: of_int_le_iff)
  then have "real (nat \<bar>v\<bar>) \<le> real p * 2 ^ nat (kp - k) + real (sig F (snd z)) * 2 ^ nat (kz - k)" by simp
  then have "real (nat \<bar>v\<bar>) * 2 powi k \<le> (real p * 2 ^ nat (kp - k) + real (sig F (snd z)) * 2 ^ nat (kz - k)) * 2 powi k"
    by (intro mult_right_mono) simp_all
  also have "\<dots> = real p * 2 powi kp + real (sig F (snd z)) * 2 powi kz"
    using scale [of kp] scale [of kz] by (simp add: k_def distrib_right mult.assoc)
  also have "\<dots> \<le> 2 ^ j + real c * 2 ^ j"
  proof (rule add_mono)
    have "fval F (snd x) * fval F (snd y) \<le> 2 ^ a * 2 ^ b" using x y by (intro mult_le_mono) (simp_all add: bounded_by_def)
    then have *: "real (fval F (snd x) * fval F (snd y)) \<le> 2 ^ (a + b)"
      by (metis of_nat_le_iff of_nat_numeral of_nat_power power_add)
    have "real p * 2 powi kp = real (fval F (snd x) * fval F (snd y)) / 2 ^ funit F"
      by (simp add: p_def kp_def fval_def power_int_diff power_int_add power_add field_simps)
    also have "\<dots> \<le> 2 ^ (a + b) / 2 ^ funit F" using * by (intro divide_right_mono) auto
    also have "\<dots> = 2 ^ j" unfolding j [symmetric] by (simp add: power_add)
    finally show "real p * 2 powi kp \<le> 2 ^ j" .
    have "real (fval F (snd z)) \<le> real (c * 2 ^ j)" using z by (simp only: bounded_by_def of_nat_le_iff)
    then show "real (sig F (snd z)) * 2 powi kz \<le> real c * 2 ^ j" by (simp add: fval_def kz_def)
  qed
  also have "\<dots> = real (c + 1) * 2 ^ j" by (simp add: distrib_right)
  finally have le: "real (nat \<bar>v\<bar>) * 2 powi k \<le> real (c + 1) * 2 ^ j" .
  have "fp_fma F x y z = (if v = 0 then ((fst x \<noteq> fst y) \<and> fst z, 0) else (v < 0, round_mag F (nat \<bar>v\<bar>) k))"
    using fin fin_not_nan [OF fin(1)] fin_not_nan [OF fin(2)] fin_not_nan [OF fin(3)]
    unfolding fp_fma_def Let_def v_def k_def kp_def kz_def p_def by (simp add: is_finm_def)
  then show ?thesis using F le by (simp add: bounded_by_0 bounded_by_round)
qed


section \<open>Loops and reductions\<close>

lemma register_loop_inv:
  assumes "register_loop body n i acc = (i', acc')" "P i acc" "\<And>i acc. P i acc \<Longrightarrow> i + 16 \<le> n \<Longrightarrow> P (i + 16) (body i acc)"
    and "i \<le> n"
  shows "P i' acc' \<and> i' \<le> n"
  using assms(1,2,4)
proof (induction "n - i" arbitrary: i acc rule: less_induct)
  case less
  show ?case
  proof (cases "i + 16 \<le> n")
    case True
    then show ?thesis
      using less.hyps [of "i + 16" "body i acc"] less.prems assms(3) [of i acc] register_loop.simps [of body n i acc] by simp
  next
    case False
    then show ?thesis using less.prems register_loop.simps [of body n i acc] by simp
  qed
qed

lemma register_loop_cong:
  assumes "\<And>i acc. i + 16 \<le> n \<Longrightarrow> body i acc = body' i acc"
  shows "register_loop body n i acc = register_loop body' n i acc"
proof (induction "n - i" arbitrary: i acc rule: less_induct)
  case less
  then show ?case
    using less [of "i + 16" "body i acc"] assms [of i acc] register_loop.simps [of body n i acc] register_loop.simps [of body' n i acc]
    by simp
qed

lemma register_loop_none: "n < 16 \<Longrightarrow> register_loop body n 0 acc = (0, acc)"
  by (simp add: register_loop.simps)

text \<open>What adding keeps, a reduction keeps.\<close>

lemma tree_sum_closed:
  assumes "\<And>x y. P x \<Longrightarrow> P y \<Longrightarrow> P (f64_add x y)" "\<And>j. j \<in> set (tree_lanes t) \<Longrightarrow> P (x ! j)"
  shows "P (tree_sum x t)"
  using assms by (induction t) auto

lemma reduce_closed:
  assumes red: "reduce_adds r" and "\<And>x y. P x \<Longrightarrow> P y \<Longrightarrow> P (f64_add x y)" "length x = 8" "\<forall>y \<in> set x. P y"
  shows "P (r x)"
proof -
  obtain t where t: "mset (tree_lanes t) = mset [0..<8]" "r x = tree_sum x t"
    using red assms(3) unfolding reduce_adds_def by blast
  have "set (tree_lanes t) = {0..<8}" using mset_eq_setD [OF t(1)] by simp
  then have "P (x ! j)" if "j \<in> set (tree_lanes t)" for j using that assms(3,4) by simp
  then show ?thesis using tree_sum_closed [of P t x, OF assms(2)] t(2) by metis
qed

lemma tree_sum_bounded:
  assumes "\<And>j. j \<in> set (tree_lanes t) \<Longrightarrow> bounded_by F64 (dec64 (x ! j)) c e"
    and "length (tree_lanes t) * c < 2 ^ 53" "length (tree_lanes t) * c * 2 ^ e < fval F64 (infm F64)"
  shows "bounded_by F64 (dec64 (tree_sum x t)) (length (tree_lanes t) * c) e"
  using assms
proof (induction t)
  case (Sum l r)
  have n: "length (tree_lanes (Sum l r)) = length (tree_lanes l) + length (tree_lanes r)" by simp
  have small: "m * c < 2 ^ 53" "m * c * 2 ^ e < fval F64 (infm F64)" if "m \<le> length (tree_lanes (Sum l r))" for m
    by (rule le_less_trans [OF mult_le_mono1 [OF that] Sum.prems(2)],
        rule le_less_trans [OF mult_le_mono1 [OF mult_le_mono1 [OF that]] Sum.prems(3)])
  have "bounded_by F64 (dec64 (tree_sum x l)) (length (tree_lanes l) * c) e"
    by (rule Sum.IH(1)) (use Sum.prems(1) small n in auto)
  moreover have "bounded_by F64 (dec64 (tree_sum x r)) (length (tree_lanes r) * c) e"
    by (rule Sum.IH(2)) (use Sum.prems(1) small n in auto)
  ultimately show ?case
    using Sum.prems(2,3) fp_add_bounded [of F64 "dec64 (tree_sum x l)" "length (tree_lanes l) * c" e "dec64 (tree_sum x r)" "length (tree_lanes r) * c"]
    by (simp add: distrib_right)
qed simp

lemma reduce_zeros:
  assumes "reduce_adds r"
  shows "r setzero_pd = f64_zero"
  using reduce_closed [OF assms, of "\<lambda>x. x = f64_zero" setzero_pd] by (simp add: setzero_pd_def)


section \<open>The squared distance\<close>

definition nonneg :: "f64 \<Rightarrow> bool" where
  "nonneg x \<longleftrightarrow> \<not> is_nanm F64 (dec64 x) \<and> \<not> fst (dec64 x)"

lemma nonneg_add: "nonneg x \<Longrightarrow> nonneg y \<Longrightarrow> nonneg (f64_add x y)"
  by (simp add: nonneg_def fp_add_nonneg)

lemma nonneg_zero: "nonneg f64_zero"
  by (simp add: nonneg_def)

lemma loaded_finite:
  assumes "finite_vec a" "i + 16 \<le> n" "n \<le> length a" "j < 16"
  shows "f32_isfinite (loadu_ps a i ! j)"
  using assms by (simp add: loadu_ps_def)

lemma sub_not_nan: "f32_isfinite x \<Longrightarrow> f32_isfinite y \<Longrightarrow> \<not> is_nanm F32 (dec32 (f32_sub x y))"
  by (simp add: f32_isfinite_def fp_add_fin_not_nan)

lemma lanes_nth:
  "j < 8 \<Longrightarrow> cvtps_pd (lower_ps256 (sub_ps x y)) ! j = f64_of_f32 (f32_sub (x ! j) (y ! j))"
  "j < 8 \<Longrightarrow> cvtps_pd (upper_ps256 (sub_ps x y)) ! j = f64_of_f32 (f32_sub (x ! (j + 8)) (y ! (j + 8)))"
  by (simp_all add: cvtps_pd_def lower_ps256_def upper_ps256_def sub_ps_def add.commute)

lemma fmadd_length [simp]: "length (fmadd_pd x y z) = 8"
  by (simp add: fmadd_pd_def)

lemma fmadd_all: "(\<And>j. j < 8 \<Longrightarrow> P (f64_fma (x ! j) (y ! j) (z ! j))) \<Longrightarrow> \<forall>v \<in> set (fmadd_pd x y z). P v"
  by (auto simp: fmadd_pd_def)


lemma l2_step_nonneg:
  assumes "finite_vec a" "finite_vec b" "n \<le> length a" "n \<le> length b" "i + 16 \<le> n"
    and acc: "length (fst acc) = 8" "length (snd acc) = 8" "\<forall>x \<in> set (fst acc) \<union> set (snd acc). nonneg x"
  shows "\<forall>x \<in> set (fst (l2_registers a b i acc)) \<union> set (snd (l2_registers a b i acc)). nonneg x"
proof -
  have diff: "\<not> is_nanm F64 (dec64 (f64_of_f32 (f32_sub (loadu_ps a i ! j) (loadu_ps b i ! j))))" if "j < 16" for j
    using sub_not_nan [OF loaded_finite [OF assms(1,5,3) that] loaded_finite [OF assms(2,5,4) that]] by (simp del: dec_ops(1))
  have fma: "nonneg (f64_fma d d z)" if "\<not> is_nanm F64 (dec64 d)" "nonneg z" for d z
    using fp_fma_self [of F64 "dec64 d" "dec64 z"] that by (simp add: nonneg_def)
  have z: "nonneg (fst acc ! j)" "nonneg (snd acc ! j)" if "j < 8" for j using acc that by (metis UnI1 UnI2 nth_mem)+
  have "\<forall>x \<in> set (fst (l2_registers a b i acc)). nonneg x" "\<forall>x \<in> set (snd (l2_registers a b i acc)). nonneg x"
    unfolding l2_registers_def Let_def fst_conv snd_conv
    by (rule fmadd_all, rule fma, simp only: lanes_nth, rule diff, simp, rule z, assumption)+
  then show ?thesis by blast
qed

lemma avx512_l2_nonneg:
  assumes red: "reduce_adds r" and ab: "n \<le> length a" "n \<le> length b" "finite_vec a" "finite_vec b"
  shows "\<not> f32_isnan (avx512_l2_squared r a b n) \<and> \<not> fst (dec32 (avx512_l2_squared r a b n))"
proof -
  obtain i lo hi where run: "register_loop (l2_registers a b) n 0 (setzero_pd, setzero_pd) = (i, lo, hi)" by (metis prod_cases3)
  let ?P = "\<lambda>i acc. length (fst acc) = 8 \<and> length (snd acc) = 8 \<and> (\<forall>x \<in> set (fst acc) \<union> set (snd acc). nonneg x)"
  have "?P i (lo, hi) \<and> i \<le> n"
  proof (rule register_loop_inv [where P = ?P, OF run])
    show "?P 0 (setzero_pd, setzero_pd)" by (simp add: setzero_pd_def nonneg_zero)
    fix i acc assume "?P i acc" "i + 16 \<le> n"
    then show "?P (i + 16) (l2_registers a b i acc)"
      using l2_step_nonneg [OF ab(3,4,1,2), of i acc] by (simp add: l2_registers_def Let_def)
  qed simp
  then have "nonneg (r lo)" "nonneg (r hi)"
    using reduce_closed [of r nonneg lo, OF red nonneg_add] reduce_closed [of r nonneg hi, OF red nonneg_add] by simp_all
  then have "nonneg (f64_add (r lo) (r hi))" by (rule nonneg_add)
  then have "nonneg (foldl (\<lambda>sum i. f64_add sum (l2_term (a ! i) (b ! i))) (f64_add (r lo) (r hi)) [i..<i + k])" if "i + k \<le> n" for k
    using that
  proof (induction k)
    case (Suc k)
    have "nonneg (l2_term (a ! (i + k)) (b ! (i + k)))" using Suc.prems ab unfolding nonneg_def by (intro l2_term_nonneg) simp_all
    then show ?case using Suc by (simp add: nonneg_add)
  qed simp
  from this [of "n - i"] \<open>?P i (lo, hi) \<and> i \<le> n\<close> show ?thesis
    by (simp add: avx512_l2_squared_def run f32_isnan_def fst_fp_convert nonneg_def)
qed


text \<open>Symmetry and identity: what an argument swap changes is the sign of a difference, which is squared.\<close>

lemma sub_swap_snd:
  assumes "f32_isfinite x" "f32_isfinite y"
  shows "snd (dec64 (f64_of_f32 (f32_sub x y))) = snd (dec64 (f64_of_f32 (f32_sub y x)))"
proof -
  have convert: "snd (fp_convert F32 F64 p) = snd (fp_convert F32 F64 q)" if "snd p = snd q" for p q
    using that by (simp add: fp_convert_def is_nanm_def)
  show ?thesis
    unfolding dec_ops using assms by (intro convert snd_fp_sub_swap) (simp_all add: f32_isfinite_def)
qed

lemma avx512_l2_swap:
  assumes ab: "n \<le> length a" "n \<le> length b" "finite_vec a" "finite_vec b"
  shows "avx512_l2_squared r a b n = avx512_l2_squared r b a n"
proof -
  have fma: "f64_fma d d z = f64_fma d' d' z" if "snd (dec64 d) = snd (dec64 d')" for d d' z
    using fp_fma_self_snd [OF that, of F64 "dec64 z"] by (simp add: f64_fma_def)
  have swap: "snd (dec64 (f64_of_f32 (f32_sub (loadu_ps a i ! j) (loadu_ps b i ! j)))) = snd (dec64 (f64_of_f32 (f32_sub (loadu_ps b i ! j) (loadu_ps a i ! j))))"
    if "i + 16 \<le> n" "j < 16" for i j
    using that ab by (intro sub_swap_snd loaded_finite)
  have "l2_registers a b i acc = l2_registers b a i acc" if "i + 16 \<le> n" for i acc
    unfolding l2_registers_def Let_def fmadd_pd_def
    by (intro arg_cong2 [of _ _ _ _ Pair] map_cong refl fma; simp only: lanes_nth atLeastLessThan_upt [symmetric] set_upt atLeastLessThan_iff)
      (rule swap [OF that], simp)+
  then have "register_loop (l2_registers a b) n 0 acc = register_loop (l2_registers b a) n 0 acc" for acc
    by (rule register_loop_cong)
  moreover have "foldl (\<lambda>sum i. f64_add sum (l2_term (a ! i) (b ! i))) s [i..<n] = foldl (\<lambda>sum i. f64_add sum (l2_term (b ! i) (a ! i))) s [i..<n]" for s i
    using ab by (intro foldl_cong refl arg_cong2 [of _ _ _ _ f64_add] l2_term_swap) auto
  ultimately show ?thesis by (simp add: avx512_l2_squared_def)
qed

lemma fma_zero: "f64_fma d d f64_zero = f64_zero" if "dec64 d = (False, 0)"
proof -
  have "dec64 (f64_fma d d f64_zero) = (False, 0)"
    using that by (simp add: fp_fma_def is_nanm_def sig_def Let_def)
  then show ?thesis by (metis dec64_zero enc_dec64)
qed

lemma sub_self_zero:
  assumes "f32_isfinite x"
  shows "dec64 (f64_of_f32 (f32_sub x x)) = (False, 0)"
proof -
  have "dec32 (f32_sub x x) = (False, 0)" using assms by (simp add: f32_isfinite_def fp_sub_self)
  then show ?thesis by (simp add: fp_convert_def is_nanm_def sig_def)
qed

lemma avx512_l2_self:
  assumes red: "reduce_adds r" and a: "finite_vec a"
  shows "avx512_l2_squared r a a (length a) = f32_zero"
proof -
  obtain i lo hi where run: "register_loop (l2_registers a a) (length a) 0 (setzero_pd, setzero_pd) = (i, lo, hi)" by (metis prod_cases3)
  have "(lo, hi) = (setzero_pd, setzero_pd) \<and> i \<le> length a"
  proof (rule register_loop_inv [where P = "\<lambda>_ acc. acc = (setzero_pd, setzero_pd)", OF run])
    fix i and acc :: "m512d \<times> m512d" assume acc: "acc = (setzero_pd, setzero_pd)" and i: "i + 16 \<le> length a"
    have d: "dec64 (f64_of_f32 (f32_sub (loadu_ps a i ! j) (loadu_ps a i ! j))) = (False, 0)" if "j < 16" for j
      by (rule sub_self_zero, rule loaded_finite [OF a i order.refl that])
    have z: "map (\<lambda>j. f64_fma (v ! j) (v ! j) (setzero_pd ! j)) [0..<8] = setzero_pd" if "\<And>j. j < 8 \<Longrightarrow> dec64 (v ! j) = (False, 0)" for v
      using that by (intro nth_equalityI) (simp_all add: setzero_pd_def fma_zero)
    show "l2_registers a a i acc = (setzero_pd, setzero_pd)"
      unfolding l2_registers_def Let_def fmadd_pd_def acc fst_conv snd_conv
      by (intro arg_cong2 [of _ _ _ _ Pair] z; simp only: lanes_nth) (rule d, simp)+
  qed simp_all
  then have "lo = setzero_pd" "hi = setzero_pd" "i \<le> length a" by simp_all
  moreover have "foldl (\<lambda>sum i. f64_add sum (l2_term (a ! i) (a ! i))) f64_zero [i..<i + k] = f64_zero" if "i + k \<le> length a" for k
    using that by (induction k) (simp_all add: a l2_term_self)
  from this [of "length a - i"] calculation(3)
  have "foldl (\<lambda>sum i. f64_add sum (l2_term (a ! i) (a ! i))) f64_zero [i..<length a] = f64_zero" by simp
  ultimately show ?thesis by (simp add: avx512_l2_squared_def run reduce_zeros [OF red])
qed



section \<open>The dot product\<close>

abbreviation small64 :: "nat \<Rightarrow> f64 \<Rightarrow> bool" where
  "small64 c x \<equiv> bounded_by F64 (dec64 x) c 1330"

lemma small_mono: "small64 c x \<Longrightarrow> c \<le> d \<Longrightarrow> small64 d x"
  unfolding bounded_by_def using mult_le_mono1 [of c d "2 ^ 1330"] by (meson order.trans)

lemma room64:
  assumes "c < 2 ^ 22"
  shows "c < 2 ^ 53" "c * 2 ^ 1330 < fval F64 (infm F64)"
proof -
  have "c * 2 ^ 1330 \<le> 2 ^ 22 * 2 ^ 1330" using assms by (intro mult_le_mono1) simp
  also have "\<dots> < fval F64 (infm F64)" by (simp only: fval_inf) (simp flip: power_add)
  finally show "c * 2 ^ 1330 < fval F64 (infm F64)" .
  show "c < 2 ^ 53" using assms by simp
qed

lemma add_small: "small64 c x \<Longrightarrow> small64 d y \<Longrightarrow> c + d < 2 ^ 22 \<Longrightarrow> small64 (c + d) (f64_add x y)"
  using fp_add_bounded [of F64 "dec64 x" c 1330 "dec64 y" d] room64 [of "c + d"] by simp

lemma fma_small:
  assumes "f32_isfinite x" "f32_isfinite y" "small64 c z" "c + 1 < 2 ^ 22"
  shows "small64 (c + 1) (f64_fma (f64_of_f32 x) (f64_of_f32 y) z)"
  using fp_fma_bounded [of F64 _ 1202 _ 1202 "dec64 z" c 1330, OF f32_finite_bounded [OF assms(1)] f32_finite_bounded [OF assms(2)] assms(3)]
    room64 [OF assms(4)] by (simp del: dec_ops(10))

lemma reduce_small:
  assumes red: "reduce_adds r" and x: "length x = 8" "\<forall>y \<in> set x. small64 c y" "8 * c < 2 ^ 22"
  shows "small64 (8 * c) (r x)"
proof -
  obtain t where t: "mset (tree_lanes t) = mset [0..<8]" "r x = tree_sum x t"
    using red x(1) unfolding reduce_adds_def by blast
  have "set (tree_lanes t) = {0..<8}" "length (tree_lanes t) = 8"
    using mset_eq_setD [OF t(1)] mset_eq_length [OF t(1)] by simp_all
  then show ?thesis
    unfolding t(2) using tree_sum_bounded [of t x c 1330] x room64 [OF x(3)] by simp
qed

lemma dot_lanes_nth:
  "j < 8 \<Longrightarrow> cvtps_pd (lower_ps256 (loadu_ps a i)) ! j = f64_of_f32 (loadu_ps a i ! j)"
  "j < 8 \<Longrightarrow> cvtps_pd (upper_ps256 (loadu_ps a i)) ! j = f64_of_f32 (loadu_ps a i ! (j + 8))"
  by (simp_all add: cvtps_pd_def lower_ps256_def upper_ps256_def loadu_ps_def add.commute)

lemma dot_step_small:
  assumes ab: "finite_vec a" "finite_vec b" "n \<le> length a" "n \<le> length b" "i + 16 \<le> n" and n: "n \<le> 65536"
    and acc: "length (fst acc) = 8" "length (snd acc) = 8" "\<forall>x \<in> set (fst acc) \<union> set (snd acc). small64 i x"
  shows "\<forall>x \<in> set (fst (dot_registers a b i acc)) \<union> set (snd (dot_registers a b i acc)). small64 (i + 16) x"
proof -
  have fma: "small64 (i + 16) (f64_fma (f64_of_f32 (loadu_ps a i ! j)) (f64_of_f32 (loadu_ps b i ! j)) z)" if "j < 16" "small64 i z" for j z
    by (rule small_mono [OF fma_small [OF loaded_finite [OF ab(1,5,3) that(1)] loaded_finite [OF ab(2,5,4) that(1)] that(2)]])
      (use n ab(5) in simp_all)
  have z: "small64 i (fst acc ! j)" "small64 i (snd acc ! j)" if "j < 8" for j using acc that by (metis UnI1 UnI2 nth_mem)+
  have "\<forall>x \<in> set (fst (dot_registers a b i acc)). small64 (i + 16) x" "\<forall>x \<in> set (snd (dot_registers a b i acc)). small64 (i + 16) x"
    unfolding dot_registers_def Let_def fst_conv snd_conv
    by (rule fmadd_all, simp only: dot_lanes_nth, rule fma, simp, rule z, assumption)+
  then show ?thesis by blast
qed

lemma avx512_dot_not_nan:
  assumes red: "reduce_adds r" and ab: "n \<le> length a" "n \<le> length b" "finite_vec a" "finite_vec b" and n: "n \<le> 65536"
  shows "\<not> f32_isnan (avx512_dot r a b n)"
proof -
  obtain i lo hi where run: "register_loop (dot_registers a b) n 0 (setzero_pd, setzero_pd) = (i, lo, hi)" by (metis prod_cases3)
  let ?P = "\<lambda>i acc. length (fst acc) = 8 \<and> length (snd acc) = 8 \<and> (\<forall>x \<in> set (fst acc) \<union> set (snd acc). small64 i x)"
  have P: "?P i (lo, hi) \<and> i \<le> n"
  proof (rule register_loop_inv [where P = ?P, OF run])
    show "?P 0 (setzero_pd, setzero_pd)" by (simp add: setzero_pd_def bounded_by_0)
    fix i acc assume "?P i acc" "i + 16 \<le> n"
    then show "?P (i + 16) (dot_registers a b i acc)"
      using dot_step_small [OF ab(3,4,1,2) _ n, of i acc] by (simp add: dot_registers_def Let_def)
  qed simp
  have total: "small64 (8 * i + 8 * i) (f64_add (r lo) (r hi))"
    using P n by (intro add_small reduce_small [OF red]) simp_all
  have tail: "small64 (8 * i + 8 * i + k) (foldl (\<lambda>sum i. f64_add sum (dot_term (a ! i) (b ! i))) (f64_add (r lo) (r hi)) [i..<i + k])"
    if "i + k \<le> n" for k
    using that
  proof (induction k)
    case 0
    then show ?case using total by simp
  next
    case (Suc k)
    have "small64 1 (dot_term (a ! (i + k)) (b ! (i + k)))" using Suc.prems ab by (intro dot_term_bounded) simp_all
    then show ?case
      using Suc add_small [where c = "8 * i + 8 * i + k" and d = 1] n by simp
  qed
  show ?thesis
    using tail [of "n - i"] P by (simp add: avx512_dot_def run f32_isnan_def bounded_by_def fin_not_nan)
qed



section \<open>The calculator\<close>

text \<open>Below one register the kernels are the scalar ones, bit for bit.\<close>

lemma avx512_short:
  assumes "reduce_adds r" "n < 16"
  shows "avx512_l2_squared r a b n = scalar_l2_squared a b n" "avx512_dot r a b n = scalar_dot a b n"
  by (simp_all add: avx512_l2_squared_def avx512_dot_def scalar_l2_squared_def scalar_dot_def
      register_loop_none [OF assms(2)] reduce_zeros [OF assms(1)])

lemma nan_free_host:
  assumes "h_calculator h = host_calculator avx512 r" "reduce_adds r" "metric = Euclidean \<or> metric = DotProduct" "n \<le> 65536"
  shows "nan_free h metric n"
proof (cases avx512)
  case False
  then show ?thesis using assms by (intro nan_free_scalar) (simp_all add: create_scalar)
next
  case True
  then show ?thesis
    using assms avx512_dot_not_nan [OF assms(2)] avx512_l2_nonneg [OF assms(2)]
    by (auto simp: nan_free_def distance_or_inf_def distance_def create_def f32_isnan_def fp_sqrt_nonneg)
qed

text \<open>
  C24: the laws of the calculator, with the scalar kernels or the AVX-512 ones, whatever the order
  in which a register's lanes are added.  On finite vectors of equal length the Euclidean distance is
  a non-negative number (possibly infinite, never NaN) that does not depend on the order of its
  arguments, and the distance of a vector to itself is exactly zero; the dot product of at most 65536
  components is never NaN; below 16 components every metric is bit for bit that of the scalar path.
\<close>

theorem distance_laws:
  assumes "reduce_adds reduce_add_pd" "c = host_calculator avx512 reduce_add_pd"
    and "length a = length b" "finite_vec a" "finite_vec b"
  shows "(\<exists>d. distance c Euclidean a b = Inr d \<and> \<not> f32_isnan d \<and> f32_le f32_zero d \<and> distance c Euclidean b a = Inr d)
    \<and> distance c Euclidean a a = Inr f32_zero
    \<and> (length a \<le> 65536 \<longrightarrow> (\<exists>d. distance c DotProduct a b = Inr d \<and> \<not> f32_isnan d))
    \<and> (length a < 16 \<longrightarrow> distance c metric a b = distance scalar_calculator metric a b)"
proof -
  let ?k = "if avx512 then avx512_l2_squared reduce_add_pd else scalar_l2_squared"
  let ?dot = "if avx512 then avx512_dot reduce_add_pd else scalar_dot"
  have c: "dc_l2_squared c = ?k" "dc_dot c = ?dot" by (simp_all add: assms(2) create_def)
  have k: "\<not> f32_isnan (?k a b (length a))" "\<not> fst (dec32 (?k a b (length a)))" "?k a b (length a) = ?k b a (length a)"
    "?k a a (length a) = f32_zero" "length a \<le> 65536 \<Longrightarrow> \<not> f32_isnan (?dot a b (length a))"
    using avx512_l2_nonneg [OF assms(1), of "length a" a b] avx512_l2_swap [of "length a" a b] avx512_l2_self [OF assms(1), of a]
      scalar_l2_squared_nonneg [of "length a" a b] scalar_l2_squared_swap [of "length a" a b] scalar_l2_squared_self [of a]
      avx512_dot_not_nan [OF assms(1), of "length a" a b] scalar_dot_not_nan [of "length a" a b] assms(3,4,5)
    by simp_all
  have d: "\<not> f32_isnan (f32_sqrt (?k a b (length a))) \<and> \<not> fst (dec32 (f32_sqrt (?k a b (length a))))"
    unfolding f32_isnan_def dec_ops by (rule fp_sqrt_nonneg) (use k(1,2) in \<open>simp_all only: f32_isnan_def not_False_eq_True\<close>)
  then have "\<not> f32_isnan (f32_sqrt (?k a b (length a)))" "\<not> fst (dec32 (f32_sqrt (?k a b (length a))))" by blast+
  then have "f32_le f32_zero (f32_sqrt (?k a b (length a)))"
    by (simp only: f32_le_iff f32_consts_not_nan not_False_eq_True) (simp add: fkey_def)
  moreover have "distance c Euclidean a b = Inr (f32_sqrt (?k a b (length a)))" "distance c Euclidean b a = Inr (f32_sqrt (?k a b (length a)))"
    using assms(3) k(3) by (simp_all only: distance_def distance_metric.case c Let_def simp_thms if_False)
  moreover have "distance c Euclidean a a = Inr f32_zero" using k(4) by (simp add: distance_def c)
  moreover have "distance c DotProduct a b = Inr (?dot a b (length a))" using assms(3) by (simp add: distance_def c)
  moreover have "distance c metric a b = distance scalar_calculator metric a b" if "length a < 16"
  proof -
    have "?k u w (length a) = scalar_l2_squared u w (length a)" "?dot u w (length a) = scalar_dot u w (length a)" for u w
      using avx512_short [OF assms(1) that] by simp_all
    then show ?thesis by (cases metric) (simp_all only: distance_def Let_def distance_metric.case c scalar_calculator_sel)
  qed
  ultimately show ?thesis using k(5) d by blast
qed

text \<open>The lanes added in halves, as compilers do, over seventeen components: one register and a tail.\<close>

theorem distance_laws_witness:
  "\<exists>d. distance (host_calculator True (\<lambda>x. tree_sum x (Sum (Sum (Sum (Lane 0) (Lane 4)) (Sum (Lane 2) (Lane 6))) (Sum (Sum (Lane 1) (Lane 5)) (Sum (Lane 3) (Lane 7))))))
        Euclidean (replicate 17 f32_one) (replicate 17 f32_two) = Inr d \<and> \<not> f32_isnan d \<and> f32_le f32_zero d"
proof -
  let ?t = "Sum (Sum (Sum (Lane 0) (Lane 4)) (Sum (Lane 2) (Lane 6))) (Sum (Sum (Lane 1) (Lane 5)) (Sum (Lane 3) (Lane 7)))"
  have "mset (tree_lanes ?t) = mset [0..<8]" by (simp add: upt_rec numeral_eq_Suc)
  then have red: "reduce_adds (\<lambda>x. tree_sum x ?t)" unfolding reduce_adds_def by blast
  have "finite_vec (replicate 17 f32_one)" "finite_vec (replicate 17 f32_two)" by (simp_all add: fl_eval cong: let_weak_cong)
  from distance_laws [OF red refl _ this, of True] show ?thesis by auto
qed

end
