(* ===== verification/Bytes.thy ===== *)
theory Bytes
  imports Types
begin

text \<open>
  The byte-level part of \<open>snapshot_format.hpp\<close>: \<open>ByteWriter\<close> (an append-only byte list) and
  \<open>ByteReader\<close> (a cursor with a sticky failure flag), little-endian.  Positions are \<open>std::size_t\<close>
  values; the overflow guard of \<open>ensure\<close> is written out modulo \<open>2 ^ 64\<close>.  The locale \<open>codec\<close> is
  what the snapshot encoders and decoders rely on: reading back what was written.
\<close>

section \<open>ByteWriter\<close>

type_synonym byte_writer = "u8 list"

definition put_u8 :: "byte_writer \<Rightarrow> u8 \<Rightarrow> byte_writer" where
  "put_u8 w v = w @ [v]"

definition put_u32 :: "byte_writer \<Rightarrow> u32 \<Rightarrow> byte_writer" where
  "put_u32 w v = foldl (\<lambda>w i. put_u8 w (ucast (drop_bit (8 * i) v))) w [0, 1, 2, 3]"

definition put_u64 :: "byte_writer \<Rightarrow> u64 \<Rightarrow> byte_writer" where
  "put_u64 w v = foldl (\<lambda>w i. put_u8 w (ucast (drop_bit (8 * i) v))) w [0, 1, 2, 3, 4, 5, 6, 7]"

text \<open>Signed integers and floating-point values are written as their bit patterns.\<close>

definition put_i64 :: "byte_writer \<Rightarrow> u64 \<Rightarrow> byte_writer" where "put_i64 = put_u64"
definition put_f32 :: "byte_writer \<Rightarrow> f32 \<Rightarrow> byte_writer" where "put_f32 = put_u32"
definition put_f64 :: "byte_writer \<Rightarrow> f64 \<Rightarrow> byte_writer" where "put_f64 = put_u64"

definition put_raw :: "byte_writer \<Rightarrow> u8 list \<Rightarrow> byte_writer" where
  "put_raw w bs = w @ bs"

definition string_bytes :: "string \<Rightarrow> u8 list" where
  "string_bytes s = map (\<lambda>c. word_of_nat (of_char c)) s"

definition bytes_string :: "u8 list \<Rightarrow> string" where
  "bytes_string bs = map (\<lambda>b. char_of (unat b)) bs"

definition put_string :: "byte_writer \<Rightarrow> string \<Rightarrow> byte_writer" where
  "put_string w s = put_raw (put_u32 w (word_of_nat (length s))) (string_bytes s)"

text \<open>The zero bytes that bring \<open>n\<close> written bytes to a multiple of the alignment.\<close>

definition pad_length :: "nat \<Rightarrow> nat \<Rightarrow> nat" where
  "pad_length alignment n = (alignment - n mod alignment) mod alignment"

definition pad_to_alignment :: "byte_writer \<Rightarrow> nat \<Rightarrow> byte_writer" where
  "pad_to_alignment w alignment =
     (if alignment = 0 then w else w @ replicate (pad_length alignment (length w)) 0)"


section \<open>ByteReader\<close>

record byte_reader =
  rd_bytes :: "u8 list"
  rd_pos :: nat
  rd_ok :: bool

definition new_reader :: "u8 list \<Rightarrow> byte_reader" where
  "new_reader bs = \<lparr>rd_bytes = bs, rd_pos = 0, rd_ok = True\<rparr>"

definition remaining :: "byte_reader \<Rightarrow> nat" where
  "remaining r = (if rd_pos r \<le> length (rd_bytes r) then length (rd_bytes r) - rd_pos r else 0)"

definition ensure :: "byte_reader \<Rightarrow> nat \<Rightarrow> bool \<times> byte_reader" where
  "ensure r need =
     (if \<not> rd_ok r then (False, r)
      else if length (rd_bytes r) < (rd_pos r + need) mod 2 ^ 64 \<or> (rd_pos r + need) mod 2 ^ 64 < rd_pos r
           then (False, r\<lparr>rd_ok := False\<rparr>)
      else (True, r))"

text \<open>The next \<open>n\<close> bytes, and the cursor moved past them.\<close>

definition peek :: "byte_reader \<Rightarrow> nat \<Rightarrow> u8 list" where
  "peek r n = take n (drop (rd_pos r) (rd_bytes r))"

definition advance :: "byte_reader \<Rightarrow> nat \<Rightarrow> byte_reader" where
  "advance r n = r\<lparr>rd_pos := rd_pos r + n\<rparr>"

definition get_u8 :: "byte_reader \<Rightarrow> u8 \<times> byte_reader" where
  "get_u8 r = (case ensure r 1 of
      (False, r') \<Rightarrow> (0, r')
    | (True, r') \<Rightarrow> (rd_bytes r' ! rd_pos r', advance r' 1))"

text \<open>The loops that assemble an integer from its bytes, low byte first.\<close>

definition from_le32 :: "(nat \<Rightarrow> u8) \<Rightarrow> u32" where
  "from_le32 f = foldl (\<lambda>v i. v OR push_bit (8 * i) (ucast (f i))) 0 [0, 1, 2, 3]"

definition from_le64 :: "(nat \<Rightarrow> u8) \<Rightarrow> u64" where
  "from_le64 f = foldl (\<lambda>v i. v OR push_bit (8 * i) (ucast (f i))) 0 [0, 1, 2, 3, 4, 5, 6, 7]"

definition get_u32 :: "byte_reader \<Rightarrow> u32 \<times> byte_reader" where
  "get_u32 r = (case ensure r 4 of
      (False, r') \<Rightarrow> (0, r')
    | (True, r') \<Rightarrow>
        (from_le32 (\<lambda>i. rd_bytes r' ! (rd_pos r' + i)), advance r' 4))"

definition get_u64 :: "byte_reader \<Rightarrow> u64 \<times> byte_reader" where
  "get_u64 r = (case ensure r 8 of
      (False, r') \<Rightarrow> (0, r')
    | (True, r') \<Rightarrow>
        (from_le64 (\<lambda>i. rd_bytes r' ! (rd_pos r' + i)), advance r' 8))"

definition get_i64 :: "byte_reader \<Rightarrow> u64 \<times> byte_reader" where "get_i64 = get_u64"
definition get_f32 :: "byte_reader \<Rightarrow> f32 \<times> byte_reader" where "get_f32 = get_u32"
definition get_f64 :: "byte_reader \<Rightarrow> f64 \<times> byte_reader" where "get_f64 = get_u64"

text \<open>\<open>get_raw\<close>: the bytes read, or nothing on overrun.\<close>

definition get_raw :: "byte_reader \<Rightarrow> nat \<Rightarrow> u8 list option \<times> byte_reader" where
  "get_raw r len = (case ensure r len of
      (False, r') \<Rightarrow> (None, r')
    | (True, r') \<Rightarrow> (Some (peek r' len), advance r' len))"

definition get_string :: "byte_reader \<Rightarrow> string \<times> byte_reader" where
  "get_string r =
     (let (len, r1) = get_u32 r in
      case ensure r1 (unat len) of
        (False, r') \<Rightarrow> ([], r')
      | (True, r') \<Rightarrow> (bytes_string (peek r' (unat len)), advance r' (unat len)))"

definition skip_bytes :: "byte_reader \<Rightarrow> nat \<Rightarrow> bool \<times> byte_reader" where
  "skip_bytes r len = (case ensure r len of
      (False, r') \<Rightarrow> (False, r')
    | (True, r') \<Rightarrow> (True, advance r' len))"

text \<open>\<open>sub\<close>: a reader over the next bytes, and the parent past them.\<close>

definition sub_reader :: "byte_reader \<Rightarrow> nat \<Rightarrow> byte_reader \<times> byte_reader" where
  "sub_reader r len = (case ensure r len of
      (False, r') \<Rightarrow> (new_reader [], r')
    | (True, r') \<Rightarrow> (new_reader (peek r' len), advance r' len))"


section \<open>Writing\<close>

definition le_bytes32 :: "u32 \<Rightarrow> u8 list" where
  "le_bytes32 v = map (\<lambda>i. ucast (drop_bit (8 * i) v)) [0, 1, 2, 3]"

definition le_bytes64 :: "u64 \<Rightarrow> u8 list" where
  "le_bytes64 v = map (\<lambda>i. ucast (drop_bit (8 * i) v)) [0, 1, 2, 3, 4, 5, 6, 7]"

definition str_bytes :: "string \<Rightarrow> u8 list" where
  "str_bytes s = le_bytes32 (word_of_nat (length s)) @ string_bytes s"

text \<open>Every writer operation appends a block of bytes.\<close>

lemma put_appends:
  "put_u8 w b = w @ [b]" "put_u32 w v = w @ le_bytes32 v" "put_u64 w v8 = w @ le_bytes64 v8"
  "put_i64 w v8 = w @ le_bytes64 v8" "put_f32 w v = w @ le_bytes32 v" "put_f64 w v8 = w @ le_bytes64 v8"
  "put_raw w bs = w @ bs" "put_string w s = w @ str_bytes s"
  by (simp_all add: put_u8_def put_u32_def put_u64_def put_i64_def put_f32_def put_f64_def put_raw_def
      put_string_def le_bytes32_def le_bytes64_def str_bytes_def)

lemma length_le_bytes [simp]: "length (le_bytes32 v) = 4" "length (le_bytes64 v8) = 8"
  by (simp_all add: le_bytes32_def le_bytes64_def)

lemma length_string_bytes [simp]: "length (string_bytes s) = length s"
  by (simp add: string_bytes_def)

lemma length_str_bytes [simp]: "length (str_bytes s) = 4 + length s"
  by (simp add: str_bytes_def)

lemma char_byte_char: "char_of (unat (word_of_nat (of_char c) :: u8)) = c"
  by (simp add: unat_of_nat of_char_mod_256)

lemma bytes_string_inverse [simp]: "bytes_string (string_bytes s) = s"
  by (simp add: bytes_string_def string_bytes_def o_def char_byte_char)

lemma pad_length_aligns: "0 < a \<Longrightarrow> (n + pad_length a n) mod a = 0"
proof -
  assume a: "0 < a"
  have "n + (a - n mod a) = (n div a + 1) * a"
    using mod_less_divisor [OF a, of n] div_mult_mod_eq [of n a] unfolding distrib_right by linarith
  then show ?thesis unfolding pad_length_def
    by (metis mod_add_right_eq mod_mult_self2_is_0)
qed

lemma pad_length_less: "0 < a \<Longrightarrow> pad_length a n < a"
  by (simp add: pad_length_def)


section \<open>Reading\<close>

definition reader_inv :: "byte_reader \<Rightarrow> bool" where
  "reader_inv r \<longleftrightarrow> rd_pos r \<le> length (rd_bytes r) \<and> length (rd_bytes r) < 2 ^ 64"

definition ahead :: "byte_reader \<Rightarrow> u8 list" where
  "ahead r = drop (rd_pos r) (rd_bytes r)"

text \<open>A reader in good standing with the given bytes ahead of it.\<close>

definition reads :: "byte_reader \<Rightarrow> u8 list \<Rightarrow> bool" where
  "reads r bs \<longleftrightarrow> reader_inv r \<and> rd_ok r \<and> ahead r = bs"

lemma length_ahead: "reader_inv r \<Longrightarrow> length (ahead r) = remaining r"
  by (simp add: ahead_def remaining_def reader_inv_def)

text \<open>The guard of \<open>ensure\<close>: the wrap-around test makes the modular comparison exact.\<close>

lemma ensure_iff:
  assumes "reader_inv r" "need < 2 ^ 64"
  shows "ensure r need =
    (if rd_ok r \<and> need \<le> remaining r then (True, r) else (False, r\<lparr>rd_ok := False\<rparr>))"
proof (cases "rd_ok r")
  case True
  have p: "rd_pos r \<le> length (rd_bytes r)" "length (rd_bytes r) < 2 ^ 64"
    using assms(1) by (simp_all add: reader_inv_def)
  show ?thesis
  proof (cases "rd_pos r + need < 2 ^ 64")
    case True
    then have "(rd_pos r + need) mod 2 ^ 64 = rd_pos r + need" by simp
    then show ?thesis using \<open>rd_ok r\<close> p by (auto simp: ensure_def remaining_def)
  next
    case False
    then have "(rd_pos r + need) mod 2 ^ 64 = rd_pos r + need - 2 ^ 64"
      using p assms(2) by (simp add: le_mod_geq)
    then have "(rd_pos r + need) mod 2 ^ 64 < rd_pos r" using assms(2) False by linarith
    moreover have "\<not> need \<le> remaining r" using False p by (simp add: remaining_def)
    ultimately show ?thesis using \<open>rd_ok r\<close> by (simp add: ensure_def)
  qed
next
  case False
  then have "r\<lparr>rd_ok := False\<rparr> = r" by simp
  with False show ?thesis by (simp add: ensure_def)
qed

lemma reads_ensure:
  "reads r (bs @ rest) \<Longrightarrow> ensure r (length bs) = (True, r)"
proof -
  assume r: "reads r (bs @ rest)"
  then have "length (bs @ rest) = remaining r" by (metis length_ahead reads_def)
  moreover have "remaining r < 2 ^ 64" using r by (auto simp: reads_def reader_inv_def remaining_def)
  ultimately have "length bs \<le> remaining r" "length bs < 2 ^ 64" by simp_all
  then show ?thesis using r by (simp add: ensure_iff reads_def)
qed

lemma reads_advance:
  "reads r (bs @ rest) \<Longrightarrow> reads (advance r (length bs)) rest"
proof -
  assume r: "reads r (bs @ rest)"
  then have "length (bs @ rest) = remaining r" by (metis length_ahead reads_def)
  moreover have p: "rd_pos r \<le> length (rd_bytes r)" using r by (simp add: reads_def reader_inv_def)
  ultimately have "rd_pos r + length bs \<le> length (rd_bytes r)"
    by (simp add: remaining_def)
  moreover have "drop (rd_pos r + length bs) (rd_bytes r) = rest"
  proof -
    have "drop (rd_pos r + length bs) (rd_bytes r) = drop (length bs) (drop (rd_pos r) (rd_bytes r))"
      by (simp add: add.commute)
    also have "\<dots> = rest" using r by (simp add: reads_def ahead_def)
    finally show ?thesis .
  qed
  ultimately show ?thesis using r by (simp add: reads_def advance_def reader_inv_def ahead_def)
qed

lemma reads_peek: "reads r (bs @ rest) \<Longrightarrow> peek r (length bs) = bs"
  by (simp add: reads_def peek_def ahead_def)

lemma reads_nth: "reads r bs \<Longrightarrow> i < length bs \<Longrightarrow> rd_bytes r ! (rd_pos r + i) = bs ! i"
  by (auto simp: reads_def ahead_def reader_inv_def)

lemma reads_new: "length bs < 2 ^ 64 \<Longrightarrow> reads (new_reader bs) bs"
  by (simp add: reads_def new_reader_def reader_inv_def ahead_def)

lemma reads_remaining: "reads r bs \<Longrightarrow> remaining r = length bs"
  by (metis length_ahead reads_def)

lemma reads_ok: "reads r bs \<Longrightarrow> rd_ok r"
  by (simp add: reads_def)


section \<open>Little-endian round trips\<close>

lemma le32: "from_le32 (\<lambda>i. le_bytes32 x ! i) = x"
proof (rule bit_word_eqI)
  fix n assume n: "n < LENGTH(32)"
  consider "n < 8" | "8 \<le> n \<and> n < 16" | "16 \<le> n \<and> n < 24" | "24 \<le> n" by linarith
  then show "bit (from_le32 (\<lambda>i. le_bytes32 x ! i)) n = bit x n"
    using n by cases (auto simp: from_le32_def le_bytes32_def bit_simps)
qed

lemma le64: "from_le64 (\<lambda>i. le_bytes64 x ! i) = x"
proof (rule bit_word_eqI)
  fix n assume n: "n < LENGTH(64)"
  consider "n < 8" | "8 \<le> n \<and> n < 16" | "16 \<le> n \<and> n < 24" | "24 \<le> n \<and> n < 32"
    | "32 \<le> n \<and> n < 40" | "40 \<le> n \<and> n < 48" | "48 \<le> n \<and> n < 56" | "56 \<le> n" by linarith
  then show "bit (from_le64 (\<lambda>i. le_bytes64 x ! i)) n = bit x n"
    using n by cases (auto simp: from_le64_def le_bytes64_def bit_simps)
qed

lemma from_le_cong:
  "(\<And>i. i < 4 \<Longrightarrow> f i = g i) \<Longrightarrow> from_le32 f = from_le32 g"
  "(\<And>i. i < 8 \<Longrightarrow> f i = g i) \<Longrightarrow> from_le64 f = from_le64 g"
  by (simp_all add: from_le32_def from_le64_def)

lemma get_u8_reads: "reads r ([b] @ rest) \<Longrightarrow> get_u8 r = (b, advance r 1)"
  using reads_ensure [of r "[b]" rest] reads_nth [of r "[b] @ rest" 0]
  by (simp add: get_u8_def)

lemma get_u32_reads:
  assumes "reads r (le_bytes32 x @ rest)"
  shows "get_u32 r = (x, advance r 4)"
proof -
  have "rd_bytes r ! (rd_pos r + i) = le_bytes32 x ! i" if "i < 4" for i
    using reads_nth [OF assms, of i] that by (simp add: nth_append)
  then have "from_le32 (\<lambda>i. rd_bytes r ! (rd_pos r + i)) = x"
    using from_le_cong(1) le32 [of x] by metis
  then show ?thesis using reads_ensure [OF assms] by (simp add: get_u32_def)
qed

lemma get_u64_reads:
  assumes "reads r (le_bytes64 x @ rest)"
  shows "get_u64 r = (x, advance r 8)"
proof -
  have "rd_bytes r ! (rd_pos r + i) = le_bytes64 x ! i" if "i < 8" for i
    using reads_nth [OF assms, of i] that by (simp add: nth_append)
  then have "from_le64 (\<lambda>i. rd_bytes r ! (rd_pos r + i)) = x"
    using from_le_cong(2) le64 [of x] by metis
  then show ?thesis using reads_ensure [OF assms] by (simp add: get_u64_def)
qed

lemma get_raw_reads: "reads r (bs @ rest) \<Longrightarrow> get_raw r (length bs) = (Some bs, advance r (length bs))"
  by (simp add: get_raw_def reads_ensure reads_peek)

lemma sub_reader_reads:
  "reads r (bs @ rest) \<Longrightarrow> sub_reader r (length bs) = (new_reader bs, advance r (length bs))"
  by (simp add: sub_reader_def reads_ensure reads_peek)

lemma get_string_reads:
  assumes "reads r (str_bytes s @ rest)" "length s < 2 ^ 32"
  shows "get_string r = (s, advance r (4 + length s))"
proof -
  let ?n = "word_of_nat (length s) :: u32"
  have n: "unat ?n = length s" using assms(2) by (simp add: unat_of_nat)
  have r: "reads r (le_bytes32 ?n @ string_bytes s @ rest)" using assms(1) by (simp add: str_bytes_def)
  then have r4: "reads (advance r 4) (string_bytes s @ rest)" using reads_advance by fastforce
  have "ensure (advance r 4) (length s) = (True, advance r 4)"
    using reads_ensure [OF r4] by simp
  moreover have "peek (advance r 4) (length s) = string_bytes s"
    using reads_peek [OF r4] by simp
  ultimately show ?thesis
    using get_u32_reads [OF r] n by (simp add: get_string_def advance_def)
qed

end
