(* ===== verification/Ivf.thy ===== *)
theory Ivf
  imports Index_Spec Bytes
begin

text \<open>
  \<open>ivf_index.cpp\<close>: the inverted-file index.  Entries are slots that are tombstoned and revived,
  never moved; the partitioning (k-means centroids and inverted lists) is a cache rebuilt by the
  first search after a mutation, so \<open>search\<close> returns the index too.  \<open>std::shuffle\<close> comes from
  the host.  Slot numbers are cast to 32 bits when they are collected.
\<close>

section \<open>State\<close>

record ivf_entry =
  ie_id :: record_id
  ie_vector :: "f32 list"
  ie_deleted :: bool

record ivf_index =
  iv_dimensionality :: u32
  iv_metric :: distance_metric
  iv_requested_nlist :: u32
  iv_seed :: u64
  iv_entries :: "ivf_entry list"
  iv_id_to_index :: "(record_id \<times> nat) list"
  iv_live_count :: u64
  iv_dirty :: bool
  iv_centroids :: "f32 list list"
  iv_inverted_lists :: "nat list list"

definition new_ivf :: "u32 \<Rightarrow> distance_metric \<Rightarrow> index_params \<Rightarrow> ivf_index" where
  "new_ivf dm metric params =
     \<lparr>iv_dimensionality = dm, iv_metric = metric, iv_requested_nlist = ip_nlist params,
      iv_seed = ip_seed params, iv_entries = [], iv_id_to_index = [], iv_live_count = 0,
      iv_dirty = True, iv_centroids = [], iv_inverted_lists = []\<rparr>"


section \<open>Membership\<close>

definition ivf_add :: "ivf_index \<Rightarrow> record_id \<Rightarrow> f32 list \<Rightarrow> status \<times> ivf_index" where
  "ivf_add ix rid vec =
     (if rid = [] then (Inl InvalidIdentifier, ix)
      else if length vec \<noteq> unat (iv_dimensionality ix) then (Inl DimensionMismatch, ix)
      else case omap_find rid (iv_id_to_index ix) of
        Some slot \<Rightarrow>
          let entry = iv_entries ix ! slot in
          (Inr (), ix\<lparr>iv_entries := (iv_entries ix)[slot := entry\<lparr>ie_vector := vec, ie_deleted := False\<rparr>],
                      iv_live_count := (if ie_deleted entry then iv_live_count ix + 1 else iv_live_count ix),
                      iv_dirty := True\<rparr>)
      | None \<Rightarrow>
          (Inr (), ix\<lparr>iv_entries := iv_entries ix @ [\<lparr>ie_id = rid, ie_vector = vec, ie_deleted = False\<rparr>],
                      iv_id_to_index := (rid, length (iv_entries ix)) # iv_id_to_index ix,
                      iv_live_count := iv_live_count ix + 1,
                      iv_dirty := True\<rparr>))"

definition ivf_remove :: "ivf_index \<Rightarrow> record_id \<Rightarrow> status \<times> ivf_index" where
  "ivf_remove ix rid =
     (case omap_find rid (iv_id_to_index ix) of
        None \<Rightarrow> (Inl NotFound, ix)
      | Some slot \<Rightarrow>
          let entry = iv_entries ix ! slot in
          if ie_deleted entry then (Inl NotFound, ix)
          else (Inr (), ix\<lparr>iv_entries := (iv_entries ix)[slot := entry\<lparr>ie_deleted := True\<rparr>],
                           iv_live_count := iv_live_count ix - 1,
                           iv_dirty := True\<rparr>))"


section \<open>Partitioning\<close>

definition kMaxKMeansIterations :: nat where "kMaxKMeansIterations = 12"

text \<open>The live slots, cast to 32 bits.\<close>

definition live_slots :: "ivf_index \<Rightarrow> nat list" where
  "live_slots ix =
     map (\<lambda>i. i mod 2 ^ 32) (filter (\<lambda>i. \<not> ie_deleted (iv_entries ix ! i)) [0..<length (iv_entries ix)])"

text \<open>
  The effective number of cells.  The heuristic default goes through a double square root and a
  cast to 32 bits, undefined when out of range.
\<close>

definition partition_count :: "u32 \<Rightarrow> nat \<Rightarrow> nat option" where
  "partition_count requested n =
     map_option (\<lambda>k0. let k1 = (if n < k0 then n mod 2 ^ 32 else k0) in if k1 < 1 then 1 else k1)
       (if requested = 0
        then map_option (\<lambda>h. if h < 1 then 1 else h) (f64_trunc 32 (f64_sqrt (f64_of_nat n)))
        else Some (unat requested))"

text \<open>The nearest centroid of a vector: a scan keeping the first strict minimum.\<close>

definition nearest_cell :: "f32 list list \<Rightarrow> nat \<Rightarrow> nat \<Rightarrow> f32 list \<Rightarrow> nat" where
  "nearest_cell centroids k dm v =
     snd (foldl (\<lambda>(best, best_c) c.
            let d = scalar_l2_squared v (centroids ! c) dm in
            if f32_lt d best then (d, c) else (best, best_c)) (f32_inf, 0) [0..<k])"

text \<open>Per-cell totals (in double) and counts of the assigned vectors.\<close>

definition cell_sums :: "f32 list list \<Rightarrow> nat list \<Rightarrow> nat \<Rightarrow> nat \<Rightarrow> f64 list list \<times> nat list" where
  "cell_sums vecs assignment k dm =
     foldl (\<lambda>(totals, counts) i.
        let c = assignment ! i; acc = totals ! c; v = vecs ! i in
        (totals[c := map (\<lambda>d. f64_add (acc ! d) (f64_of_f32 (v ! d))) [0..<dm]],
         counts[c := counts ! c + 1]))
       (replicate k (replicate dm f64_zero), replicate k 0) [0..<length vecs]"

definition recompute_centroids :: "f32 list list \<Rightarrow> nat list \<Rightarrow> nat \<Rightarrow> nat \<Rightarrow> f32 list list \<Rightarrow> f32 list list" where
  "recompute_centroids vecs assignment k dm centroids =
     (let (totals, counts) = cell_sums vecs assignment k dm in
      map (\<lambda>c. if counts ! c = 0 then centroids ! c
               else map (\<lambda>d. f32_of_f64 (f64_div (totals ! c ! d) (f64_of_nat (counts ! c)))) [0..<dm])
        [0..<k])"

text \<open>Lloyd's iterations; \<open>n\<close> of them are left.\<close>

fun lloyd :: "nat \<Rightarrow> nat \<Rightarrow> f32 list list \<Rightarrow> nat \<Rightarrow> nat \<Rightarrow> f32 list list \<Rightarrow> nat list \<Rightarrow> f32 list list \<times> nat list" where
  "lloyd 0 iter vecs k dm centroids assignment = (centroids, assignment)"
| "lloyd (Suc n) iter vecs k dm centroids assignment =
     (let assignment' = map (nearest_cell centroids k dm) vecs;
          changed = (assignment' \<noteq> assignment);
          centroids' = recompute_centroids vecs assignment' k dm centroids in
      if \<not> changed \<and> 0 < iter then (centroids', assignment')
      else lloyd n (iter + 1) vecs k dm centroids' assignment')"

definition inverted_lists :: "nat list \<Rightarrow> nat list \<Rightarrow> nat \<Rightarrow> nat list list" where
  "inverted_lists live assignment k =
     foldl (\<lambda>ls i. ls[assignment ! i := ls ! (assignment ! i) @ [live ! i]]) (replicate k []) [0..<length live]"

definition ensure_partitions_built :: "host \<Rightarrow> ivf_index \<Rightarrow> ivf_index option" where
  "ensure_partitions_built h ix =
     (if \<not> iv_dirty ix then Some ix
      else let live = live_slots ix in
        if live = [] then Some (ix\<lparr>iv_centroids := [], iv_inverted_lists := [], iv_dirty := False\<rparr>)
        else map_option (\<lambda>k.
          let dm = unat (iv_dimensionality ix);
              shuffled = h_shuffle h (iv_seed ix) live;
              centroids = map (\<lambda>c. ie_vector (iv_entries ix ! (shuffled ! c))) [0..<k];
              vecs = map (\<lambda>s. ie_vector (iv_entries ix ! s)) live;
              (centroids', assignment) =
                lloyd kMaxKMeansIterations 0 vecs k dm centroids (replicate (length live) 0)
          in ix\<lparr>iv_centroids := centroids', iv_inverted_lists := inverted_lists live assignment k,
                iv_dirty := False\<rparr>) (partition_count (iv_requested_nlist ix) (length live)))"


section \<open>Search\<close>

text \<open>\<open>std::partial_sort\<close>: the first \<open>n\<close> elements in order; the rest is not looked at.\<close>

definition partial_sort :: "('a \<Rightarrow> 'a \<Rightarrow> bool) \<Rightarrow> nat \<Rightarrow> 'a list \<Rightarrow> 'a list option" where
  "partial_sort lt n xs = map_option (take n) (std_sort lt xs)"

definition probe_count :: "query_params \<Rightarrow> nat \<Rightarrow> nat" where
  "probe_count params nlist =
     (let nprobe = (if unat (qp_nprobe params) < 1 then 1 else unat (qp_nprobe params))
      in if nlist < nprobe then nlist else nprobe)"

definition probed_cells :: "ivf_index \<Rightarrow> f32 list \<Rightarrow> query_params \<Rightarrow> nat list option" where
  "probed_cells ix q params =
     (let nlist = length (iv_centroids ix) in
      map_option (map snd)
        (partial_sort pair_less (probe_count params nlist)
           (map (\<lambda>c. (scalar_l2_squared q (iv_centroids ix ! c) (unat (iv_dimensionality ix)), c)) [0..<nlist])))"

definition scan_cells :: "host \<Rightarrow> ivf_index \<Rightarrow> f32 list \<Rightarrow> nat list \<Rightarrow> candidate list" where
  "scan_cells h ix q cells =
     concat (map (\<lambda>cell.
       map (\<lambda>s. (ie_id (iv_entries ix ! s), distance_or_inf (h_calculator h) (iv_metric ix) q (ie_vector (iv_entries ix ! s))))
         (filter (\<lambda>s. \<not> ie_deleted (iv_entries ix ! s)) (iv_inverted_lists ix ! cell))) cells)"

definition ivf_search ::
  "host \<Rightarrow> ivf_index \<Rightarrow> f32 list \<Rightarrow> u32 \<Rightarrow> query_params \<Rightarrow> (candidate list \<times> ivf_index) option" where
  "ivf_search h ix q k params =
     (if k = 0 \<or> iv_live_count ix = 0 then Some ([], ix)
      else case ensure_partitions_built h ix of
        None \<Rightarrow> undefined_behaviour
      | Some ix' \<Rightarrow>
          if iv_centroids ix' = [] then Some ([], ix')
          else case probed_cells ix' q params of
            None \<Rightarrow> undefined_behaviour
          | Some cells \<Rightarrow>
              map_option (\<lambda>out. (take (unat k) out, ix'))
                (std_sort by_distance_then_id (scan_cells h ix' q cells)))"

definition ivf_size :: "ivf_index \<Rightarrow> u64" where "ivf_size ix = iv_live_count ix"

definition ivf_serialize :: "ivf_index \<Rightarrow> u8 list" where
  "ivf_serialize ix = put_u64 (put_u32 [] (iv_requested_nlist ix)) (iv_seed ix)"


section \<open>Inverted lists partition the live slots\<close>

lemma nearest_cell_less:
  assumes "0 < k"
  shows "nearest_cell centroids k dm v < k"
proof -
  define F where "F m = foldl (\<lambda>(best, best_c) c.
            let d = scalar_l2_squared v (centroids ! c) dm in
            if f32_lt d best then (d, c) else (best, best_c)) (f32_inf, 0) [0..<m]" for m
  have "snd (F m) < k" if "m \<le> k" for m
    using that
  proof (induction m)
    case (Suc m)
    obtain b c where "F m = (b, c)" by (cases "F m")
    then show ?case using Suc by (simp add: F_def Let_def)
  qed (use assms in \<open>simp add: F_def\<close>)
  then show ?thesis by (simp add: nearest_cell_def F_def)
qed

lemma lloyd_cases:
  assumes "a = map (nearest_cell centroids k dm) vecs" "c = recompute_centroids vecs a k dm centroids"
  shows "lloyd (Suc n) iter vecs k dm centroids assignment = (c, a) \<or>
    lloyd (Suc n) iter vecs k dm centroids assignment = lloyd n (iter + 1) vecs k dm c a"
proof -
  have "lloyd (Suc n) iter vecs k dm centroids assignment =
      (if a = assignment \<and> 0 < iter then (c, a) else lloyd n (iter + 1) vecs k dm c a)"
    unfolding assms by (simp only: lloyd.simps Let_def not_not)
  then show ?thesis by (metis (full_types))
qed

lemma lloyd_assignment:
  assumes "0 < k" "length assignment = length vecs" "\<forall>c \<in> set assignment. c < k"
  shows "length (snd (lloyd n iter vecs k dm centroids assignment)) = length vecs \<and>
    (\<forall>c \<in> set (snd (lloyd n iter vecs k dm centroids assignment)). c < k)"
  using assms
proof (induction n arbitrary: iter centroids assignment)
  case (Suc n)
  let ?a = "map (nearest_cell centroids k dm) vecs"
  have a: "length ?a = length vecs" "\<forall>c \<in> set ?a. c < k" using nearest_cell_less Suc.prems(1) by auto
  consider "lloyd (Suc n) iter vecs k dm centroids assignment = (recompute_centroids vecs ?a k dm centroids, ?a)"
    | "lloyd (Suc n) iter vecs k dm centroids assignment
        = lloyd n (iter + 1) vecs k dm (recompute_centroids vecs ?a k dm centroids) ?a"
    using lloyd_cases [OF refl refl] by blast
  then show ?case
  proof cases
    case 1
    show ?thesis unfolding 1 snd_conv using a by blast
  next
    case 2
    show ?thesis unfolding 2 by (rule Suc.IH [OF Suc.prems(1) a])
  qed
qed simp

lemma mset_concat_update:
  "c < length ls \<Longrightarrow> mset (concat (ls[c := ls ! c @ [x]])) = add_mset x (mset (concat ls))"
proof (induction ls arbitrary: c)
  case (Cons l ls)
  then show ?case by (cases c) auto
qed simp

lemma inverted_lists_partition:
  assumes "length assignment = length live" "\<forall>c \<in> set assignment. c < k"
  shows "length (inverted_lists live assignment k) = k \<and> mset (concat (inverted_lists live assignment k)) = mset live"
proof -
  define F where "F n = foldl (\<lambda>ls i. ls[assignment ! i := ls ! (assignment ! i) @ [live ! i]])
      (replicate k []) [0..<n]" for n
  have "length (F n) = k \<and> mset (concat (F n)) = mset (take n live)" if "n \<le> length live" for n
    using that
  proof (induction n)
    case 0
    have "concat (replicate k []) = []" by (induction k) simp_all
    then show ?case by (simp add: F_def)
  next
    case (Suc n)
    then have c: "assignment ! n < length (F n)" using assms by simp
    have "F (Suc n) = (F n)[assignment ! n := F n ! (assignment ! n) @ [live ! n]]" by (simp add: F_def)
    then show ?case
      using Suc mset_concat_update [OF c] by (simp add: take_Suc_conv_app_nth)
  qed
  from this [of "length live"] show ?thesis by (simp add: inverted_lists_def F_def)
qed


section \<open>Centroids are never NaN\<close>

definition good_vec :: "nat \<Rightarrow> f32 list \<Rightarrow> bool" where
  "good_vec dm v \<longleftrightarrow> length v = dm \<and> (\<forall>x \<in> set v. \<not> f32_isnan x)"

lemma finite_good_vec: "length v = dm \<Longrightarrow> finite_vec v \<Longrightarrow> good_vec dm v"
  using f32_finite_not_nan by (auto simp: good_vec_def)

lemma fp_sub_fin_not_nan:
  "is_finm F x \<Longrightarrow> \<not> is_nanm F y \<Longrightarrow> \<not> is_nanm F (fp_add F x (fp_neg F y))"
  by (auto simp: fp_add_def fp_neg_def is_finm_def is_nanm_def Let_def round_mag_def)

text \<open>The squared distance from a finite vector to a vector without NaN is a non-negative number.\<close>

lemma l2_squared_good:
  assumes "n \<le> length a" "n \<le> length b" "finite_vec a" "\<forall>x \<in> set b. \<not> f32_isnan x"
  shows "\<not> f32_isnan (scalar_l2_squared a b n)"
proof -
  define S where "S m = foldl (\<lambda>sum i. f64_add sum (l2_term (a ! i) (b ! i))) f64_zero [0..<m]" for m
  have "\<not> is_nanm F64 (dec64 (S m)) \<and> \<not> fst (dec64 (S m))" if "m \<le> n" for m
    using that
  proof (induction m)
    case (Suc m)
    have "f32_isfinite (a ! m)" "\<not> f32_isnan (b ! m)" using Suc.prems assms by simp_all
    then have "\<not> is_nanm F64 (dec64 (f64_sub (f64_of_f32 (a ! m)) (f64_of_f32 (b ! m))))"
      using f64_of_f32_finite [of "a ! m"] by (simp add: fp_sub_fin_not_nan f32_isnan_def)
    then have "\<not> is_nanm F64 (dec64 (l2_term (a ! m) (b ! m))) \<and> \<not> fst (dec64 (l2_term (a ! m) (b ! m)))"
      by (simp add: l2_term_def Let_def fp_mul_self)
    moreover have "S (Suc m) = f64_add (S m) (l2_term (a ! m) (b ! m))"
      by (simp add: S_def)
    ultimately show ?case using Suc by (simp add: fp_add_nonneg)
  qed (simp add: S_def)
  then have "\<not> is_nanm F64 (dec64 (S n)) \<and> \<not> fst (dec64 (S n))" by blast
  then show ?thesis
    by (simp add: scalar_l2_squared_def S_def [symmetric] f32_isnan_def fst_fp_convert)
qed

lemma round_mag_pos:
  assumes "0 < m" "0 \<le> k" "0 < prec F" "0 < infm F"
  shows "0 < round_mag F m k"
proof -
  define q where "q = max 0 (k + int (bitlen m) - int (prec F))"
  have "0 < rne m (nat (q - k))" if "k < q"
  proof -
    have "2 ^ (bitlen m - 1) \<le> m" "0 < bitlen m" using bitlen_bounds [OF assms(1)] by auto
    moreover have "nat (q - k) \<le> bitlen m - 1" using that assms(2,3) calculation(2) by (simp add: q_def)
    ultimately have "1 * 2 ^ nat (q - k) \<le> m"
      by (metis mult_1 one_le_numeral order_trans power_increasing)
    then show ?thesis using rne_ge [of 1 "nat (q - k)" m] by simp
  qed
  then show ?thesis
    using assms by (auto simp: round_mag_def Let_def q_def [symmetric] min_def not_le)
qed

lemma fp_div_not_nan:
  "is_finm F x \<Longrightarrow> \<not> is_nanm F y \<Longrightarrow> 0 < snd y \<Longrightarrow> \<not> is_nanm F (fp_div F x y)"
  by (auto simp: fp_div_def is_finm_def is_nanm_def Let_def round_mag_def)

lemma mean_not_nan:
  assumes "is_finm F64 (dec64 s)" "0 < n"
  shows "\<not> f32_isnan (f32_of_f64 (f64_div s (f64_of_nat n)))"
proof -
  have d: "dec64 (f64_of_nat n) = (False, round_mag F64 n (int (funit F64)))"
    by (simp add: fp_of_nat_def)
  moreover have "0 < round_mag F64 n (int (funit F64))" using assms(2) by (intro round_mag_pos) simp_all
  ultimately have "\<not> is_nanm F64 (fp_div F64 (dec64 s) (dec64 (f64_of_nat n)))"
    using assms(1) by (intro fp_div_not_nan) simp_all
  then have "\<not> is_nanm F64 (dec64 (f64_div s (f64_of_nat n)))" by (simp add: f64_div_def)
  then show ?thesis by (simp add: f32_isnan_def)
qed

text \<open>The per-cell sums stay far from overflow while the counts stay below \<open>2 ^ 32\<close>.\<close>

lemma bounded_by_mono: "bounded_by F x c j \<Longrightarrow> c \<le> d \<Longrightarrow> bounded_by F x d j"
  by (auto simp: bounded_by_def intro: order_trans mult_le_mono1)

lemma add_widened_bounded:
  assumes "bounded_by F64 (dec64 s) n 1202" "f32_isfinite x" "n < 2 ^ 32"
  shows "bounded_by F64 (dec64 (f64_add s (f64_of_f32 x))) (n + 1) 1202"
proof -
  have "(n + 1) * 2 ^ 1202 \<le> 2 ^ 32 * 2 ^ 1202" using assms(3) by (intro mult_le_mono1) simp
  also have "\<dots> < fval F64 (infm F64)" by (simp only: fval_inf) (simp flip: power_add)
  finally have "(n + 1) * 2 ^ 1202 < fval F64 (infm F64)" .
  moreover have "bounded_by F64 (dec64 (f64_of_f32 x)) 1 1202" using assms(2) by (rule f32_finite_bounded)
  moreover have "n + 1 < 2 ^ prec F64" using assms(3) by simp
  ultimately show ?thesis
    using fp_add_bounded [OF assms(1), of "dec64 (f64_of_f32 x)" 1] by simp
qed

lemma cell_sums_bounded:
  assumes vecs: "\<forall>v \<in> set vecs. length v = dm \<and> finite_vec v" "length vecs \<le> 2 ^ 32"
    and asg: "length assignment = length vecs" "\<forall>c \<in> set assignment. c < k"
    and r: "cell_sums vecs assignment k dm = (tot, cnt)"
  shows "\<forall>c < k. \<forall>d < dm. is_finm F64 (dec64 (tot ! c ! d))"
proof -
  define F where "F n = foldl (\<lambda>(totals, counts) i.
        let c = assignment ! i; acc = totals ! c; v = vecs ! i in
        (totals[c := map (\<lambda>d. f64_add (acc ! d) (f64_of_f32 (v ! d))) [0..<dm]],
         counts[c := counts ! c + 1]))
       (replicate k (replicate dm f64_zero), replicate k (0::nat)) [0..<n]" for n
  have "length (fst (F n)) = k \<and> (\<forall>c < k. \<forall>d < dm. bounded_by F64 (dec64 (fst (F n) ! c ! d)) n 1202)"
    if "n \<le> length vecs" for n
    using that
  proof (induction n)
    case 0
    then show ?case by (simp add: F_def bounded_by_0)
  next
    case (Suc n)
    obtain t u where F: "F n = (t, u)" by (cases "F n")
    let ?c = "assignment ! n"
    have c: "?c < k" using asg Suc.prems by simp
    have v: "length (vecs ! n) = dm" "finite_vec (vecs ! n)" using vecs(1) Suc.prems by auto
    have step: "fst (F (Suc n)) = t[?c := map (\<lambda>d. f64_add (t ! ?c ! d) (f64_of_f32 (vecs ! n ! d))) [0..<dm]]"
      using F by (simp add: F_def Let_def)
    have IH: "length t = k" "\<And>c d. c < k \<Longrightarrow> d < dm \<Longrightarrow> bounded_by F64 (dec64 (t ! c ! d)) n 1202"
      using Suc F by auto
    have "bounded_by F64 (dec64 (fst (F (Suc n)) ! c ! d)) (Suc n) 1202" if "c < k" "d < dm" for c d
    proof (cases "c = ?c")
      case True
      have "f32_isfinite (vecs ! n ! d)" using v that(2) by simp
      then show ?thesis
        using add_widened_bounded [OF IH(2) [OF c that(2)]] Suc.prems vecs(2) True that IH(1)
        unfolding step by (simp del: dec_ops)
    next
      case False
      then show ?thesis using bounded_by_mono [OF IH(2) [OF that]] unfolding step by simp
    qed
    then show ?case using IH(1) step by simp
  qed
  from this [of "length vecs"] show ?thesis
    using r by (simp add: cell_sums_def F_def bounded_by_def)
qed

definition good_cells :: "nat \<Rightarrow> nat \<Rightarrow> f32 list list \<Rightarrow> bool" where
  "good_cells k dm cs \<longleftrightarrow> length cs = k \<and> (\<forall>c \<in> set cs. good_vec dm c)"

lemma recompute_good:
  assumes vecs: "\<forall>v \<in> set vecs. length v = dm \<and> finite_vec v" "length vecs \<le> 2 ^ 32"
    and asg: "length assignment = length vecs" "\<forall>c \<in> set assignment. c < k"
    and cs: "good_cells k dm cs"
  shows "good_cells k dm (recompute_centroids vecs assignment k dm cs)"
proof -
  obtain tot cnt where r: "cell_sums vecs assignment k dm = (tot, cnt)" by fastforce
  have "good_vec dm (map (\<lambda>d. f32_of_f64 (f64_div (tot ! c ! d) (f64_of_nat (cnt ! c)))) [0..<dm])"
    if "c < k" "cnt ! c \<noteq> 0" for c
    using cell_sums_bounded [OF vecs asg r] that mean_not_nan by (auto simp: good_vec_def)
  then show ?thesis
    using cs by (auto simp: recompute_centroids_def r good_cells_def)
qed

lemma lloyd_good:
  assumes vecs: "\<forall>v \<in> set vecs. length v = dm \<and> finite_vec v" "length vecs \<le> 2 ^ 32" and k: "0 < k"
    and cs: "good_cells k dm cs"
  shows "good_cells k dm (fst (lloyd n iter vecs k dm cs assignment))"
  using cs
proof (induction n arbitrary: iter cs assignment)
  case (Suc n)
  let ?a = "map (nearest_cell cs k dm) vecs"
  let ?c = "recompute_centroids vecs ?a k dm cs"
  have "good_cells k dm ?c"
    using nearest_cell_less [OF k] by (intro recompute_good vecs Suc.prems) auto
  then show ?case
    using lloyd_cases [OF refl refl, where centroids = cs and k = k and dm = dm and vecs = vecs and n = n
        and iter = iter and assignment = assignment] Suc.IH [of ?c "iter + 1" ?a]
    by (metis fst_conv)
qed simp


section \<open>The invariant\<close>

abbreviation live_entries :: "ivf_index \<Rightarrow> ivf_entry list" where
  "live_entries ix \<equiv> filter (\<lambda>e. \<not> ie_deleted e) (iv_entries ix)"

abbreviation iv_width :: "ivf_index \<Rightarrow> nat" where
  "iv_width ix \<equiv> unat (iv_dimensionality ix)"

text \<open>The id table names exactly the slots, by their distinct identifiers.\<close>

definition ids_ok :: "ivf_index \<Rightarrow> bool" where
  "ids_ok ix \<longleftrightarrow> (\<forall>rid s. omap_find rid (iv_id_to_index ix) = Some s \<longleftrightarrow>
     s < length (iv_entries ix) \<and> ie_id (iv_entries ix ! s) = rid)"

definition cache_ok :: "ivf_index \<Rightarrow> bool" where
  "cache_ok ix \<longleftrightarrow>
     length (iv_inverted_lists ix) = length (iv_centroids ix) \<and>
     mset (concat (iv_inverted_lists ix)) = mset (live_slots ix) \<and>
     length (iv_centroids ix) \<le> length (live_slots ix) \<and>
     (iv_requested_nlist ix \<noteq> 0 \<longrightarrow> length (iv_centroids ix) \<le> unat (iv_requested_nlist ix)) \<and>
     good_cells (length (iv_centroids ix)) (iv_width ix) (iv_centroids ix)"

text \<open>What the host and the construction parameters must provide.\<close>

definition ivf_host_ok :: "host \<Rightarrow> ivf_index \<Rightarrow> bool" where
  "ivf_host_ok h ix \<longleftrightarrow> shuffle_permutes h \<and> nan_free h (iv_metric ix) (iv_width ix) \<and>
     (\<forall>n < 2 ^ 31. partition_count (iv_requested_nlist ix) n \<noteq> None)"

definition entry_ok :: "nat \<Rightarrow> ivf_entry \<Rightarrow> bool" where
  "entry_ok w e \<longleftrightarrow> ie_id e \<noteq> [] \<and> length (ie_vector e) = w \<and> finite_vec (ie_vector e)"

definition ivf_ok :: "host \<Rightarrow> ivf_index \<Rightarrow> bool" where
  "ivf_ok h ix \<longleftrightarrow> ids_ok ix \<and>
     (\<forall>e \<in> set (iv_entries ix). entry_ok (iv_width ix) e) \<and>
     iv_live_count ix = word_of_nat (length (live_entries ix)) \<and>
     (\<not> iv_dirty ix \<longrightarrow> cache_ok ix) \<and> ivf_host_ok h ix"

definition ivf_contents :: "ivf_index \<Rightarrow> record_id \<Rightarrow> f32 list option" where
  "ivf_contents ix rid =
     (case omap_find rid (iv_id_to_index ix) of
        None \<Rightarrow> None
      | Some s \<Rightarrow> if ie_deleted (iv_entries ix ! s) then None else Some (ie_vector (iv_entries ix ! s)))"

definition ivf_dist :: "host \<Rightarrow> ivf_index \<Rightarrow> f32 list \<Rightarrow> f32 list \<Rightarrow> f32" where
  "ivf_dist h ix = distance_or_inf (h_calculator h) (iv_metric ix)"

abbreviation ivf_slots :: "ivf_index \<Rightarrow> nat" where
  "ivf_slots ix \<equiv> length (iv_entries ix)"

lemma new_ivf_ok:
  assumes "shuffle_permutes h" "nan_free h metric (unat d)" "\<forall>n < 2 ^ 31. partition_count (ip_nlist params) n \<noteq> None"
  shows "ivf_ok h (new_ivf d metric params)" and "ivf_contents (new_ivf d metric params) = Map.empty"
    and "ivf_slots (new_ivf d metric params) = 0" and "iv_width (new_ivf d metric params) = unat d"
  using assms by (auto simp: ivf_ok_def new_ivf_def ids_ok_def ivf_host_ok_def ivf_contents_def)

lemma ivf_add_ok:
  assumes ok: "ivf_ok h ix" and rid: "rid \<noteq> []" and v: "length v = iv_width ix" "finite_vec v"
  shows "\<exists>ix'. ivf_add ix rid v = (Inr (), ix') \<and> ivf_ok h ix' \<and> ivf_slots ix' \<le> ivf_slots ix + 1
     \<and> iv_width ix' = iv_width ix \<and> ivf_dist h ix' = ivf_dist h ix
     \<and> ivf_contents ix' = (ivf_contents ix)(rid \<mapsto> v)"
proof (cases "omap_find rid (iv_id_to_index ix)")
  case None
  let ?e = "\<lparr>ie_id = rid, ie_vector = v, ie_deleted = False\<rparr>"
  let ?ix = "ix\<lparr>iv_entries := iv_entries ix @ [?e], iv_id_to_index := (rid, length (iv_entries ix)) # iv_id_to_index ix,
      iv_live_count := iv_live_count ix + 1, iv_dirty := True\<rparr>"
  have a: "ivf_add ix rid v = (Inr (), ?ix)" using rid v(1) None by (simp add: ivf_add_def)
  have ids: "ids_ok ix" using ok by (simp add: ivf_ok_def)
  have new: "ie_id (iv_entries ix ! s) \<noteq> rid" if "s < length (iv_entries ix)" for s
    using ids that None unfolding ids_ok_def by (metis option.distinct(1))
  have "ids_ok ?ix"
    unfolding ids_ok_def
  proof (intro allI)
    fix r s
    have "omap_find r (iv_id_to_index ix) = Some s \<longleftrightarrow> s < length (iv_entries ix) \<and> ie_id (iv_entries ix ! s) = r"
      using ids by (simp add: ids_ok_def)
    then show "omap_find r (iv_id_to_index ?ix) = Some s \<longleftrightarrow>
        s < length (iv_entries ?ix) \<and> ie_id (iv_entries ?ix ! s) = r"
      using new by (auto simp: nth_append less_Suc_eq)
  qed
  moreover have "ivf_contents ?ix = (ivf_contents ix)(rid \<mapsto> v)"
  proof
    fix r
    show "ivf_contents ?ix r = ((ivf_contents ix)(rid \<mapsto> v)) r"
    proof (cases "omap_find r (iv_id_to_index ix)")
      case (Some s)
      then have "s < length (iv_entries ix)" using ids by (simp add: ids_ok_def)
      moreover have "r \<noteq> rid" using Some None by auto
      ultimately show ?thesis using Some by (simp add: ivf_contents_def nth_append)
    qed (auto simp: ivf_contents_def)
  qed
  moreover have "ivf_ok h ?ix"
    using ok calculation(1) rid v by (auto simp: ivf_ok_def ivf_host_ok_def entry_ok_def)
  ultimately show ?thesis using a by (auto simp: ivf_dist_def)
next
  case (Some s)
  have s: "s < length (iv_entries ix)" "ie_id (iv_entries ix ! s) = rid"
    using ok Some by (simp_all add: ivf_ok_def ids_ok_def)
  let ?e = "(iv_entries ix ! s)\<lparr>ie_vector := v, ie_deleted := False\<rparr>"
  let ?n = "if ie_deleted (iv_entries ix ! s) then iv_live_count ix + 1 else iv_live_count ix"
  let ?ix = "ix\<lparr>iv_entries := (iv_entries ix)[s := ?e], iv_live_count := ?n, iv_dirty := True\<rparr>"
  have a: "ivf_add ix rid v = (Inr (), ?ix)" using rid v(1) Some by (simp add: ivf_add_def Let_def)
  have ids: "ids_ok ?ix" using ok s by (auto simp: ivf_ok_def ids_ok_def nth_list_update)
  have "ivf_contents ?ix = (ivf_contents ix)(rid \<mapsto> v)"
  proof
    fix r
    have "omap_find r (iv_id_to_index ix) = Some s \<longleftrightarrow> r = rid"
      using ok s by (auto simp: ivf_ok_def ids_ok_def)
    then show "ivf_contents ?ix r = ((ivf_contents ix)(rid \<mapsto> v)) r"
      using s by (auto simp: ivf_contents_def nth_list_update split: option.split)
  qed
  moreover have "?n = word_of_nat (length (live_entries ?ix))"
    using ok length_filter_update [OF s(1), of "\<lambda>e. \<not> ie_deleted e" ?e] by (auto simp: ivf_ok_def)
  moreover have "\<forall>e \<in> set (iv_entries ?ix). entry_ok (iv_width ix) e"
    using ok s rid v all_update [of "iv_entries ix" "entry_ok (iv_width ix)" ?e s]
    by (simp add: ivf_ok_def entry_ok_def)
  ultimately show ?thesis using a ids ok by (auto simp: ivf_ok_def ivf_host_ok_def ivf_dist_def)
qed

lemma ivf_remove_ok:
  assumes ok: "ivf_ok h ix"
  shows "\<exists>ix'. ivf_remove ix rid = (if ivf_contents ix rid = None then Inl NotFound else Inr (), ix') \<and> ivf_ok h ix'
     \<and> ivf_slots ix' = ivf_slots ix \<and> iv_width ix' = iv_width ix \<and> ivf_dist h ix' = ivf_dist h ix
     \<and> ivf_contents ix' = (ivf_contents ix)(rid := None)"
proof (cases "ivf_contents ix rid")
  case None
  then have "ivf_remove ix rid = (Inl NotFound, ix)"
    by (auto simp: ivf_remove_def ivf_contents_def split: option.splits if_splits)
  moreover have "(ivf_contents ix)(rid := None) = ivf_contents ix" using None by auto
  ultimately show ?thesis using ok None by simp
next
  case (Some v)
  then obtain s where f: "omap_find rid (iv_id_to_index ix) = Some s" "\<not> ie_deleted (iv_entries ix ! s)"
    by (auto simp: ivf_contents_def split: option.splits if_splits)
  have s: "s < length (iv_entries ix)" "ie_id (iv_entries ix ! s) = rid"
    using ok f by (simp_all add: ivf_ok_def ids_ok_def)
  let ?e = "(iv_entries ix ! s)\<lparr>ie_deleted := True\<rparr>"
  let ?ix = "ix\<lparr>iv_entries := (iv_entries ix)[s := ?e], iv_live_count := iv_live_count ix - 1, iv_dirty := True\<rparr>"
  have a: "ivf_remove ix rid = (Inr (), ?ix)" using f by (simp add: ivf_remove_def Let_def)
  have ids: "ids_ok ?ix" using ok s by (auto simp: ivf_ok_def ids_ok_def nth_list_update)
  have "ivf_contents ?ix = (ivf_contents ix)(rid := None)"
  proof
    fix r
    have "omap_find r (iv_id_to_index ix) = Some s \<longleftrightarrow> r = rid"
      using ok s by (auto simp: ivf_ok_def ids_ok_def)
    then show "ivf_contents ?ix r = ((ivf_contents ix)(rid := None)) r"
      using s by (auto simp: ivf_contents_def nth_list_update split: option.split)
  qed
  moreover have "iv_live_count ix - 1 = word_of_nat (length (live_entries ?ix))"
  proof -
    have "length (live_entries ix) = Suc (length (live_entries ?ix))"
      using length_filter_update [OF s(1), of "\<lambda>e. \<not> ie_deleted e" ?e] f(2) by simp
    then show ?thesis using ok by (simp add: ivf_ok_def)
  qed
  moreover have "\<forall>e \<in> set (iv_entries ?ix). entry_ok (iv_width ix) e"
  proof -
    have "entry_ok (iv_width ix) (iv_entries ix ! s)" using ok s by (simp add: ivf_ok_def)
    then have "entry_ok (iv_width ix) ?e" by (simp add: entry_ok_def)
    moreover have "\<forall>e \<in> set (iv_entries ix). entry_ok (iv_width ix) e" using ok by (simp add: ivf_ok_def)
    ultimately have "\<forall>e \<in> set ((iv_entries ix)[s := ?e]). entry_ok (iv_width ix) e" by (intro all_update)
    then show ?thesis by simp
  qed
  ultimately show ?thesis using a ids ok Some by (auto simp: ivf_ok_def ivf_host_ok_def ivf_dist_def)
qed


section \<open>Building the partitions\<close>

lemma live_slots_small:
  "ivf_slots ix < 2 ^ 31 \<Longrightarrow>
   live_slots ix = filter (\<lambda>i. \<not> ie_deleted (iv_entries ix ! i)) [0..<length (iv_entries ix)]"
  unfolding live_slots_def by (rule map_idI) auto

lemma live_slots_entries:
  "ivf_slots ix < 2 ^ 31 \<Longrightarrow> map ((!) (iv_entries ix)) (live_slots ix) = live_entries ix"
proof -
  assume "ivf_slots ix < 2 ^ 31"
  moreover have "live_entries ix = filter (\<lambda>e. \<not> ie_deleted e) (map ((!) (iv_entries ix)) [0..<ivf_slots ix])"
    by (simp only: map_nth)
  ultimately show ?thesis by (simp only: live_slots_small filter_map o_def)
qed

lemma set_live_slots:
  "ivf_slots ix < 2 ^ 31 \<Longrightarrow> s \<in> set (live_slots ix) \<longleftrightarrow> s < length (iv_entries ix) \<and> \<not> ie_deleted (iv_entries ix ! s)"
  by (simp add: live_slots_small)

lemma distinct_live_slots: "ivf_slots ix < 2 ^ 31 \<Longrightarrow> distinct (live_slots ix)"
  by (simp add: live_slots_small)

lemma partition_count_bounds:
  "partition_count requested n = Some k \<Longrightarrow> 0 < n \<Longrightarrow> n < 2 ^ 32 \<Longrightarrow>
   0 < k \<and> k \<le> n \<and> (requested \<noteq> 0 \<longrightarrow> k \<le> unat requested)"
  using unat_gt_0 [of requested] by (auto simp: partition_count_def Let_def split: if_splits)

lemma ensure_partitions_ok:
  assumes ok: "ivf_ok h ix" and small: "ivf_slots ix < 2 ^ 31"
  shows "\<exists>ix'. ensure_partitions_built h ix = Some ix' \<and> ivf_ok h ix' \<and> \<not> iv_dirty ix'
     \<and> iv_entries ix' = iv_entries ix \<and> iv_id_to_index ix' = iv_id_to_index ix
     \<and> iv_dimensionality ix' = iv_dimensionality ix \<and> iv_metric ix' = iv_metric ix
     \<and> iv_requested_nlist ix' = iv_requested_nlist ix"
proof (cases "iv_dirty ix")
  case False
  then show ?thesis using ok by (simp add: ensure_partitions_built_def)
next
  case dirty: True
  show ?thesis
  proof (cases "live_slots ix = []")
    case True
    let ?ix = "ix\<lparr>iv_centroids := [], iv_inverted_lists := [], iv_dirty := False\<rparr>"
    have "live_slots ?ix = []" using True by (simp add: live_slots_def)
    then have "cache_ok ?ix" by (simp add: cache_ok_def good_cells_def)
    then have "ivf_ok h ?ix" using ok by (simp add: ivf_ok_def ids_ok_def ivf_host_ok_def)
    then show ?thesis using dirty True by (simp add: ensure_partitions_built_def)
  next
    case False
    define live where "live = live_slots ix"
    have n: "0 < length live" "length live < 2 ^ 31"
      using False small length_filter_le [of "\<lambda>i. \<not> ie_deleted (iv_entries ix ! i)" "[0..<length (iv_entries ix)]"]
      by (simp_all add: live_def live_slots_small)
    obtain k where k: "partition_count (iv_requested_nlist ix) (length live) = Some k"
      using ok n(2) by (auto simp: ivf_ok_def ivf_host_ok_def)
    then have kb: "0 < k" "k \<le> length live"
      and kr: "iv_requested_nlist ix \<noteq> 0 \<longrightarrow> k \<le> unat (iv_requested_nlist ix)"
      using partition_count_bounds n by auto
    define shuffled where "shuffled = h_shuffle h (iv_seed ix) live"
    define centroids where "centroids = map (\<lambda>c. ie_vector (iv_entries ix ! (shuffled ! c))) [0..<k]"
    define vecs where "vecs = map (\<lambda>s. ie_vector (iv_entries ix ! s)) live"
    obtain cs asg where ll: "lloyd kMaxKMeansIterations 0 vecs k (iv_width ix) centroids (replicate (length live) 0) = (cs, asg)"
      by fastforce
    let ?ix = "ix\<lparr>iv_centroids := cs, iv_inverted_lists := inverted_lists live asg k, iv_dirty := False\<rparr>"
    have built: "ensure_partitions_built h ix = Some ?ix"
      using dirty False k ll
      by (simp add: ensure_partitions_built_def Let_def live_def [symmetric] shuffled_def centroids_def vecs_def)
    have slot: "s < length (iv_entries ix)" "finite_vec (ie_vector (iv_entries ix ! s))"
      "length (ie_vector (iv_entries ix ! s)) = iv_width ix" if "s \<in> set live" for s
      using that ok set_live_slots [OF small] by (auto simp: live_def ivf_ok_def entry_ok_def)
    have mset_sh: "mset shuffled = mset live"
      using ok by (simp add: shuffled_def ivf_ok_def ivf_host_ok_def shuffle_permutes_def)
    then have sh: "length shuffled = length live" "set shuffled = set live"
      by (metis size_mset, metis set_mset_mset)
    have "good_cells k (iv_width ix) centroids"
    proof -
      have "good_vec (iv_width ix) (ie_vector (iv_entries ix ! (shuffled ! c)))" if "c < k" for c
      proof -
        have "shuffled ! c \<in> set live" using that kb(2) sh by (metis nth_mem order_less_le_trans)
        then show ?thesis using slot finite_good_vec by blast
      qed
      then show ?thesis by (simp add: good_cells_def centroids_def)
    qed
    moreover have vecs_ok: "\<forall>v \<in> set vecs. length v = iv_width ix \<and> finite_vec v" "length vecs \<le> 2 ^ 32"
      using slot n by (auto simp: vecs_def)
    ultimately have good: "good_cells k (iv_width ix) cs"
      using lloyd_good [OF vecs_ok kb(1), of centroids kMaxKMeansIterations 0 "replicate (length live) 0"] ll by simp
    have "length asg = length live" "\<forall>c \<in> set asg. c < k"
      using lloyd_assignment [OF kb(1), of "replicate (length live) 0" vecs kMaxKMeansIterations 0 "iv_width ix" centroids] ll kb(1)
      by (auto simp: vecs_def)
    then have "length (inverted_lists live asg k) = k" "mset (concat (inverted_lists live asg k)) = mset live"
      using inverted_lists_partition by auto
    then have "cache_ok ?ix"
      using good kb kr by (simp add: cache_ok_def good_cells_def live_def live_slots_def)
    then have "ivf_ok h ?ix" using ok by (simp add: ivf_ok_def ids_ok_def ivf_host_ok_def)
    then show ?thesis using built by simp
  qed
qed


section \<open>Searching\<close>

definition cell_dists :: "ivf_index \<Rightarrow> f32 list \<Rightarrow> (f32 \<times> nat) list" where
  "cell_dists ix q = map (\<lambda>c. (scalar_l2_squared q (iv_centroids ix ! c) (iv_width ix), c)) [0..<length (iv_centroids ix)]"

lemma probed_cells_ok:
  assumes cache: "cache_ok ix" and q: "length q = iv_width ix" "finite_vec q"
  shows "\<exists>cells. probed_cells ix q params = Some cells \<and> distinct cells
     \<and> (\<forall>c \<in> set cells. c < length (iv_centroids ix))
     \<and> (length (iv_centroids ix) \<le> unat (qp_nprobe params) \<longrightarrow> mset cells = mset [0..<length (iv_centroids ix)])"
proof -
  let ?d = "cell_dists ix q" and ?n = "probe_count params (length (iv_centroids ix))"
  have "no_nan_fst ?d"
  proof
    fix x assume "x \<in> set ?d"
    then obtain c where c: "c < length (iv_centroids ix)" "x = (scalar_l2_squared q (iv_centroids ix ! c) (iv_width ix), c)"
      by (auto simp: cell_dists_def)
    then have "good_vec (iv_width ix) (iv_centroids ix ! c)" using cache by (simp add: cache_ok_def good_cells_def)
    then show "\<not> f32_isnan (fst x)"
      using l2_squared_good [of "iv_width ix" q "iv_centroids ix ! c"] q c(2) by (simp add: good_vec_def)
  qed
  then have srt: "std_sort pair_less ?d = Some (sort_by pair_less ?d)"
    by (intro pair_order.std_sort_defined) auto
  let ?cells = "map snd (take ?n (sort_by pair_less ?d))"
  have eq: "probed_cells ix q params = Some ?cells"
    using srt by (simp add: probed_cells_def partial_sort_def cell_dists_def Let_def)
  have "map snd ?d = [0..<length (iv_centroids ix)]" by (simp add: cell_dists_def o_def)
  then have ms: "mset (map snd (sort_by pair_less ?d)) = mset [0..<length (iv_centroids ix)]"
    by (metis mset_map mset_sort_by)
  then have dist: "distinct (map snd (sort_by pair_less ?d))" by (metis distinct_upt mset_eq_imp_distinct_iff)
  have sub: "set ?cells \<subseteq> set (map snd (sort_by pair_less ?d))" by (simp only: take_map [symmetric] set_take_subset)
  have all: "set (map snd (sort_by pair_less ?d)) = {0..<length (iv_centroids ix)}"
    using ms by (metis set_mset_mset set_upt)
  have "distinct ?cells" using dist by (simp add: take_map [symmetric])
  moreover have "\<forall>c \<in> set ?cells. c < length (iv_centroids ix)" using sub all by auto
  moreover have "mset ?cells = mset [0..<length (iv_centroids ix)]"
    if "length (iv_centroids ix) \<le> unat (qp_nprobe params)"
  proof -
    have "length (iv_centroids ix) \<le> ?n" using that by (auto simp: probe_count_def Let_def)
    then have "take ?n (sort_by pair_less ?d) = sort_by pair_less ?d" by (simp add: cell_dists_def)
    then show ?thesis using ms by simp
  qed
  ultimately show ?thesis using eq by blast
qed

lemma concat_disjoint:
  "distinct (concat ls) \<Longrightarrow> i < length ls \<Longrightarrow> j < length ls \<Longrightarrow> i \<noteq> j \<Longrightarrow> set (ls ! i) \<inter> set (ls ! j) = {}"
proof (induction ls arbitrary: i j)
  case (Cons l ls)
  have out: "set l \<inter> set (ls ! m) = {}" if "m < length ls" for m
    using Cons.prems(1) that nth_mem by fastforce
  show ?case
  proof (cases i)
    case 0
    then show ?thesis using Cons.prems out by (cases j) auto
  next
    case (Suc i')
    then show ?thesis using Cons out [of i'] by (cases j) auto
  qed
qed simp

lemma distinct_concat_nth:
  "distinct (concat ls) \<Longrightarrow> distinct cells \<Longrightarrow> \<forall>c \<in> set cells. c < length ls \<Longrightarrow>
   distinct (concat (map ((!) ls) cells))"
proof (induction cells)
  case (Cons c cells)
  have "distinct (ls ! c)" using Cons.prems by (metis distinct_concat_iff list.set_intros(1) nth_mem)
  moreover have "set (ls ! c) \<inter> set (ls ! d) = {}" if "d \<in> set cells" for d
    using concat_disjoint [OF Cons.prems(1)] Cons.prems that by (metis distinct.simps(2) list.set_intros)
  ultimately show ?case using Cons by auto
qed simp

lemma mset_concat_cells:
  assumes "mset cells = mset [0..<length ls]"
  shows "mset (concat (map ((!) ls) cells)) = mset (concat ls)"
proof -
  have "mset (concat (map ((!) ls) xs)) = (\<Sum>c\<in>#mset xs. mset (ls ! c))" for xs
    by (induction xs) simp_all
  then have "mset (concat (map ((!) ls) cells)) = mset (concat (map ((!) ls) [0..<length ls]))"
    using assms by (simp only:)
  then show ?thesis by (simp only: map_nth)
qed

text \<open>The slots a scan looks at, and the candidates it makes of them.\<close>

definition probed_slots :: "ivf_index \<Rightarrow> nat list \<Rightarrow> nat list" where
  "probed_slots ix cells = concat (map ((!) (iv_inverted_lists ix)) cells)"

definition entry_candidate :: "host \<Rightarrow> ivf_index \<Rightarrow> f32 list \<Rightarrow> ivf_entry \<Rightarrow> candidate" where
  "entry_candidate h ix q e = (ie_id e, ivf_dist h ix q (ie_vector e))"

lemma scan_cells_slots:
  assumes "\<forall>s \<in> set (probed_slots ix cells). \<not> ie_deleted (iv_entries ix ! s)"
  shows "scan_cells h ix q cells = map (\<lambda>s. entry_candidate h ix q (iv_entries ix ! s)) (probed_slots ix cells)"
proof -
  have "filter (\<lambda>s. \<not> ie_deleted (iv_entries ix ! s)) (iv_inverted_lists ix ! c) = iv_inverted_lists ix ! c"
    if "c \<in> set cells" for c
    using assms that by (auto simp: probed_slots_def filter_id_conv)
  then show ?thesis
    by (simp add: scan_cells_def probed_slots_def map_concat o_def entry_candidate_def ivf_dist_def cong: map_cong)
qed

text \<open>What a search answers, given the cells it probes.\<close>

lemma ivf_search_answer:
  assumes ok: "ivf_ok h ix" and small: "ivf_slots ix < 2 ^ 31" and q: "length q = iv_width ix" "finite_vec q"
    and k: "k \<noteq> 0" "live_entries ix \<noteq> []"
  shows "\<exists>ix' out. ivf_search h ix q k params = Some (take (unat k) (sort_by by_distance_then_id out), ix')
     \<and> ivf_ok h ix' \<and> iv_entries ix' = iv_entries ix \<and> iv_id_to_index ix' = iv_id_to_index ix
     \<and> iv_dimensionality ix' = iv_dimensionality ix \<and> iv_metric ix' = iv_metric ix
     \<and> no_nan out \<and> distinct (map fst out)
     \<and> (\<exists>sl. set sl \<subseteq> set (live_slots ix) \<and> out = map (\<lambda>s. entry_candidate h ix q (iv_entries ix ! s)) sl
          \<and> (length (live_entries ix) \<le> unat (qp_nprobe params) \<or>
             iv_requested_nlist ix \<noteq> 0 \<and> iv_requested_nlist ix \<le> qp_nprobe params \<longrightarrow> mset sl = mset (live_slots ix)))"
proof -
  obtain ix' where b: "ensure_partitions_built h ix = Some ix'" "ivf_ok h ix'" "\<not> iv_dirty ix'"
    and same: "iv_entries ix' = iv_entries ix" "iv_id_to_index ix' = iv_id_to_index ix"
      "iv_dimensionality ix' = iv_dimensionality ix" "iv_metric ix' = iv_metric ix"
      "iv_requested_nlist ix' = iv_requested_nlist ix"
    using ensure_partitions_ok [OF ok small] by blast
  have sl: "live_slots ix' = live_slots ix" using same by (simp add: live_slots_def)
  have cache: "cache_ok ix'" using b by (simp add: ivf_ok_def)
  have nlive: "length (live_slots ix) = length (live_entries ix)"
    using live_slots_entries [OF small] by (metis length_map)
  have "live_slots ix \<noteq> []" using nlive k(2) by (metis length_0_conv)
  then have ne: "iv_centroids ix' \<noteq> []" using cache sl by (auto simp: cache_ok_def)
  have "length (live_entries ix) < 2 ^ 64"
    using le_less_trans [OF length_filter_le [of "\<lambda>e. \<not> ie_deleted e" "iv_entries ix"] small] by simp
  then have "unat (iv_live_count ix) = length (live_entries ix)"
    using ok by (simp add: ivf_ok_def unat_of_nat)
  then have live: "iv_live_count ix \<noteq> 0" using k(2) by auto
  obtain cells where cells: "probed_cells ix' q params = Some cells" "distinct cells"
    "\<forall>c \<in> set cells. c < length (iv_centroids ix')"
    "length (iv_centroids ix') \<le> unat (qp_nprobe params) \<longrightarrow> mset cells = mset [0..<length (iv_centroids ix')]"
    using probed_cells_ok [OF cache] q same(3) by metis
  let ?sl = "probed_slots ix' cells"
  have inl: "length (iv_inverted_lists ix') = length (iv_centroids ix')"
    "mset (concat (iv_inverted_lists ix')) = mset (live_slots ix)"
    using cache sl by (simp_all add: cache_ok_def)
  have dl: "distinct (concat (iv_inverted_lists ix'))"
    using distinct_live_slots [OF small] inl(2) by (metis mset_eq_imp_distinct_iff)
  have sub: "set ?sl \<subseteq> set (live_slots ix)"
  proof -
    have "set ?sl \<subseteq> set (concat (iv_inverted_lists ix'))"
      using cells(3) inl(1) by (fastforce simp: probed_slots_def)
    then show ?thesis using inl(2) by (metis set_mset_mset)
  qed
  have dist: "distinct ?sl" using distinct_concat_nth [OF dl cells(2)] cells(3) inl(1) by (simp add: probed_slots_def)
  have alive: "s < length (iv_entries ix) \<and> \<not> ie_deleted (iv_entries ix ! s)" if "s \<in> set ?sl" for s
    using that sub set_live_slots [OF small] by blast
  let ?out = "map (\<lambda>s. entry_candidate h ix q (iv_entries ix ! s)) ?sl"
  have scan: "scan_cells h ix' q cells = ?out"
    using scan_cells_slots [of ix' cells h q] alive same by (simp add: entry_candidate_def ivf_dist_def)
  have nan: "no_nan ?out"
  proof -
    have "\<not> f32_isnan (ivf_dist h ix q (ie_vector (iv_entries ix ! s)))" if "s \<in> set ?sl" for s
    proof -
      have "entry_ok (iv_width ix) (iv_entries ix ! s)" using alive [OF that] ok by (simp add: ivf_ok_def)
      then show ?thesis
        using ok q nan_freeD [of h "iv_metric ix" "iv_width ix" q "ie_vector (iv_entries ix ! s)"]
        by (simp add: ivf_dist_def entry_ok_def ivf_ok_def ivf_host_ok_def)
    qed
    then show ?thesis by (simp add: entry_candidate_def)
  qed
  have "inj_on (\<lambda>s. ie_id (iv_entries ix ! s)) (set ?sl)"
    using ok alive unfolding inj_on_def ivf_ok_def ids_ok_def by (metis option.inject)
  then have dids: "distinct (map fst ?out)"
    using dist by (simp add: o_def entry_candidate_def distinct_map)
  have full: "mset ?sl = mset (live_slots ix)"
    if "length (live_entries ix) \<le> unat (qp_nprobe params) \<or>
        iv_requested_nlist ix \<noteq> 0 \<and> iv_requested_nlist ix \<le> qp_nprobe params"
  proof -
    have "length (iv_centroids ix') \<le> unat (qp_nprobe params)"
      using that cache sl nlive same(5) by (auto simp: cache_ok_def word_le_nat_alt)
    then show ?thesis
      using cells(4) mset_concat_cells [of cells "iv_inverted_lists ix'"] inl by (simp add: probed_slots_def)
  qed
  have "ivf_search h ix q k params = Some (take (unat k) (sort_by by_distance_then_id ?out), ix')"
    using k live b ne cells results_sort_defined [OF nan] scan by (simp add: ivf_search_def)
  then show ?thesis using b same nan dids sub full by blast
qed

lemma map_fst_candidates [simp]:
  "map fst (map (\<lambda>s. entry_candidate h ix q (iv_entries ix ! s)) sl) = map (\<lambda>s. ie_id (iv_entries ix ! s)) sl"
  by (simp add: entry_candidate_def)

lemma ivf_contents_slot:
  "ids_ok ix \<Longrightarrow> s < length (iv_entries ix) \<Longrightarrow> \<not> ie_deleted (iv_entries ix ! s) \<Longrightarrow>
   ivf_contents ix (ie_id (iv_entries ix ! s)) = Some (ie_vector (iv_entries ix ! s))"
proof -
  assume "ids_ok ix" "s < length (iv_entries ix)" "\<not> ie_deleted (iv_entries ix ! s)"
  moreover from this have "omap_find (ie_id (iv_entries ix ! s)) (iv_id_to_index ix) = Some s" by (simp add: ids_ok_def)
  ultimately show ?thesis by (simp add: ivf_contents_def)
qed

lemma ivf_contents_cong:
  assumes "iv_entries ix' = iv_entries ix" "iv_id_to_index ix' = iv_id_to_index ix"
  shows "ivf_contents ix' = ivf_contents ix"
  unfolding ivf_contents_def assms ..

lemma ivf_search_ok:
  assumes ok: "ivf_ok h ix" and small: "ivf_slots ix < 2 ^ 31" and q: "length q = iv_width ix" "finite_vec q"
  shows "\<exists>cs ix'. ivf_search h ix q k params = Some (cs, ix') \<and> ivf_ok h ix' \<and> ivf_slots ix' = ivf_slots ix
     \<and> iv_width ix' = iv_width ix \<and> ivf_dist h ix' = ivf_dist h ix \<and> ivf_contents ix' = ivf_contents ix
     \<and> length cs \<le> unat k \<and> distinct (map fst cs)
     \<and> (\<forall>(rid, d) \<in> set cs. \<exists>v. ivf_contents ix rid = Some v \<and> d = ivf_dist h ix q v)"
proof (cases "k = 0 \<or> live_entries ix = []")
  case True
  then have "k = 0 \<or> iv_live_count ix = 0" using ok by (auto simp: ivf_ok_def)
  then show ?thesis using ok by (auto simp: ivf_search_def)
next
  case False
  then have "k \<noteq> 0" "live_entries ix \<noteq> []" by simp_all
  then obtain ix' out sl where s: "ivf_search h ix q k params = Some (take (unat k) (sort_by by_distance_then_id out), ix')"
    "ivf_ok h ix'" and same: "iv_entries ix' = iv_entries ix" "iv_id_to_index ix' = iv_id_to_index ix"
      "iv_dimensionality ix' = iv_dimensionality ix" "iv_metric ix' = iv_metric ix"
    and out: "no_nan out" "distinct (map fst out)" "set sl \<subseteq> set (live_slots ix)"
      "out = map (\<lambda>s. entry_candidate h ix q (iv_entries ix ! s)) sl"
    using ivf_search_answer [OF ok small q, of k params] by blast
  let ?cs = "take (unat k) (sort_by by_distance_then_id out)"
  have "distinct (map fst ?cs)"
  proof -
    have "mset (map fst (sort_by by_distance_then_id out)) = mset (map fst out)" by (simp only: mset_map mset_sort_by)
    then have "distinct (map fst (sort_by by_distance_then_id out))" using out(2) by (metis mset_eq_imp_distinct_iff)
    then show ?thesis by (simp only: take_map [symmetric] distinct_take)
  qed
  moreover have "\<exists>v. ivf_contents ix rid = Some v \<and> d = ivf_dist h ix q v" if "(rid, d) \<in> set ?cs" for rid d
  proof -
    have "(rid, d) \<in> set out" using in_set_takeD [OF that] by (simp only: set_sort_by)
    then obtain s where "s \<in> set sl" "(rid, d) = entry_candidate h ix q (iv_entries ix ! s)"
      unfolding out(4) by (auto simp only: set_map)
    moreover have "ids_ok ix" using ok by (simp add: ivf_ok_def)
    ultimately show ?thesis
      using out(3) set_live_slots [OF small] ivf_contents_slot by (auto simp: entry_candidate_def)
  qed
  moreover have "ivf_dist h ix' = ivf_dist h ix" using same by (simp add: ivf_dist_def)
  ultimately show ?thesis
    using s same ivf_contents_cong [OF same(1,2)] by auto
qed

interpretation ivf: vector_index "ivf_ok h" ivf_slots iv_width "ivf_dist h" ivf_contents
  "\<lambda>ix rid v. Some (ivf_add ix rid v)" ivf_remove "ivf_search h" for h
proof unfold_locales
  fix ix :: ivf_index and rid :: record_id and v
  assume "ivf_ok h ix" "rid \<noteq> []" "length v = iv_width ix" "finite_vec v"
  then show "\<exists>ix'. Some (ivf_add ix rid v) = Some (Inr (), ix') \<and> ivf_ok h ix' \<and> ivf_slots ix' \<le> ivf_slots ix + 1
      \<and> iv_width ix' = iv_width ix \<and> ivf_dist h ix' = ivf_dist h ix \<and> ivf_contents ix' = (ivf_contents ix)(rid \<mapsto> v)"
    using ivf_add_ok by (simp only: option.inject)
qed (use ivf_remove_ok ivf_search_ok in blast)+


section \<open>The reference: brute force\<close>

definition ivf_brute_force :: "host \<Rightarrow> ivf_index \<Rightarrow> f32 list \<Rightarrow> u32 \<Rightarrow> candidate list" where
  "ivf_brute_force h ix q k =
     take (unat k) (sort_by by_distance_then_id (map (entry_candidate h ix q) (live_entries ix)))"

lemma ivf_search_full:
  assumes ok: "ivf_ok h ix" and small: "ivf_slots ix < 2 ^ 31" and q: "length q = iv_width ix" "finite_vec q"
    and all: "length (live_entries ix) \<le> unat (qp_nprobe params) \<or>
      iv_requested_nlist ix \<noteq> 0 \<and> iv_requested_nlist ix \<le> qp_nprobe params"
  shows "map_option fst (ivf_search h ix q k params) = Some (ivf_brute_force h ix q k)"
proof (cases "k = 0 \<or> live_entries ix = []")
  case True
  then have "k = 0 \<or> iv_live_count ix = 0" using ok by (auto simp: ivf_ok_def)
  then show ?thesis using True by (auto simp: ivf_search_def ivf_brute_force_def)
next
  case False
  then have "k \<noteq> 0" "live_entries ix \<noteq> []" by simp_all
  then obtain ix' out sl where s: "ivf_search h ix q k params = Some (take (unat k) (sort_by by_distance_then_id out), ix')"
    and out: "no_nan out" "distinct (map fst out)"
      "out = map (\<lambda>s. entry_candidate h ix q (iv_entries ix ! s)) sl" "mset sl = mset (live_slots ix)"
    using ivf_search_answer [OF ok small q, of k params] all by blast
  have "out = map (entry_candidate h ix q) (map ((!) (iv_entries ix)) sl)" unfolding out(3) by simp
  then have "mset out = image_mset (entry_candidate h ix q) (image_mset ((!) (iv_entries ix)) (mset sl))"
    by (simp only: mset_map)
  also have "\<dots> = mset (map (entry_candidate h ix q) (live_entries ix))"
    unfolding out(4) mset_map [symmetric] live_slots_entries [OF small] ..
  finally have "sort_by by_distance_then_id out = sort_by by_distance_then_id (map (entry_candidate h ix q) (live_entries ix))"
    by (rule results_sort_unique [OF out(1,2)])
  then show ?thesis by (simp only: s ivf_brute_force_def option.map fst_conv)
qed


section \<open>A concrete index\<close>

definition demo_ivf :: ivf_index where
  "demo_ivf = snd (ivf_add (snd (ivf_add (snd (ivf_add
      (new_ivf 1 Euclidean \<lparr>ip_m = 16, ip_ef_construction = 200, ip_nlist = 2, ip_seed = 7\<rparr>)
      ''a'' [f32_one])) ''b'' [f32_two])) ''c'' [f32_zero])"

lemma demo_ivf_ok: "ivf_ok plain_host demo_ivf" "ivf_slots demo_ivf \<le> 3" "iv_width demo_ivf = 1"
proof -
  let ?p = "\<lparr>ip_m = 16, ip_ef_construction = 200, ip_nlist = 2, ip_seed = 7\<rparr>"
  have "shuffle_permutes plain_host" by (simp add: shuffle_permutes_def plain_host_def)
  moreover have "nan_free plain_host Euclidean (unat (1::u32))"
    by (rule nan_free_scalar) (simp_all add: plain_host_def)
  moreover have "\<forall>n < 2 ^ 31. partition_count (ip_nlist ?p) n \<noteq> None" by (simp add: partition_count_def)
  ultimately have n: "ivf_ok plain_host (new_ivf 1 Euclidean ?p)" "ivf_slots (new_ivf 1 Euclidean ?p) = 0"
    "iv_width (new_ivf 1 Euclidean ?p) = 1"
    using new_ivf_ok [where d = 1] by simp_all
  have fin: "finite_vec [f32_one]" "finite_vec [f32_two]" "finite_vec [f32_zero]" by ((simp, code_simp)+)
  obtain i1 where 1: "ivf_add (new_ivf 1 Euclidean ?p) ''a'' [f32_one] = (Inr (), i1)" "ivf_ok plain_host i1"
    "ivf_slots i1 \<le> 1" "iv_width i1 = 1"
    using ivf_add_ok [OF n(1), of "''a''" "[f32_one]"] n fin by auto
  obtain i2 where 2: "ivf_add i1 ''b'' [f32_two] = (Inr (), i2)" "ivf_ok plain_host i2"
    "ivf_slots i2 \<le> 2" "iv_width i2 = 1"
    using ivf_add_ok [OF 1(2), of "''b''" "[f32_two]"] 1 fin by auto
  obtain i3 where 3: "ivf_add i2 ''c'' [f32_zero] = (Inr (), i3)" "ivf_ok plain_host i3"
    "ivf_slots i3 \<le> 3" "iv_width i3 = 1"
    using ivf_add_ok [OF 2(2), of "''c''" "[f32_zero]"] 2 fin by auto
  have "demo_ivf = i3" unfolding demo_ivf_def 1 2 3 snd_conv ..
  then show "ivf_ok plain_host demo_ivf" "ivf_slots demo_ivf \<le> 3" "iv_width demo_ivf = 1" using 3 by simp_all
qed


section \<open>Properties\<close>

text \<open>
  C20: a search of the inverted-file index that probes at least as many cells as there are live
  records, or as many as an explicitly requested number of cells, is exact: it returns the first
  \<open>k\<close> of the brute-force ranking of all live records, whatever the shuffle and however the
  iterations assigned the records.
\<close>

theorem ivf_full_probe_is_exact:
  assumes "ivf_ok h ix" "ivf_slots ix < 2 ^ 31" "length q = iv_width ix" "finite_vec q"
    "length (live_entries ix) \<le> unat (qp_nprobe params) \<or>
      iv_requested_nlist ix \<noteq> 0 \<and> iv_requested_nlist ix \<le> qp_nprobe params"
  shows "map_option fst (ivf_search h ix q k params) = Some (ivf_brute_force h ix q k)"
  by (rule ivf_search_full [OF assms])

theorem ivf_full_probe_is_exact_witness:
  "map_option fst (ivf_search plain_host demo_ivf [f32_two] 2 \<lparr>qp_ef_search = 50, qp_nprobe = 3\<rparr>)
     = Some (ivf_brute_force plain_host demo_ivf [f32_two] 2)"
proof (rule ivf_full_probe_is_exact)
  show "finite_vec [f32_two]" by (simp; code_simp)
  show "length (live_entries demo_ivf) \<le> unat (qp_nprobe \<lparr>qp_ef_search = 50, qp_nprobe = 3\<rparr>) \<or>
      iv_requested_nlist demo_ivf \<noteq> 0 \<and> iv_requested_nlist demo_ivf \<le> qp_nprobe \<lparr>qp_ef_search = 50, qp_nprobe = 3\<rparr>"
    using le_trans [OF length_filter_le demo_ivf_ok(2)] by simp
qed (use demo_ivf_ok in simp_all)

text \<open>
  C29: building the partitions of an index never leaves its vectors, and the result is a clean
  cache: as many inverted lists as centroids, every live slot in exactly one list, no tombstone in
  any, at most as many cells as live records or as requested; records and identifiers are untouched.
\<close>

theorem ivf_partition_invariant:
  assumes "ivf_ok h ix" "ivf_slots ix < 2 ^ 31"
  shows "\<exists>ix'. ensure_partitions_built h ix = Some ix' \<and> cache_ok ix' \<and> \<not> iv_dirty ix'
     \<and> iv_entries ix' = iv_entries ix \<and> iv_id_to_index ix' = iv_id_to_index ix"
  using ensure_partitions_ok [OF assms] unfolding ivf_ok_def by blast

theorem ivf_partition_invariant_witness:
  "\<exists>ix'. ensure_partitions_built plain_host demo_ivf = Some ix' \<and> cache_ok ix' \<and> \<not> iv_dirty ix'
     \<and> iv_entries ix' = iv_entries demo_ivf \<and> iv_id_to_index ix' = iv_id_to_index demo_ivf"
  by (rule ivf_partition_invariant) (use demo_ivf_ok in simp_all)

text \<open>
  C30: the inverted-file index implements a finite map from identifiers to vectors: adding a valid
  record overwrites its identifier's entry (reviving a tombstone), removing answers NotFound exactly
  for an absent identifier and drops the entry otherwise, and both keep the index well formed.
\<close>

theorem ivf_refines_map:
  assumes "ivf_ok h ix" "rid \<noteq> []" "length v = iv_width ix" "finite_vec v"
  shows "(\<exists>ix'. ivf_add ix rid v = (Inr (), ix') \<and> ivf_ok h ix' \<and> ivf_contents ix' = (ivf_contents ix)(rid \<mapsto> v)) \<and>
    (\<exists>ix'. ivf_remove ix rid = (if ivf_contents ix rid = None then Inl NotFound else Inr (), ix') \<and> ivf_ok h ix'
      \<and> ivf_contents ix' = (ivf_contents ix)(rid := None))"
  using ivf_add_ok [OF assms] ivf.remove_ok [OF assms(1)] by blast

theorem ivf_refines_map_witness:
  "(\<exists>ix'. ivf_add demo_ivf ''b'' [f32_one] = (Inr (), ix') \<and> ivf_ok plain_host ix'
      \<and> ivf_contents ix' = (ivf_contents demo_ivf)(''b'' \<mapsto> [f32_one])) \<and>
   (\<exists>ix'. ivf_remove demo_ivf ''b'' = (if ivf_contents demo_ivf ''b'' = None then Inl NotFound else Inr (), ix')
      \<and> ivf_ok plain_host ix' \<and> ivf_contents ix' = (ivf_contents demo_ivf)(''b'' := None))"
proof (rule ivf_refines_map)
  show "finite_vec [f32_one]" by (simp; code_simp)
qed (use demo_ivf_ok in simp_all)

end
