(* ===== verification/Hnsw.thy ===== *)
theory Hnsw
  imports Index_Spec Bytes
begin

text \<open>
  \<open>hnsw_index.cpp\<close>: the hierarchical navigable small-world graph.  Nodes are appended and
  tombstoned, never moved.  Every access to a node or to a layer of its adjacency is checked:
  \<open>None\<close> is an access out of bounds (or another undefined behaviour), and the main result is that
  no operation of a well-formed index ever is.  The n-th draw of the level generator and the
  logarithm come from the host.
\<close>

section \<open>State\<close>

record hnsw_node =
  hn_id :: record_id
  hn_vector :: "f32 list"
  hn_top_layer :: int
  hn_deleted :: bool
  hn_neighbors :: "nat list list"

record hnsw_index =
  hx_dimensionality :: u32
  hx_metric :: distance_metric
  hx_max_neighbors_upper :: u32
  hx_max_neighbors_layer0 :: u32
  hx_ef_construction :: u32
  hx_level_scale :: f64
  hx_rng_seed :: u64
  hx_nodes :: "hnsw_node list"
  hx_id_to_internal :: "(record_id \<times> nat) list"
  hx_entry_point :: int
  hx_max_level :: int
  hx_live_count :: u64
  hx_draws :: nat

definition new_hnsw :: "host \<Rightarrow> u32 \<Rightarrow> distance_metric \<Rightarrow> index_params \<Rightarrow> hnsw_index" where
  "new_hnsw h dm metric params =
     (let upper = (if ip_m params < 2 then 2 else ip_m params) in
      \<lparr>hx_dimensionality = dm, hx_metric = metric,
       hx_max_neighbors_upper = upper, hx_max_neighbors_layer0 = upper * 2,
       hx_ef_construction = (if ip_ef_construction params < 1 then 1 else ip_ef_construction params),
       hx_level_scale = f64_div f64_one (h_log h (f64_of_nat (unat upper))),
       hx_rng_seed = ip_seed params, hx_nodes = [], hx_id_to_internal = [], hx_entry_point = -1,
       hx_max_level = -1, hx_live_count = 0, hx_draws = 0\<rparr>)"

definition max_neighbors_for_layer :: "hnsw_index \<Rightarrow> nat \<Rightarrow> u32" where
  "max_neighbors_for_layer ix layer =
     (if layer = 0 then hx_max_neighbors_layer0 ix else hx_max_neighbors_upper ix)"


section \<open>Reading the graph\<close>

definition distance_to :: "host \<Rightarrow> hnsw_index \<Rightarrow> f32 list \<Rightarrow> nat \<Rightarrow> f32 option" where
  "distance_to h ix q n =
     map_option (\<lambda>node. distance_or_inf (h_calculator h) (hx_metric ix) q (hn_vector node)) (elem_at (hx_nodes ix) n)"

definition node_distance :: "host \<Rightarrow> hnsw_index \<Rightarrow> nat \<Rightarrow> nat \<Rightarrow> f32 option" where
  "node_distance h ix a b =
     (case elem_at (hx_nodes ix) a of None \<Rightarrow> None | Some node \<Rightarrow> distance_to h ix (hn_vector node) b)"

text \<open>\<open>nodes_[n].neighbors[layer]\<close>.\<close>

definition neighbors_at :: "hnsw_index \<Rightarrow> nat \<Rightarrow> nat \<Rightarrow> nat list option" where
  "neighbors_at ix n layer =
     (case elem_at (hx_nodes ix) n of None \<Rightarrow> None | Some node \<Rightarrow> elem_at (hn_neighbors node) layer)"

definition set_neighbors :: "hnsw_index \<Rightarrow> nat \<Rightarrow> nat \<Rightarrow> nat list \<Rightarrow> hnsw_index" where
  "set_neighbors ix n layer nbs =
     (let node = hx_nodes ix ! n in
      ix\<lparr>hx_nodes := (hx_nodes ix)[n := node\<lparr>hn_neighbors := (hn_neighbors node)[layer := nbs]\<rparr>]\<rparr>)"


section \<open>Neighbour selection\<close>

definition nearer :: "f32 \<times> nat \<Rightarrow> f32 \<times> nat \<Rightarrow> bool" where
  "nearer x y = (if \<not> f32_eq (fst x) (fst y) then f32_lt (fst x) (fst y) else snd x < snd y)"

text \<open>Is \<open>e\<close> at most as far from an accepted neighbour as from the base element?\<close>

fun redundant :: "host \<Rightarrow> hnsw_index \<Rightarrow> nat \<Rightarrow> f32 \<Rightarrow> nat list \<Rightarrow> bool option" where
  "redundant h ix e d [] = Some False"
| "redundant h ix e d (r # rs) =
     (case node_distance h ix e r of
        None \<Rightarrow> None
      | Some x \<Rightarrow> if f32_le x d then Some True else redundant h ix e d rs)"

fun select_loop :: "host \<Rightarrow> hnsw_index \<Rightarrow> nat \<Rightarrow> (f32 \<times> nat) list \<Rightarrow> nat list \<Rightarrow> nat list option" where
  "select_loop h ix m [] selected = Some selected"
| "select_loop h ix m ((d, e) # cands) selected =
     (if m \<le> length selected then Some selected
      else case redundant h ix e d selected of
        None \<Rightarrow> None
      | Some red \<Rightarrow> select_loop h ix m cands (if red then selected else selected @ [e]))"

definition select_neighbors_heuristic ::
  "host \<Rightarrow> hnsw_index \<Rightarrow> (f32 \<times> nat) list \<Rightarrow> u32 \<Rightarrow> nat list option" where
  "select_neighbors_heuristic h ix candidates m =
     (case std_sort nearer candidates of
        None \<Rightarrow> undefined_behaviour
      | Some cands \<Rightarrow> select_loop h ix (unat m) cands [])"


section \<open>Level sampling\<close>

text \<open>\<open>static_cast<int>\<close> of a double: truncation towards zero, undefined out of range.\<close>

definition f64_to_int :: "f64 \<Rightarrow> int option" where
  "f64_to_int a =
     (let x = dec64 a; n = int (sig F64 (snd x) * 2 ^ expo F64 (snd x) div 2 ^ funit F64);
          v = (if fst x then - n else n) in
      if is_finm F64 x \<and> - (2 ^ 31) \<le> v \<and> v < 2 ^ 31 then Some v else undefined_behaviour)"

definition f64_min_normal :: f64 where "f64_min_normal = 0x0010000000000000"

definition level_of_draw :: "host \<Rightarrow> f64 \<Rightarrow> f64 \<Rightarrow> int option" where
  "level_of_draw h scale u =
     (let u' = (if f64_le u f64_zero then f64_min_normal else u)
      in f64_to_int (f64_mul (f64_neg (h_log h u')) scale))"

definition random_top_layer :: "host \<Rightarrow> hnsw_index \<Rightarrow> (int \<times> hnsw_index) option" where
  "random_top_layer h ix =
     map_option (\<lambda>level. (level, ix\<lparr>hx_draws := hx_draws ix + 1\<rparr>))
       (level_of_draw h (hx_level_scale ix) (h_draw h (hx_rng_seed ix) (hx_draws ix)))"


section \<open>Greedy descent\<close>

text \<open>One pass over the neighbours of the node the pass began at.\<close>

fun greedy_scan :: "host \<Rightarrow> hnsw_index \<Rightarrow> f32 list \<Rightarrow> nat list \<Rightarrow> nat \<times> f32 \<times> bool \<Rightarrow> (nat \<times> f32 \<times> bool) option" where
  "greedy_scan h ix q [] st = Some st"
| "greedy_scan h ix q (nb # nbs) (current, current_dist, improved) =
     (case distance_to h ix q nb of
        None \<Rightarrow> None
      | Some d \<Rightarrow> greedy_scan h ix q nbs
          (if f32_lt d current_dist then (nb, d, True) else (current, current_dist, improved)))"

text \<open>Each improving pass lowers the order key of the current distance, so the descent ends.\<close>

lemma greedy_scan_progress:
  "greedy_scan h ix q nbs (cur, d, imp) = Some (cur', d', imp') \<Longrightarrow>
   cur' = cur \<and> d' = d \<and> imp' = imp \<or> imp' \<and> fkey (dec32 d') < fkey (dec32 d)"
proof (induction nbs arbitrary: cur d imp)
  case (Cons nb nbs)
  then obtain x where x: "distance_to h ix q nb = Some x" by (auto split: option.splits)
  show ?case
  proof (cases "f32_lt x d")
    case True
    then have lt: "fkey (dec32 x) < fkey (dec32 d)" by (simp add: f32_lt_def fp_lt_def)
    have "greedy_scan h ix q nbs (nb, x, True) = Some (cur', d', imp')" using Cons.prems x True by simp
    then have "cur' = nb \<and> d' = x \<and> imp' = True \<or> imp' \<and> fkey (dec32 d') < fkey (dec32 x)" by (rule Cons.IH)
    then show ?thesis using lt by auto
  next
    case False
    then show ?thesis using Cons x by simp
  qed
qed simp

function greedy_loop :: "host \<Rightarrow> hnsw_index \<Rightarrow> f32 list \<Rightarrow> nat \<Rightarrow> nat \<Rightarrow> f32 \<Rightarrow> nat option" where
  "greedy_loop h ix q layer current current_dist =
     (case neighbors_at ix current layer of
        None \<Rightarrow> None
      | Some nbs \<Rightarrow>
          (case greedy_scan h ix q nbs (current, current_dist, False) of
             None \<Rightarrow> None
           | Some (current', current_dist', improved) \<Rightarrow>
               if improved then greedy_loop h ix q layer current' current_dist' else Some current'))"
  by pat_completeness auto

termination
proof (relation "measure (\<lambda>(h, ix, q, layer, cur, d). nat (fkey (dec32 d) + 2 ^ 31))")
  fix h ix q layer cur d nbs and a :: "nat \<times> f32 \<times> bool" and cur' b d' imp'
  assume s: "greedy_scan h ix q nbs (cur, d, False) = Some a" "(cur', b) = a" "(d', imp') = b" and "imp'"
  then have "fkey (dec32 d') < fkey (dec32 d)"
    using greedy_scan_progress [of h ix q nbs cur d False cur' d' imp'] by auto
  then show "((h, ix, q, layer, cur', d'), h, ix, q, layer, cur, d)
      \<in> measure (\<lambda>(h, ix, q, layer, cur, d). nat (fkey (dec32 d) + 2 ^ 31))"
    using fkey_lower [of d'] by simp
qed simp

declare greedy_loop.simps [simp del]

definition greedy_descend :: "host \<Rightarrow> hnsw_index \<Rightarrow> f32 list \<Rightarrow> nat \<Rightarrow> nat \<Rightarrow> nat option" where
  "greedy_descend h ix q entry layer =
     (case distance_to h ix q entry of
        None \<Rightarrow> None
      | Some d \<Rightarrow> greedy_loop h ix q layer entry d)"

text \<open>The descent of \<open>add\<close> and \<open>search\<close>: the layers \<open>high, \<dots>, low + 1\<close>, topmost first.\<close>

definition layers_down :: "int \<Rightarrow> int \<Rightarrow> nat list" where
  "layers_down high low = rev [nat (low + 1)..<nat (high + 1)]"

definition descend :: "host \<Rightarrow> hnsw_index \<Rightarrow> f32 list \<Rightarrow> nat list \<Rightarrow> nat \<Rightarrow> nat option" where
  "descend h ix q layers current = ofold (\<lambda>layer cur. greedy_descend h ix q cur layer) layers current"


section \<open>Best-first search of a layer\<close>

text \<open>
  The state: the min-heap of candidates, the max-heap of results (both in the order they pop) and
  the visited set.
\<close>

type_synonym layer_state = "(f32 \<times> nat) list \<times> (f32 \<times> nat) list \<times> nat list"

definition farther :: "f32 \<times> nat \<Rightarrow> f32 \<times> nat \<Rightarrow> bool" where
  "farther x y = pair_less y x"

text \<open>\<open>result.size() < ef || d < result.top().first\<close>.\<close>

definition admits :: "nat \<Rightarrow> (f32 \<times> nat) list \<Rightarrow> f32 \<Rightarrow> bool option" where
  "admits ef res d =
     (if length res < ef then Some True else map_option (\<lambda>t. f32_lt d (fst t)) (elem_at res 0))"

definition push_both :: "(f32 \<times> nat) \<Rightarrow> (f32 \<times> nat) list \<Rightarrow> (f32 \<times> nat) list \<Rightarrow>
    ((f32 \<times> nat) list \<times> (f32 \<times> nat) list) option" where
  "push_both x cand res =
     (case pq_push pair_less x cand of
        None \<Rightarrow> undefined_behaviour
      | Some cand' \<Rightarrow> map_option (\<lambda>res'. (cand', res')) (pq_push farther x res))"

definition visit :: "host \<Rightarrow> hnsw_index \<Rightarrow> f32 list \<Rightarrow> nat \<Rightarrow> nat \<Rightarrow> layer_state \<Rightarrow> layer_state option" where
  "visit h ix q ef nb st =
     (case st of (cand, res, visited) \<Rightarrow>
        if nb \<in> set visited then Some st
        else case distance_to h ix q nb of
          None \<Rightarrow> None
        | Some d \<Rightarrow>
            (case admits ef res d of
               None \<Rightarrow> undefined_behaviour
             | Some False \<Rightarrow> Some (cand, res, nb # visited)
             | Some True \<Rightarrow>
                 map_option (\<lambda>(cand', res'). (cand', if ef < length res' then tl res' else res', nb # visited))
                   (push_both (d, nb) cand res)))"

definition layer_size :: "hnsw_index \<Rightarrow> nat list \<Rightarrow> nat" where
  "layer_size ix visited = card ({..<length (hx_nodes ix)} - set visited)"

lemma visit_measure:
  assumes "visit h ix q ef nb (c, r, v) = Some (c', r', v')"
  shows "layer_size ix v' + length c' \<le> layer_size ix v + length c"
proof (cases "nb \<in> set v")
  case True
  then show ?thesis using assms by (simp add: visit_def)
next
  case False
  then obtain d where d: "distance_to h ix q nb = Some d" using assms by (auto simp: visit_def split: option.splits)
  then have "nb < length (hx_nodes ix)" by (auto simp: distance_to_def elem_at_eq_Some)
  then have "layer_size ix (nb # v) < layer_size ix v"
    unfolding layer_size_def using False by (intro psubset_card_mono) auto
  moreover have "v' = nb # v" "length c' \<le> Suc (length c)"
    using assms False d
    by (auto simp: visit_def push_both_def pq_push_def split: option.splits bool.splits if_splits)
  ultimately show ?thesis by simp
qed

lemma visits_measure:
  "ofold (visit h ix q ef) nbs (c, r, v) = Some (c', r', v') \<Longrightarrow>
   layer_size ix v' + length c' \<le> layer_size ix v + length c"
proof (induction nbs arbitrary: c r v)
  case (Cons nb nbs)
  then obtain c1 r1 v1 where "visit h ix q ef nb (c, r, v) = Some (c1, r1, v1)"
    "ofold (visit h ix q ef) nbs (c1, r1, v1) = Some (c', r', v')" by (auto split: option.splits)
  then show ?case using visit_measure Cons.IH by (meson le_trans)
qed simp

function explore :: "host \<Rightarrow> hnsw_index \<Rightarrow> f32 list \<Rightarrow> nat \<Rightarrow> nat \<Rightarrow> layer_state \<Rightarrow> (f32 \<times> nat) list option" where
  "explore h ix q ef layer ([], res, visited) = Some res"
| "explore h ix q ef layer (nearest # cand, res, visited) =
     (if res \<noteq> [] \<and> f32_lt (fst (hd res)) (fst nearest) \<and> ef \<le> length res then Some res
      else case neighbors_at ix (snd nearest) layer of
        None \<Rightarrow> None
      | Some nbs \<Rightarrow>
          (case ofold (visit h ix q ef) nbs (cand, res, visited) of
             None \<Rightarrow> None
           | Some st \<Rightarrow> explore h ix q ef layer st))"
  by pat_completeness auto

termination
proof (relation "measure (\<lambda>(h, ix, q, ef, layer, c, r, v). layer_size ix v + length c)")
  fix h ix q ef layer and nearest :: "f32 \<times> nat" and cand res visited nbs and st :: layer_state
  assume "ofold (visit h ix q ef) nbs (cand, res, visited) = Some st"
  then show "((h, ix, q, ef, layer, st), h, ix, q, ef, layer, nearest # cand, res, visited)
      \<in> measure (\<lambda>(h, ix, q, ef, layer, c, r, v). layer_size ix v + length c)"
    using visits_measure [of h ix q ef nbs cand res visited] by (cases st) fastforce
qed simp

declare explore.simps [simp del]

definition seed_entry :: "host \<Rightarrow> hnsw_index \<Rightarrow> f32 list \<Rightarrow> nat \<Rightarrow> layer_state \<Rightarrow> layer_state option" where
  "seed_entry h ix q ep st =
     (case st of (cand, res, visited) \<Rightarrow>
        case distance_to h ix q ep of
          None \<Rightarrow> None
        | Some d \<Rightarrow> map_option (\<lambda>(cand', res'). (cand', res', ep # visited)) (push_both (d, ep) cand res))"

definition search_layer ::
  "host \<Rightarrow> hnsw_index \<Rightarrow> f32 list \<Rightarrow> nat list \<Rightarrow> u32 \<Rightarrow> nat \<Rightarrow> (f32 \<times> nat) list option" where
  "search_layer h ix q entry_points ef layer =
     (case ofold (seed_entry h ix q) entry_points ([], [], []) of
        None \<Rightarrow> None
      | Some (cand, res, visited) \<Rightarrow>
          map_option rev (explore h ix q (unat ef) layer (cand, drop (length res - unat ef) res, visited)))"


section \<open>Linking a new node\<close>

definition connect_one :: "host \<Rightarrow> nat \<Rightarrow> nat \<Rightarrow> u32 \<Rightarrow> nat \<Rightarrow> hnsw_index \<Rightarrow> hnsw_index option" where
  "connect_one h node_id layer limit other ix =
     (if other = node_id then Some ix
      else case neighbors_at ix node_id layer of
        None \<Rightarrow> None
      | Some own \<Rightarrow>
          let ix1 = set_neighbors ix node_id layer (own @ [other]) in
          (case neighbors_at ix1 other layer of
             None \<Rightarrow> None
           | Some others \<Rightarrow>
               let other_list = others @ [node_id] in
               if length other_list \<le> unat limit then Some (set_neighbors ix1 other layer other_list)
               else case ofold (\<lambda>nb cs. map_option (\<lambda>d. cs @ [(d, nb)]) (node_distance h ix1 other nb)) other_list [] of
                 None \<Rightarrow> None
               | Some cands \<Rightarrow>
                   map_option (set_neighbors ix1 other layer) (select_neighbors_heuristic h ix1 cands limit)))"

definition connect_node :: "host \<Rightarrow> hnsw_index \<Rightarrow> nat \<Rightarrow> (f32 \<times> nat) list \<Rightarrow> nat \<Rightarrow> hnsw_index option" where
  "connect_node h ix node_id candidates layer =
     (let limit = max_neighbors_for_layer ix layer in
      case select_neighbors_heuristic h ix candidates limit of
        None \<Rightarrow> None
      | Some selected \<Rightarrow> ofold (connect_one h node_id layer limit) selected ix)"


section \<open>Operations\<close>

text \<open>One layer of the linking loop: explore, select and connect, and move to the nearest found.\<close>

definition link_layer :: "host \<Rightarrow> f32 list \<Rightarrow> nat \<Rightarrow> nat \<Rightarrow> hnsw_index \<times> nat \<Rightarrow> (hnsw_index \<times> nat) option" where
  "link_layer h q node_id layer st =
     (case st of (ix, current) \<Rightarrow>
        case search_layer h ix q [current] (hx_ef_construction ix) layer of
          None \<Rightarrow> None
        | Some found \<Rightarrow>
            map_option (\<lambda>ix'. (ix', if found = [] then current else snd (hd found)))
              (connect_node h ix node_id found layer))"

text \<open>\<open>static_cast<int>\<close> of a 32-bit number.\<close>

definition int_of_u32 :: "nat \<Rightarrow> int" where
  "int_of_u32 n = (if n < 2 ^ 31 then int n else int n - 2 ^ 32)"

definition append_node :: "hnsw_index \<Rightarrow> record_id \<Rightarrow> f32 list \<Rightarrow> int \<Rightarrow> hnsw_index" where
  "append_node ix rid vec level =
     ix\<lparr>hx_nodes := hx_nodes ix @ [\<lparr>hn_id = rid, hn_vector = vec, hn_top_layer = level, hn_deleted = False,
                                    hn_neighbors = replicate (nat (level + 1)) []\<rparr>],
        hx_id_to_internal := (rid, length (hx_nodes ix) mod 2 ^ 32) # hx_id_to_internal ix,
        hx_live_count := hx_live_count ix + 1\<rparr>"

definition link_node :: "host \<Rightarrow> hnsw_index \<Rightarrow> nat \<Rightarrow> f32 list \<Rightarrow> int \<Rightarrow> hnsw_index option" where
  "link_node h ix node_id q level =
     (if hx_entry_point ix < 0
      then Some (ix\<lparr>hx_entry_point := int_of_u32 node_id, hx_max_level := level\<rparr>)
      else case descend h ix q (layers_down (hx_max_level ix) level) (nat (hx_entry_point ix)) of
        None \<Rightarrow> None
      | Some current \<Rightarrow>
          map_option (\<lambda>(ix', _).
              if hx_max_level ix' < level
              then ix'\<lparr>hx_entry_point := int_of_u32 node_id, hx_max_level := level\<rparr> else ix')
            (ofold (link_layer h q node_id) (layers_down (min level (hx_max_level ix)) (-1)) (ix, current)))"

definition hnsw_add :: "host \<Rightarrow> hnsw_index \<Rightarrow> record_id \<Rightarrow> f32 list \<Rightarrow> (status \<times> hnsw_index) option" where
  "hnsw_add h ix rid vec =
     (if rid = [] then Some (Inl InvalidIdentifier, ix)
      else if length vec \<noteq> unat (hx_dimensionality ix) then Some (Inl DimensionMismatch, ix)
      else case omap_find rid (hx_id_to_internal ix) of
        Some n \<Rightarrow>
          map_option (\<lambda>node. (Inr (),
              ix\<lparr>hx_nodes := (hx_nodes ix)[n := node\<lparr>hn_vector := vec, hn_deleted := False\<rparr>],
                 hx_live_count := (if hn_deleted node then hx_live_count ix + 1 else hx_live_count ix)\<rparr>))
            (elem_at (hx_nodes ix) n)
      | None \<Rightarrow>
          (case random_top_layer h ix of
             None \<Rightarrow> undefined_behaviour
           | Some (level, ix1) \<Rightarrow>
               if level < -1 then undefined_behaviour
               else map_option (\<lambda>ix2. (Inr (), ix2))
                 (link_node h (append_node ix1 rid vec level) (length (hx_nodes ix) mod 2 ^ 32) vec level)))"

definition hnsw_remove :: "hnsw_index \<Rightarrow> record_id \<Rightarrow> status \<times> hnsw_index" where
  "hnsw_remove ix rid =
     (case omap_find rid (hx_id_to_internal ix) of
        None \<Rightarrow> (Inl NotFound, ix)
      | Some n \<Rightarrow>
          let node = hx_nodes ix ! n in
          if hn_deleted node then (Inl NotFound, ix)
          else (Inr (), ix\<lparr>hx_nodes := (hx_nodes ix)[n := node\<lparr>hn_deleted := True\<rparr>],
                           hx_live_count := hx_live_count ix - 1\<rparr>))"

definition keep_live :: "hnsw_index \<Rightarrow> f32 \<times> nat \<Rightarrow> candidate list \<Rightarrow> candidate list option" where
  "keep_live ix item out =
     map_option (\<lambda>node. if hn_deleted node then out else out @ [(hn_id node, fst item)]) (elem_at (hx_nodes ix) (snd item))"

definition search_breadth :: "query_params \<Rightarrow> u32 \<Rightarrow> u32" where
  "search_breadth params k = max (if qp_ef_search params < 1 then 1 else qp_ef_search params) k"

definition hnsw_search ::
  "host \<Rightarrow> hnsw_index \<Rightarrow> f32 list \<Rightarrow> u32 \<Rightarrow> query_params \<Rightarrow> (candidate list \<times> hnsw_index) option" where
  "hnsw_search h ix q k params =
     (if hx_entry_point ix < 0 \<or> k = 0 \<or> hx_live_count ix = 0 then Some ([], ix)
      else case descend h ix q (layers_down (hx_max_level ix) 0) (nat (hx_entry_point ix)) of
        None \<Rightarrow> None
      | Some current \<Rightarrow>
          (case search_layer h ix q [current] (search_breadth params k) 0 of
             None \<Rightarrow> None
           | Some found \<Rightarrow>
               (case ofold (keep_live ix) found [] of
                  None \<Rightarrow> None
                | Some out \<Rightarrow>
                    map_option (\<lambda>sorted. (take (unat k) sorted, ix)) (std_sort by_distance_then_id out))))"

definition hnsw_size :: "hnsw_index \<Rightarrow> u64" where "hnsw_size ix = hx_live_count ix"


section \<open>Layers and distances\<close>

text \<open>Node \<open>n\<close> exists and has a list for layer \<open>l\<close>.\<close>

definition has_layer :: "hnsw_index \<Rightarrow> nat \<Rightarrow> nat \<Rightarrow> bool" where
  "has_layer ix l n \<longleftrightarrow> n < length (hx_nodes ix) \<and> l < length (hn_neighbors (hx_nodes ix ! n))"

abbreviation nbs :: "hnsw_index \<Rightarrow> nat \<Rightarrow> nat \<Rightarrow> nat list" where
  "nbs ix n l \<equiv> hn_neighbors (hx_nodes ix ! n) ! l"

definition graph_closed :: "hnsw_index \<Rightarrow> bool" where
  "graph_closed ix \<longleftrightarrow> (\<forall>l n. has_layer ix l n \<longrightarrow> (\<forall>nb \<in> set (nbs ix n l). has_layer ix l nb))"

definition qdist :: "host \<Rightarrow> hnsw_index \<Rightarrow> f32 list \<Rightarrow> nat \<Rightarrow> f32" where
  "qdist h ix q n = distance_or_inf (h_calculator h) (hx_metric ix) q (hn_vector (hx_nodes ix ! n))"

definition numeric_query :: "host \<Rightarrow> hnsw_index \<Rightarrow> f32 list \<Rightarrow> bool" where
  "numeric_query h ix q \<longleftrightarrow> (\<forall>n < length (hx_nodes ix). \<not> f32_isnan (qdist h ix q n))"

lemma has_layer_node: "has_layer ix l n \<Longrightarrow> n < length (hx_nodes ix)"
  by (simp add: has_layer_def)

lemma has_layer_down: "has_layer ix l n \<Longrightarrow> l' \<le> l \<Longrightarrow> has_layer ix l' n"
  by (simp add: has_layer_def)

lemma graph_closedD: "graph_closed ix \<Longrightarrow> has_layer ix l n \<Longrightarrow> nb \<in> set (nbs ix n l) \<Longrightarrow> has_layer ix l nb"
  by (simp add: graph_closed_def)

lemma distance_to_defined: "n < length (hx_nodes ix) \<Longrightarrow> distance_to h ix q n = Some (qdist h ix q n)"
  by (simp add: distance_to_def qdist_def)

lemma neighbors_at_defined: "has_layer ix l n \<Longrightarrow> neighbors_at ix n l = Some (nbs ix n l)"
  by (simp add: has_layer_def neighbors_at_def)

lemma node_distance_defined:
  "a < length (hx_nodes ix) \<Longrightarrow> b < length (hx_nodes ix) \<Longrightarrow>
   node_distance h ix a b = Some (qdist h ix (hn_vector (hx_nodes ix ! a)) b)"
  by (simp add: node_distance_def distance_to_defined)


section \<open>Greedy descent stays in the layer and ends in a local minimum\<close>

lemma greedy_scan_ok:
  assumes "\<forall>nb \<in> set xs. has_layer ix l nb" "has_layer ix l cur"
  shows "\<exists>cur' imp'. greedy_scan h ix q xs (cur, qdist h ix q cur, imp) = Some (cur', qdist h ix q cur', imp')
     \<and> has_layer ix l cur'
     \<and> (\<not> imp' \<longrightarrow> cur' = cur \<and> \<not> imp \<and> (\<forall>nb \<in> set xs. \<not> f32_lt (qdist h ix q nb) (qdist h ix q cur)))"
  using assms
proof (induction xs arbitrary: cur imp)
  case (Cons nb xs)
  have d: "distance_to h ix q nb = Some (qdist h ix q nb)"
    using Cons.prems(1) by (intro distance_to_defined) (simp add: has_layer_def)
  show ?case
  proof (cases "f32_lt (qdist h ix q nb) (qdist h ix q cur)")
    case True
    obtain cur' imp' where "greedy_scan h ix q xs (nb, qdist h ix q nb, True) = Some (cur', qdist h ix q cur', imp')"
      "has_layer ix l cur'" "\<not> imp' \<longrightarrow> \<not> True"
      using Cons.IH [of nb True] Cons.prems by auto
    then show ?thesis using d True by auto
  next
    case False
    then show ?thesis using Cons.IH [of cur imp] Cons.prems d by auto
  qed
qed simp

definition local_minimum :: "host \<Rightarrow> hnsw_index \<Rightarrow> f32 list \<Rightarrow> nat \<Rightarrow> nat \<Rightarrow> bool" where
  "local_minimum h ix q l c \<longleftrightarrow> (\<forall>nb \<in> set (nbs ix c l). \<not> f32_lt (qdist h ix q nb) (qdist h ix q c))"

lemma greedy_loop_ok:
  assumes "graph_closed ix" "has_layer ix l cur" "d = qdist h ix q cur"
  shows "\<exists>c. greedy_loop h ix q l cur d = Some c \<and> has_layer ix l c \<and> local_minimum h ix q l c"
  using assms
proof (induction h ix q l cur d rule: greedy_loop.induct)
  case (1 h ix q l cur d)
  have nb: "neighbors_at ix cur l = Some (nbs ix cur l)" using "1.prems" by (simp add: neighbors_at_defined)
  have "\<forall>x \<in> set (nbs ix cur l). has_layer ix l x" using "1.prems" graph_closedD by blast
  then obtain c imp where s: "greedy_scan h ix q (nbs ix cur l) (cur, d, False) = Some (c, qdist h ix q c, imp)"
    and c: "has_layer ix l c"
    and m: "\<not> imp \<longrightarrow> c = cur \<and> (\<forall>x \<in> set (nbs ix cur l). \<not> f32_lt (qdist h ix q x) (qdist h ix q cur))"
    using greedy_scan_ok [of "nbs ix cur l" ix l cur h q False] "1.prems"(2,3) by auto
  show ?case
  proof (cases imp)
    case True
    then have "\<exists>c'. greedy_loop h ix q l c (qdist h ix q c) = Some c' \<and> has_layer ix l c' \<and> local_minimum h ix q l c'"
      using "1.IH" [OF nb s refl refl] "1.prems"(1) c by simp
    then show ?thesis using nb s True by (subst greedy_loop.simps) simp
  next
    case False
    then show ?thesis using nb s c m by (subst greedy_loop.simps) (simp add: local_minimum_def)
  qed
qed

lemma greedy_descend_ok:
  assumes "graph_closed ix" "has_layer ix l cur"
  shows "\<exists>c. greedy_descend h ix q cur l = Some c \<and> has_layer ix l c \<and> local_minimum h ix q l c"
proof -
  have "distance_to h ix q cur = Some (qdist h ix q cur)"
    using assms(2) by (intro distance_to_defined) (simp add: has_layer_def)
  then show ?thesis using greedy_loop_ok [OF assms refl] by (simp add: greedy_descend_def)
qed

lemma descend_ok:
  assumes g: "graph_closed ix" and cur: "has_layer ix m cur"
    and ls: "sorted_wrt (\<ge>) layers" "\<forall>l \<in> set layers. l \<le> m \<and> t \<le> l" "t \<le> m"
  shows "\<exists>c. descend h ix q layers cur = Some c \<and> has_layer ix t c"
proof -
  let ?P = "\<lambda>ls c. \<exists>m. has_layer ix m c \<and> sorted_wrt (\<ge>) ls \<and> (\<forall>l \<in> set ls. l \<le> m \<and> t \<le> l) \<and> t \<le> m"
  have "\<exists>c. ofold (\<lambda>layer cur. greedy_descend h ix q cur layer) layers cur = Some c \<and> ?P [] c"
  proof (rule ofold_invariant [where P = ?P])
    show "?P layers cur" using cur ls by blast
    fix l ls c assume "?P (l # ls) c"
    then obtain m where m: "has_layer ix m c" "l \<le> m" "t \<le> l" "\<forall>k \<in> set ls. k \<le> l \<and> t \<le> k" "sorted_wrt (\<ge>) ls" by auto
    then obtain c' where "greedy_descend h ix q c l = Some c'" "has_layer ix l c'"
      using greedy_descend_ok [OF g] has_layer_down by blast
    then show "\<exists>c'. greedy_descend h ix q c l = Some c' \<and> ?P ls c'" using m by blast
  qed
  then show ?thesis unfolding descend_def using has_layer_down by blast
qed

lemma layers_down_props:
  "sorted_wrt (\<ge>) (layers_down a b)" "l \<in> set (layers_down a b) \<Longrightarrow> int l \<le> a \<and> b < int l"
  by (auto simp: layers_down_def sorted_wrt_rev)


section \<open>Searching a layer\<close>

interpretation far_order: strict_weak farther "{x. \<not> f32_isnan (fst x)}"
  by unfold_locales (auto simp: farther_def pair_less_def f32_lt_iff)

definition item_ok :: "host \<Rightarrow> hnsw_index \<Rightarrow> f32 list \<Rightarrow> nat \<Rightarrow> f32 \<times> nat \<Rightarrow> bool" where
  "item_ok h ix q l x \<longleftrightarrow> has_layer ix l (snd x) \<and> fst x = qdist h ix q (snd x)"

definition results_ok :: "host \<Rightarrow> hnsw_index \<Rightarrow> f32 list \<Rightarrow> nat \<Rightarrow> (f32 \<times> nat) list \<Rightarrow> bool" where
  "results_ok h ix q l res \<longleftrightarrow>
     (\<forall>x \<in> set res. item_ok h ix q l x) \<and> distinct (map snd res) \<and> sorted_by farther res"

definition layer_state_ok :: "host \<Rightarrow> hnsw_index \<Rightarrow> f32 list \<Rightarrow> nat \<Rightarrow> nat \<Rightarrow> layer_state \<Rightarrow> bool" where
  "layer_state_ok h ix q l ef st \<longleftrightarrow>
     (case st of (cand, res, visited) \<Rightarrow>
        (\<forall>x \<in> set cand. item_ok h ix q l x) \<and> results_ok h ix q l res \<and> length res \<le> ef \<and>
        snd ` set res \<subseteq> set visited)"

lemma item_not_nan: "numeric_query h ix q \<Longrightarrow> item_ok h ix q l x \<Longrightarrow> \<not> f32_isnan (fst x)"
  by (simp add: numeric_query_def item_ok_def has_layer_def)

lemma push_both_ok:
  assumes num: "numeric_query h ix q" and x: "item_ok h ix q l x" "snd x \<notin> snd ` set res"
    and c: "\<forall>y \<in> set cand. item_ok h ix q l y" and r: "results_ok h ix q l res"
  shows "push_both x cand res = Some (ins_by pair_less x cand, ins_by farther x res)"
    and "\<forall>y \<in> set (ins_by pair_less x cand). item_ok h ix q l y" and "results_ok h ix q l (ins_by farther x res)"
proof -
  note nan = item_not_nan [OF num]
  have rr: "\<forall>y \<in> set res. item_ok h ix q l y" "distinct (map snd res)" "sorted_by farther res"
    using r by (simp_all add: results_ok_def)
  have "pq_push pair_less x cand = Some (ins_by pair_less x cand)"
    using nan x(1) c by (intro pair_order.pq_push_defined) auto
  moreover have "pq_push farther x res = Some (ins_by farther x res)"
    using nan x(1) rr(1) by (intro far_order.pq_push_defined) auto
  ultimately show "push_both x cand res = Some (ins_by pair_less x cand, ins_by farther x res)"
    by (simp add: push_both_def)
  show "\<forall>y \<in> set (ins_by pair_less x cand). item_ok h ix q l y" using x(1) c by simp
  have "strict_weak_on farther (x # res)" using nan x(1) rr(1) by (intro far_order.swo) auto
  then have "sorted_by farther (ins_by farther x res)" using rr(3) by (rule sorted_by_ins)
  moreover have "distinct (map snd (ins_by farther x res))"
  proof -
    have "mset (map snd (ins_by farther x res)) = mset (map snd (x # res))" by (simp only: mset_map mset_ins_by mset.simps)
    moreover have "distinct (map snd (x # res))" using x(2) rr(2) by simp
    ultimately show ?thesis by (metis mset_eq_imp_distinct_iff)
  qed
  ultimately show "results_ok h ix q l (ins_by farther x res)" using x(1) rr(1) by (simp add: results_ok_def)
qed

lemma results_ok_drop: "results_ok h ix q l res \<Longrightarrow> results_ok h ix q l (drop n res)"
  unfolding results_ok_def by (auto simp: drop_map [symmetric] sorted_wrt_drop dest: in_set_dropD)

lemma results_ok_tl: "results_ok h ix q l res \<Longrightarrow> results_ok h ix q l (tl res)"
  using results_ok_drop [of h ix q l res 1] by (simp add: drop_Suc)

lemma visit_ok:
  assumes num: "numeric_query h ix q" and nb: "has_layer ix l nb" and ef: "0 < ef"
    and ok: "layer_state_ok h ix q l ef st"
  shows "\<exists>st'. visit h ix q ef nb st = Some st' \<and> layer_state_ok h ix q l ef st'"
proof -
  obtain c r v where st: "st = (c, r, v)" by (cases st)
  let ?x = "(qdist h ix q nb, nb)"
  have d: "distance_to h ix q nb = Some (qdist h ix q nb)" using nb by (intro distance_to_defined) (simp add: has_layer_def)
  have cr: "\<forall>x \<in> set c. item_ok h ix q l x" "results_ok h ix q l r" "length r \<le> ef" "snd ` set r \<subseteq> set v"
    using ok st by (simp_all add: layer_state_ok_def)
  show ?thesis
  proof (cases "nb \<in> set v")
    case True
    then show ?thesis using ok st by (simp add: visit_def)
  next
    case False
    have x: "item_ok h ix q l ?x" "snd ?x \<notin> snd ` set r" using nb False cr(4) by (auto simp: item_ok_def)
    note p = push_both_ok [OF num x cr(1,2)]
    have "r \<noteq> []" if "\<not> length r < ef" using that ef by auto
    then obtain b where b: "admits ef r (qdist h ix q nb) = Some b"
      by (cases "length r < ef") (simp_all add: admits_def)
    show ?thesis
    proof (cases b)
      case False
      then show ?thesis using st \<open>nb \<notin> set v\<close> d b cr by (auto simp: visit_def layer_state_ok_def)
    next
      case True
      let ?r = "ins_by farther ?x r" let ?r' = "if ef < length ?r then tl ?r else ?r"
      have "results_ok h ix q l ?r'" using p(3) results_ok_tl by simp
      moreover have "length ?r' \<le> ef" using cr(3) by simp
      moreover have "snd ` set ?r' \<subseteq> set (nb # v)"
      proof -
        have "set (tl ys) \<subseteq> set ys" for ys :: "(f32 \<times> nat) list" by (cases ys) auto
        then have "set ?r' \<subseteq> set ?r" by (simp only: split: if_splits) simp
        then have a: "snd ` set ?r' \<subseteq> snd ` set ?r" by (rule image_mono)
        have "snd ` set ?r \<subseteq> set (nb # v)" using cr(4) by auto
        with a show ?thesis by (rule subset_trans)
      qed
      ultimately have "layer_state_ok h ix q l ef (ins_by pair_less ?x c, ?r', nb # v)"
        using p(2) by (simp only: layer_state_ok_def prod.case)
      moreover have "visit h ix q ef nb st = Some (ins_by pair_less ?x c, ?r', nb # v)"
        using st \<open>nb \<notin> set v\<close> d b True p(1) by (simp add: visit_def)
      ultimately show ?thesis by blast
    qed
  qed
qed

lemma visits_ok:
  assumes "numeric_query h ix q" "\<forall>nb \<in> set xs. has_layer ix l nb" "0 < ef" "layer_state_ok h ix q l ef st"
  shows "\<exists>st'. ofold (visit h ix q ef) xs st = Some st' \<and> layer_state_ok h ix q l ef st'"
proof -
  let ?P = "\<lambda>xs st. (\<forall>nb \<in> set xs. has_layer ix l nb) \<and> layer_state_ok h ix q l ef st"
  have "\<exists>st'. ofold (visit h ix q ef) xs st = Some st' \<and> ?P [] st'"
  proof (rule ofold_invariant [where P = ?P])
    fix nb ys s assume "?P (nb # ys) s"
    then show "\<exists>s'. visit h ix q ef nb s = Some s' \<and> ?P ys s'" using visit_ok [OF assms(1) _ assms(3)] by simp
  qed (use assms in simp)
  then show ?thesis by blast
qed

lemma explore_ok:
  assumes "graph_closed ix" "numeric_query h ix q" "0 < ef" "layer_state_ok h ix q l ef st"
  shows "\<exists>res. explore h ix q ef l st = Some res \<and> results_ok h ix q l res \<and> length res \<le> ef"
  using assms
proof (induction h ix q ef l st rule: explore.induct)
  case (1 h ix q ef l res visited)
  then show ?case by (simp add: explore.simps layer_state_ok_def)
next
  case (2 h ix q ef l nearest cand res visited)
  show ?case
  proof (cases "res \<noteq> [] \<and> f32_lt (fst (hd res)) (fst nearest) \<and> ef \<le> length res")
    case True
    then show ?thesis using "2.prems" by (simp add: explore.simps layer_state_ok_def)
  next
    case False
    have near: "has_layer ix l (snd nearest)" using "2.prems"(4) by (simp add: layer_state_ok_def item_ok_def)
    then have nb: "neighbors_at ix (snd nearest) l = Some (nbs ix (snd nearest) l)" by (rule neighbors_at_defined)
    have "layer_state_ok h ix q l ef (cand, res, visited)" using "2.prems"(4) by (simp add: layer_state_ok_def)
    then obtain st where st: "ofold (visit h ix q ef) (nbs ix (snd nearest) l) (cand, res, visited) = Some st"
      "layer_state_ok h ix q l ef st"
      using visits_ok [OF "2.prems"(2) _ "2.prems"(3), of "nbs ix (snd nearest) l" l] graph_closedD [OF "2.prems"(1) near] by blast
    have "explore h ix q ef l (nearest # cand, res, visited) = explore h ix q ef l st"
      by (simp only: explore.simps if_not_P [OF False] nb st(1) option.case)
    then show ?thesis using "2.IH" [OF False nb st(1) "2.prems"(1-3) st(2)] by (simp only:)
  qed
qed

lemma seed_entries_ok:
  assumes num: "numeric_query h ix q" and eps: "\<forall>ep \<in> set eps. has_layer ix l ep" "distinct eps"
  shows "\<exists>c r v. ofold (seed_entry h ix q) eps ([], [], []) = Some (c, r, v)
     \<and> (\<forall>x \<in> set c. item_ok h ix q l x) \<and> results_ok h ix q l r \<and> length r = length eps
     \<and> snd ` set r = set eps \<and> set v = set eps \<and> set c = set r"
proof -
  let ?P = "\<lambda>xs (c, r, v). (\<forall>ep \<in> set xs. has_layer ix l ep) \<and> distinct xs \<and> (\<forall>x \<in> set c. item_ok h ix q l x)
     \<and> results_ok h ix q l r \<and> length r + length xs = length eps \<and> set v \<inter> set xs = {} \<and> set v \<union> set xs = set eps
     \<and> snd ` set r = set v \<and> set c = set r"
  have "\<exists>st. ofold (seed_entry h ix q) eps ([], [], []) = Some st \<and> ?P [] st"
  proof (rule ofold_invariant [where P = ?P])
    show "?P eps ([], [], [])" using eps by (simp add: results_ok_def)
    fix ep xs s assume P: "?P (ep # xs) s"
    obtain c r v where s: "s = (c, r, v)" by (cases s)
    let ?x = "(qdist h ix q ep, ep)"
    have d: "distance_to h ix q ep = Some (qdist h ix q ep)" using P s by (intro distance_to_defined) (simp add: has_layer_def)
    have x: "item_ok h ix q l ?x" "snd ?x \<notin> snd ` set r" using P s by (auto simp: item_ok_def)
    have cr: "\<forall>y \<in> set c. item_ok h ix q l y" "results_ok h ix q l r" using P s by simp_all
    note p = push_both_ok [OF num x cr]
    have "seed_entry h ix q ep s = Some (ins_by pair_less ?x c, ins_by farther ?x r, ep # v)"
      using s d p(1) by (simp add: seed_entry_def)
    moreover have "?P xs (ins_by pair_less ?x c, ins_by farther ?x r, ep # v)" using P s p(2,3) by auto
    ultimately show "\<exists>s'. seed_entry h ix q ep s = Some s' \<and> ?P xs s'" by blast
  qed
  then show ?thesis by fastforce
qed

lemma search_layer_ok:
  assumes g: "graph_closed ix" and num: "numeric_query h ix q" and ef: "ef \<noteq> 0"
    and eps: "\<forall>ep \<in> set eps. has_layer ix l ep" "distinct eps"
  shows "\<exists>out. search_layer h ix q eps ef l = Some out \<and> (\<forall>x \<in> set out. item_ok h ix q l x)
     \<and> distinct (map snd out) \<and> sorted_by pair_less out \<and> length out \<le> unat ef"
proof -
  obtain c r v where s: "ofold (seed_entry h ix q) eps ([], [], []) = Some (c, r, v)"
    "\<forall>x \<in> set c. item_ok h ix q l x" "results_ok h ix q l r" "snd ` set r = set eps" "set v = set eps"
    using seed_entries_ok [OF num eps] by blast
  let ?r = "drop (length r - unat ef) r"
  have "layer_state_ok h ix q l (unat ef) (c, ?r, v)"
  proof -
    have "snd ` set ?r \<subseteq> set v" using set_drop_subset [of "length r - unat ef" r] s(4,5) by blast
    then show ?thesis using s(2) results_ok_drop [OF s(3)] by (simp add: layer_state_ok_def)
  qed
  then obtain res where res: "explore h ix q (unat ef) l (c, ?r, v) = Some res" "results_ok h ix q l res"
    "length res \<le> unat ef"
    using explore_ok [OF g num] ef by (metis unat_gt_0)
  have "sorted_by pair_less (rev res)"
    using res(2) by (simp add: results_ok_def sorted_wrt_rev farther_def)
  then show ?thesis using s(1) res by (simp add: search_layer_def results_ok_def rev_map [symmetric])
qed


section \<open>The selection heuristic\<close>

text \<open>All distances between stored vectors are numbers.\<close>

definition numeric_graph :: "host \<Rightarrow> hnsw_index \<Rightarrow> bool" where
  "numeric_graph h ix \<longleftrightarrow> (\<forall>node \<in> set (hx_nodes ix). numeric_query h ix (hn_vector node))"

abbreviation ndist :: "host \<Rightarrow> hnsw_index \<Rightarrow> nat \<Rightarrow> nat \<Rightarrow> f32" where
  "ndist h ix a b \<equiv> qdist h ix (hn_vector (hx_nodes ix ! a)) b"

lemma nearer_pair_less: "\<not> f32_isnan (fst x) \<Longrightarrow> \<not> f32_isnan (fst y) \<Longrightarrow> nearer x y = pair_less x y"
  by (auto simp: nearer_def pair_less_def f32_lt_iff f32_eq_iff)

interpretation near_order: strict_weak nearer "{x. \<not> f32_isnan (fst x)}"
  by unfold_locales (auto simp: nearer_pair_less pair_less_def f32_lt_iff)

lemma redundant_defined:
  assumes "e < length (hx_nodes ix)" "\<forall>r \<in> set rs. r < length (hx_nodes ix)"
  shows "redundant h ix e d rs = Some (\<exists>r \<in> set rs. f32_le (ndist h ix e r) d)"
  using assms by (induction rs) (simp_all add: node_distance_defined)

text \<open>
  What the heuristic promises of its choice, for candidates carrying their distance to the base:
  nothing accepted is as close to an earlier accepted node as to the base.
\<close>

definition diverse :: "host \<Rightarrow> hnsw_index \<Rightarrow> (nat \<Rightarrow> f32) \<Rightarrow> nat list \<Rightarrow> bool" where
  "diverse h ix base sel \<longleftrightarrow> (\<forall>j < length sel. \<forall>i < j. \<not> f32_le (ndist h ix (sel ! j) (sel ! i)) (base (sel ! j)))"

lemma diverse_snoc:
  "diverse h ix base (sel @ [e]) \<longleftrightarrow> diverse h ix base sel \<and> (\<forall>r \<in> set sel. \<not> f32_le (ndist h ix e r) (base e))"
proof -
  have "(\<forall>i < length sel. \<not> f32_le (ndist h ix e (sel ! i)) (base e)) \<longleftrightarrow> (\<forall>r \<in> set sel. \<not> f32_le (ndist h ix e r) (base e))"
    by (metis in_set_conv_nth)
  then show ?thesis by (auto simp: diverse_def nth_append less_Suc_eq)
qed

lemma select_loop_ok:
  assumes "\<forall>x \<in> set cands. snd x < length (hx_nodes ix) \<and> fst x = base (snd x)" "\<forall>r \<in> set sel. r < length (hx_nodes ix)"
    "diverse h ix base sel" "length sel \<le> m" "distinct (sel @ map snd cands)"
  shows "\<exists>out. select_loop h ix m cands sel = Some out \<and> set out \<subseteq> set sel \<union> snd ` set cands
     \<and> length out \<le> m \<and> distinct out \<and> diverse h ix base out"
  using assms
proof (induction cands arbitrary: sel)
  case (Cons x cands)
  obtain d e where x: "x = (d, e)" by (cases x)
  show ?case
  proof (cases "m \<le> length sel")
    case True
    then show ?thesis using Cons.prems x by auto
  next
    case False
    let ?red = "\<exists>r \<in> set sel. f32_le (ndist h ix e r) d"
    let ?sel = "if ?red then sel else sel @ [e]"
    have e: "e < length (hx_nodes ix)" "d = base e" using Cons.prems(1) x by auto
    have r: "redundant h ix e d sel = Some ?red" using redundant_defined e Cons.prems(2) by blast
    have "diverse h ix base ?sel" using Cons.prems(3) e(2) by (simp add: diverse_snoc)
    moreover have "\<forall>r \<in> set ?sel. r < length (hx_nodes ix)" using Cons.prems(2) e by simp
    moreover have "length ?sel \<le> m" using False by simp
    moreover have "distinct (?sel @ map snd cands)" using Cons.prems(5) x by auto
    moreover have "\<forall>x \<in> set cands. snd x < length (hx_nodes ix) \<and> fst x = base (snd x)" using Cons.prems(1) by simp
    ultimately obtain out where out: "select_loop h ix m cands ?sel = Some out" "set out \<subseteq> set ?sel \<union> snd ` set cands"
      "length out \<le> m" "distinct out" "diverse h ix base out"
      using Cons.IH [of ?sel] by blast
    have "select_loop h ix m (x # cands) sel = Some out" using x False r out(1) by simp
    moreover have "set ?sel \<union> snd ` set cands \<subseteq> set sel \<union> snd ` set (x # cands)" using x by auto
    then have "set out \<subseteq> set sel \<union> snd ` set (x # cands)" using out(2) by (rule subset_trans [rotated])
    ultimately show ?thesis using out(3-5) by blast
  qed
qed simp

lemma select_neighbors_ok:
  assumes c: "\<forall>x \<in> set cands. snd x < length (hx_nodes ix) \<and> fst x = base (snd x) \<and> \<not> f32_isnan (fst x)"
    and dist: "distinct (map snd cands)"
  shows "\<exists>out. select_neighbors_heuristic h ix cands m = Some out \<and> set out \<subseteq> snd ` set cands
     \<and> length out \<le> unat m \<and> distinct out \<and> diverse h ix base out"
proof -
  have "std_sort nearer cands = Some (sort_by nearer cands)" using c by (intro near_order.std_sort_defined) auto
  moreover have "distinct (map snd (sort_by nearer cands))"
    using dist by (metis mset_eq_imp_distinct_iff mset_map mset_sort_by)
  ultimately show ?thesis
    using select_loop_ok [of "sort_by nearer cands" ix base "[]" h "unat m"] c
    by (simp add: select_neighbors_heuristic_def diverse_def)
qed


section \<open>Rewriting one adjacency list\<close>

text \<open>Everything of a node but the contents of its lists.\<close>

definition frame :: "hnsw_node \<Rightarrow> record_id \<times> f32 list \<times> int \<times> bool \<times> nat" where
  "frame node = (hn_id node, hn_vector node, hn_top_layer node, hn_deleted node, length (hn_neighbors node))"

definition same_shape :: "hnsw_index \<Rightarrow> hnsw_index \<Rightarrow> bool" where
  "same_shape ix ix' \<longleftrightarrow> ix'\<lparr>hx_nodes := []\<rparr> = ix\<lparr>hx_nodes := []\<rparr> \<and> map frame (hx_nodes ix') = map frame (hx_nodes ix)"

lemma same_shape_refl [simp]: "same_shape ix ix"
  by (simp add: same_shape_def)

lemma same_shape_trans: "same_shape a b \<Longrightarrow> same_shape b c \<Longrightarrow> same_shape a c"
  by (simp add: same_shape_def)

lemma same_shape_fields:
  assumes "same_shape ix ix'"
  shows "hx_dimensionality ix' = hx_dimensionality ix" "hx_metric ix' = hx_metric ix"
    "hx_max_neighbors_upper ix' = hx_max_neighbors_upper ix" "hx_max_neighbors_layer0 ix' = hx_max_neighbors_layer0 ix"
    "hx_ef_construction ix' = hx_ef_construction ix" "hx_level_scale ix' = hx_level_scale ix"
    "hx_rng_seed ix' = hx_rng_seed ix" "hx_id_to_internal ix' = hx_id_to_internal ix"
    "hx_entry_point ix' = hx_entry_point ix" "hx_max_level ix' = hx_max_level ix"
    "hx_live_count ix' = hx_live_count ix" "hx_draws ix' = hx_draws ix"
  using assms by (cases ix; cases ix'; simp add: same_shape_def)+

lemma same_shape_length: "same_shape ix ix' \<Longrightarrow> length (hx_nodes ix') = length (hx_nodes ix)"
  unfolding same_shape_def by (metis length_map)

lemma same_shape_frame:
  assumes "same_shape ix ix'" "n < length (hx_nodes ix)"
  shows "frame (hx_nodes ix' ! n) = frame (hx_nodes ix ! n)"
  using assms same_shape_length [OF assms(1)] unfolding same_shape_def by (metis nth_map)

lemma same_shape_has_layer: "same_shape ix ix' \<Longrightarrow> has_layer ix' l n = has_layer ix l n"
  using same_shape_frame [of ix ix' n] same_shape_length [of ix ix'] by (auto simp: has_layer_def frame_def)

lemma same_shape_qdist: "same_shape ix ix' \<Longrightarrow> n < length (hx_nodes ix) \<Longrightarrow> qdist h ix' q n = qdist h ix q n"
  using same_shape_frame [of ix ix' n] same_shape_fields(2) [of ix ix'] by (simp add: qdist_def frame_def)

lemma same_shape_vector: "same_shape ix ix' \<Longrightarrow> n < length (hx_nodes ix) \<Longrightarrow> hn_vector (hx_nodes ix' ! n) = hn_vector (hx_nodes ix ! n)"
  using same_shape_frame [of ix ix' n] by (simp add: frame_def)

lemma same_shape_numeric: "same_shape ix ix' \<Longrightarrow> numeric_query h ix q \<Longrightarrow> numeric_query h ix' q"
  using same_shape_qdist same_shape_length by (simp add: numeric_query_def)

lemma same_shape_numeric_graph: "same_shape ix ix' \<Longrightarrow> numeric_graph h ix \<Longrightarrow> numeric_graph h ix'"
  unfolding numeric_graph_def all_set_conv_all_nth
  using same_shape_numeric same_shape_vector same_shape_length by metis

lemma same_shape_limit: "same_shape ix ix' \<Longrightarrow> max_neighbors_for_layer ix' l = max_neighbors_for_layer ix l"
  by (simp add: max_neighbors_for_layer_def same_shape_fields)

lemma set_neighbors_shape:
  assumes "n < length (hx_nodes ix)"
  shows "same_shape ix (set_neighbors ix n l xs)"
proof -
  have "map frame ((hx_nodes ix)[n := (hx_nodes ix ! n)\<lparr>hn_neighbors := (hn_neighbors (hx_nodes ix ! n))[l := xs]\<rparr>])
      = (map frame (hx_nodes ix))[n := map frame (hx_nodes ix) ! n]"
    using assms by (simp only: map_update nth_map) (simp add: frame_def)
  then show ?thesis by (simp add: same_shape_def set_neighbors_def Let_def)
qed

lemma nbs_set_neighbors:
  assumes "has_layer ix l n" "m < length (hx_nodes ix)"
  shows "nbs (set_neighbors ix n l xs) m k = (if m = n \<and> k = l then xs else nbs ix m k)"
  using assms by (auto simp: set_neighbors_def Let_def has_layer_def nth_list_update)

text \<open>The degree bound; neighbours are distinct, and no node is its own neighbour.\<close>

definition degrees_ok :: "hnsw_index \<Rightarrow> bool" where
  "degrees_ok ix \<longleftrightarrow> (\<forall>l n. has_layer ix l n \<longrightarrow>
     length (nbs ix n l) \<le> unat (max_neighbors_for_layer ix l) \<and> distinct (n # nbs ix n l))"

definition graph_ok :: "hnsw_index \<Rightarrow> bool" where
  "graph_ok ix \<longleftrightarrow> graph_closed ix \<and> degrees_ok ix"

lemma graph_okD:
  assumes "graph_ok ix" "has_layer ix l n"
  shows "\<forall>nb \<in> set (nbs ix n l). has_layer ix l nb" "length (nbs ix n l) \<le> unat (max_neighbors_for_layer ix l)"
    "distinct (n # nbs ix n l)"
  using assms unfolding graph_ok_def graph_closed_def degrees_ok_def by blast+

lemma set_neighbors_graph_ok:
  assumes g: "graph_ok ix" and n: "has_layer ix l n" and xs: "\<forall>nb \<in> set xs. has_layer ix l nb"
    "length xs \<le> unat (max_neighbors_for_layer ix l)" "distinct (n # xs)"
  shows "graph_ok (set_neighbors ix n l xs)"
proof -
  let ?ix = "set_neighbors ix n l xs"
  have sh: "same_shape ix ?ix" using n by (intro set_neighbors_shape) (simp add: has_layer_def)
  have "(\<forall>nb \<in> set (nbs ?ix m k). has_layer ?ix k nb) \<and> length (nbs ?ix m k) \<le> unat (max_neighbors_for_layer ?ix k)
      \<and> distinct (m # nbs ?ix m k)" if "has_layer ?ix k m" for k m
  proof -
    have m: "has_layer ix k m" using that same_shape_has_layer [OF sh] by simp
    have nb: "nbs ?ix m k = (if m = n \<and> k = l then xs else nbs ix m k)"
      using nbs_set_neighbors [OF n has_layer_node [OF m]] .
    show ?thesis
      unfolding nb same_shape_has_layer [OF sh] same_shape_limit [OF sh]
      using graph_okD [OF g m] xs by (cases "m = n \<and> k = l") simp_all
  qed
  then show ?thesis unfolding graph_ok_def graph_closed_def degrees_ok_def by blast
qed


section \<open>Connecting a node\<close>

lemma candidates_ok:
  assumes "n < length (hx_nodes ix)" "\<forall>b \<in> set xs. b < length (hx_nodes ix)"
  shows "ofold (\<lambda>nb cs. map_option (\<lambda>d. cs @ [(d, nb)]) (node_distance h ix n nb)) xs acc
    = Some (acc @ map (\<lambda>b. (ndist h ix n b, b)) xs)"
  using assms(2) by (induction xs arbitrary: acc) (simp_all add: node_distance_defined [OF assms(1)])

lemma connect_one_ok:
  assumes g: "graph_ok ix" and num: "numeric_graph h ix" and l: "has_layer ix l n" "has_layer ix l b"
    and room: "length (nbs ix n l) < unat limit" and limit: "limit = max_neighbors_for_layer ix l"
    and fresh: "b \<notin> set (nbs ix n l)" "n \<notin> set (nbs ix b l)" "b \<noteq> n"
  shows "\<exists>ix' xs. connect_one h n l limit b ix = Some ix' \<and> same_shape ix ix' \<and> graph_ok ix'
    \<and> (\<forall>m k. m < length (hx_nodes ix) \<longrightarrow> nbs ix' m k =
         (if k = l \<and> m = n then nbs ix n l @ [b] else if k = l \<and> m = b then xs else nbs ix m k))"
proof -
  let ?own = "nbs ix n l @ [b]"
  let ?ix1 = "set_neighbors ix n l ?own"
  have nl: "n < length (hx_nodes ix)" "b < length (hx_nodes ix)" using l by (simp_all add: has_layer_def)
  have sh1: "same_shape ix ?ix1" using nl(1) by (rule set_neighbors_shape)
  have "length ?own \<le> unat (max_neighbors_for_layer ix l)" "distinct (n # ?own)"
    "\<forall>nb \<in> set ?own. has_layer ix l nb"
    using room limit fresh l graph_okD [OF g l(1)] by auto
  then have g1: "graph_ok ?ix1" using set_neighbors_graph_ok [OF g l(1), of ?own] by simp
  have l1: "has_layer ?ix1 l n" "has_layer ?ix1 l b" using l same_shape_has_layer [OF sh1] by simp_all
  have ob: "nbs ?ix1 b l = nbs ix b l" using nbs_set_neighbors [OF l(1) nl(2), of ?own l] fresh(3) by simp
  have lim1: "limit = max_neighbors_for_layer ?ix1 l" using limit same_shape_limit [OF sh1] by simp
  let ?ol = "nbs ix b l @ [n]"
  have ol: "\<forall>nb \<in> set ?ol. has_layer ?ix1 l nb" "distinct (b # ?ol)"
    using graph_okD [OF g1 l1(2)] l1(1) fresh unfolding ob by auto
  have "\<exists>xs. connect_one h n l limit b ix = Some (set_neighbors ?ix1 b l xs) \<and> (\<forall>nb \<in> set xs. has_layer ?ix1 l nb)
      \<and> length xs \<le> unat limit \<and> distinct (b # xs)"
  proof (cases "length ?ol \<le> unat limit")
    case True
    have "connect_one h n l limit b ix = Some (set_neighbors ?ix1 b l ?ol)"
      using fresh(3) True neighbors_at_defined [OF l(1)] neighbors_at_defined [OF l1(2)] ob
      by (simp add: connect_one_def Let_def)
    then show ?thesis using True ol by blast
  next
    case False
    have bl: "b < length (hx_nodes ?ix1)" "\<forall>x \<in> set ?ol. x < length (hx_nodes ?ix1)"
      using l1(2) ol(1) by (auto simp: has_layer_def)
    let ?c = "map (\<lambda>x. (ndist h ?ix1 b x, x)) ?ol"
    have nb: "numeric_query h ?ix1 (hn_vector (hx_nodes ?ix1 ! b))"
      using same_shape_numeric_graph [OF sh1 num] bl(1) by (simp add: numeric_graph_def)
    have "\<forall>x \<in> set ?c. snd x < length (hx_nodes ?ix1) \<and> fst x = ndist h ?ix1 b (snd x) \<and> \<not> f32_isnan (fst x)"
      using bl(2) nb by (auto simp: numeric_query_def)
    moreover have "distinct (map snd ?c)" using ol(2) by (simp add: o_def)
    ultimately obtain xs where xs: "select_neighbors_heuristic h ?ix1 ?c limit = Some xs" "set xs \<subseteq> snd ` set ?c"
      "length xs \<le> unat limit" "distinct xs"
      using select_neighbors_ok [of ?c ?ix1 "ndist h ?ix1 b" h limit] by blast
    have sub: "set xs \<subseteq> set ?ol" using xs(2) by (simp add: image_image)
    have "connect_one h n l limit b ix = Some (set_neighbors ?ix1 b l xs)"
      using fresh(3) False neighbors_at_defined [OF l(1)] neighbors_at_defined [OF l1(2)] ob
        candidates_ok [OF bl, of h "[]"] xs(1)
      by (simp add: connect_one_def Let_def del: map_append)
    moreover have "\<forall>nb \<in> set xs. has_layer ?ix1 l nb" "b \<notin> set xs" using sub ol by auto
    ultimately show ?thesis using xs(3,4) by auto
  qed
  then obtain xs where xs: "connect_one h n l limit b ix = Some (set_neighbors ?ix1 b l xs)"
    "\<forall>nb \<in> set xs. has_layer ?ix1 l nb" "length xs \<le> unat limit" "distinct (b # xs)" by blast
  have "graph_ok (set_neighbors ?ix1 b l xs)" using set_neighbors_graph_ok [OF g1 l1(2)] xs(2-4) lim1 by simp
  moreover have "same_shape ix (set_neighbors ?ix1 b l xs)"
    using same_shape_trans [OF sh1 set_neighbors_shape] l1(2) by (simp add: has_layer_def)
  moreover have "nbs (set_neighbors ?ix1 b l xs) m k =
      (if k = l \<and> m = n then ?own else if k = l \<and> m = b then xs else nbs ix m k)" if "m < length (hx_nodes ix)" for m k
    using nbs_set_neighbors [OF l1(2), of m xs k] nbs_set_neighbors [OF l(1) that, of ?own k] that fresh(3)
      same_shape_length [OF sh1] by auto
  ultimately show ?thesis using xs(1) by blast
qed

text \<open>Connecting touches one layer only, and only nodes that have it.\<close>

lemma connect_node_ok:
  assumes g: "graph_ok ix" and num: "numeric_graph h ix" and n: "has_layer ix l n"
    and cands: "\<forall>x \<in> set cands. item_ok h ix (hn_vector (hx_nodes ix ! n)) l x" "distinct (map snd cands)"
    and fresh: "nbs ix n l = []" "\<forall>m. has_layer ix l m \<longrightarrow> n \<notin> set (nbs ix m l)"
  shows "\<exists>ix'. connect_node h ix n cands l = Some ix' \<and> same_shape ix ix' \<and> graph_ok ix'
    \<and> (\<forall>m k. m < length (hx_nodes ix) \<longrightarrow> k \<noteq> l \<longrightarrow> nbs ix' m k = nbs ix m k)"
proof -
  let ?limit = "max_neighbors_for_layer ix l"
  have nl: "n < length (hx_nodes ix)" using n by (rule has_layer_node)
  then have "numeric_query h ix (hn_vector (hx_nodes ix ! n))" using num by (simp add: numeric_graph_def)
  then have "\<forall>x \<in> set cands. snd x < length (hx_nodes ix) \<and> fst x = ndist h ix n (snd x) \<and> \<not> f32_isnan (fst x)"
    using cands(1) item_not_nan by (auto simp: item_ok_def has_layer_def)
  then obtain sel where sel: "select_neighbors_heuristic h ix cands ?limit = Some sel" "set sel \<subseteq> snd ` set cands"
    "length sel \<le> unat ?limit" "distinct sel"
    using select_neighbors_ok [of cands ix "ndist h ix n" h ?limit] cands(2) by blast
  let ?P = "\<lambda>xs ix'. same_shape ix ix' \<and> graph_ok ix' \<and> length (nbs ix' n l) + length xs \<le> unat ?limit
     \<and> (\<forall>b \<in> set xs. has_layer ix l b \<and> b \<notin> set (nbs ix' n l) \<and> (b \<noteq> n \<longrightarrow> n \<notin> set (nbs ix' b l))) \<and> distinct xs
     \<and> (\<forall>m k. m < length (hx_nodes ix) \<longrightarrow> k \<noteq> l \<longrightarrow> nbs ix' m k = nbs ix m k)"
  have "\<exists>ix'. ofold (connect_one h n l ?limit) sel ix = Some ix' \<and> ?P [] ix'"
  proof (rule ofold_invariant [where P = ?P])
    have "\<forall>b \<in> set sel. has_layer ix l b" using sel(2) cands(1) by (auto simp: item_ok_def)
    then show "?P sel ix" using g sel(3,4) fresh by simp
    fix b xs ix1 assume P: "?P (b # xs) ix1"
    then have sh: "same_shape ix ix1" by blast
    show "\<exists>ix2. connect_one h n l ?limit b ix1 = Some ix2 \<and> ?P xs ix2"
    proof (cases "b = n")
      case True
      then show ?thesis using P by (simp add: connect_one_def)
    next
      case False
      have pre: "graph_ok ix1" "length (nbs ix1 n l) < unat ?limit" "b \<notin> set (nbs ix1 n l)" "n \<notin> set (nbs ix1 b l)"
        using P False by auto
      have hl: "has_layer ix1 l n" "has_layer ix1 l b" using n P same_shape_has_layer [OF sh] by simp_all
      obtain ix2 ys where c: "connect_one h n l ?limit b ix1 = Some ix2" "same_shape ix1 ix2" "graph_ok ix2"
        and nb: "\<And>m k. m < length (hx_nodes ix1) \<Longrightarrow> nbs ix2 m k =
          (if k = l \<and> m = n then nbs ix1 n l @ [b] else if k = l \<and> m = b then ys else nbs ix1 m k)"
        using connect_one_ok [OF pre(1) same_shape_numeric_graph [OF sh num] hl pre(2) _ pre(3,4) False]
          same_shape_limit [OF sh] by metis
      have len: "length (hx_nodes ix1) = length (hx_nodes ix)" using same_shape_length [OF sh] .
      have own: "nbs ix2 n l = nbs ix1 n l @ [b]" using nb [of n l] nl len by simp
      have oth: "nbs ix2 x l = nbs ix1 x l" if "x \<in> set xs" "x \<noteq> n" for x
        using nb [of x l] P that len by (auto simp: has_layer_def)
      have "?P xs ix2"
        using P c same_shape_trans [OF sh c(2)] nb len own oth by (auto simp: has_layer_def)
      then show ?thesis using c(1) by blast
    qed
  qed
  then show ?thesis using sel(1) by (simp add: connect_node_def) blast
qed

end
