(* ===== verification/Hnsw_Index.thy ===== *)
theory Hnsw_Index
  imports Hnsw
begin

text \<open>
  The invariant of the graph index, its preservation by every operation, and the contract of
  \<open>index.hpp\<close> for it.
\<close>

section \<open>The invariant\<close>

abbreviation hx_width :: "hnsw_index \<Rightarrow> nat" where
  "hx_width ix \<equiv> unat (hx_dimensionality ix)"

abbreviation hnsw_slots :: "hnsw_index \<Rightarrow> nat" where
  "hnsw_slots ix \<equiv> length (hx_nodes ix)"

abbreviation live_nodes :: "hnsw_index \<Rightarrow> hnsw_node list" where
  "live_nodes ix \<equiv> filter (\<lambda>node. \<not> hn_deleted node) (hx_nodes ix)"

definition node_ok :: "nat \<Rightarrow> hnsw_node \<Rightarrow> bool" where
  "node_ok w node \<longleftrightarrow> hn_id node \<noteq> [] \<and> length (hn_vector node) = w \<and> finite_vec (hn_vector node)
     \<and> 0 \<le> hn_top_layer node \<and> hn_top_layer node < 2 ^ 31
     \<and> length (hn_neighbors node) = nat (hn_top_layer node + 1)"

text \<open>The entry point is a node of the highest occupied layer.\<close>

definition entry_point_ok :: "hnsw_index \<Rightarrow> bool" where
  "entry_point_ok ix \<longleftrightarrow>
     (if hx_nodes ix = [] then hx_entry_point ix = -1 \<and> hx_max_level ix = -1
      else \<exists>e < length (hx_nodes ix). hx_entry_point ix = int e \<and> hn_top_layer (hx_nodes ix ! e) = hx_max_level ix)
     \<and> (\<forall>node \<in> set (hx_nodes ix). hn_top_layer node \<le> hx_max_level ix)"

text \<open>What the host must provide: numbers as distances, and sampled levels in range.\<close>

definition levels_ok :: "host \<Rightarrow> f64 \<Rightarrow> u64 \<Rightarrow> bool" where
  "levels_ok h scale seed \<longleftrightarrow> (\<forall>n. \<exists>l \<ge> 0. level_of_draw h scale (h_draw h seed n) = Some l)"

text \<open>The parameters are as the constructor leaves them.\<close>

definition params_ok :: "host \<Rightarrow> hnsw_index \<Rightarrow> bool" where
  "params_ok h ix \<longleftrightarrow> 2 \<le> hx_max_neighbors_upper ix \<and> hx_max_neighbors_layer0 ix = hx_max_neighbors_upper ix * 2
     \<and> hx_ef_construction ix \<noteq> 0
     \<and> hx_level_scale ix = f64_div f64_one (h_log h (f64_of_nat (unat (hx_max_neighbors_upper ix))))"

definition hnsw_ok :: "host \<Rightarrow> hnsw_index \<Rightarrow> bool" where
  "hnsw_ok h ix \<longleftrightarrow> id_table (hx_id_to_internal ix) (map hn_id (hx_nodes ix)) \<and>
     (\<forall>node \<in> set (hx_nodes ix). node_ok (hx_width ix) node) \<and> graph_ok ix \<and> entry_point_ok ix \<and>
     hx_live_count ix = word_of_nat (length (live_nodes ix)) \<and> params_ok h ix \<and>
     nan_free h (hx_metric ix) (hx_width ix) \<and> levels_ok h (hx_level_scale ix) (hx_rng_seed ix)"

definition live_vector :: "hnsw_index \<Rightarrow> nat \<Rightarrow> f32 list option" where
  "live_vector ix s =
     (case elem_at (hx_nodes ix) s of
        None \<Rightarrow> None
      | Some node \<Rightarrow> if hn_deleted node then None else Some (hn_vector node))"

definition hnsw_contents :: "hnsw_index \<Rightarrow> record_id \<Rightarrow> f32 list option" where
  "hnsw_contents ix rid =
     (case omap_find rid (hx_id_to_internal ix) of None \<Rightarrow> None | Some s \<Rightarrow> live_vector ix s)"

definition hnsw_dist :: "host \<Rightarrow> hnsw_index \<Rightarrow> f32 list \<Rightarrow> f32 list \<Rightarrow> f32" where
  "hnsw_dist h ix = distance_or_inf (h_calculator h) (hx_metric ix)"

lemma hnsw_okD:
  assumes "hnsw_ok h ix"
  shows "id_table (hx_id_to_internal ix) (map hn_id (hx_nodes ix))" "graph_ok ix" "entry_point_ok ix"
    "hx_ef_construction ix \<noteq> 0" "nan_free h (hx_metric ix) (hx_width ix)"
    "levels_ok h (hx_level_scale ix) (hx_rng_seed ix)"
    "hx_live_count ix = word_of_nat (length (live_nodes ix))"
    "\<forall>node \<in> set (hx_nodes ix). node_ok (hx_width ix) node" "params_ok h ix"
  using assms unfolding hnsw_ok_def params_ok_def by blast+

lemma node_ok_nth: "\<forall>node \<in> set (hx_nodes ix). node_ok w node \<Longrightarrow> n < length (hx_nodes ix) \<Longrightarrow> node_ok w (hx_nodes ix ! n)"
  by simp

lemma has_layer_top:
  assumes "\<forall>node \<in> set (hx_nodes ix). node_ok w node"
  shows "has_layer ix l n \<longleftrightarrow> n < length (hx_nodes ix) \<and> int l \<le> hn_top_layer (hx_nodes ix ! n)"
proof (cases "n < length (hx_nodes ix)")
  case True
  then show ?thesis using node_ok_nth [OF assms True] by (auto simp: has_layer_def node_ok_def)
qed (simp add: has_layer_def)

lemma numeric_queryI:
  assumes "nan_free h (hx_metric ix) (hx_width ix)" "\<forall>node \<in> set (hx_nodes ix). node_ok (hx_width ix) node"
    "length q = hx_width ix" "finite_vec q"
  shows "numeric_query h ix q"
  unfolding numeric_query_def qdist_def
proof (intro allI impI)
  fix n assume "n < length (hx_nodes ix)"
  then have "node_ok (hx_width ix) (hx_nodes ix ! n)" using assms(2) by simp
  then show "\<not> f32_isnan (distance_or_inf (h_calculator h) (hx_metric ix) q (hn_vector (hx_nodes ix ! n)))"
    using nan_freeD [OF assms(1,3)] assms(4) by (simp add: node_ok_def)
qed

lemma numeric_graphI:
  assumes "nan_free h (hx_metric ix) (hx_width ix)" "\<forall>node \<in> set (hx_nodes ix). node_ok (hx_width ix) node"
  shows "numeric_graph h ix"
  unfolding numeric_graph_def
proof
  fix node assume "node \<in> set (hx_nodes ix)"
  then have "node_ok (hx_width ix) node" using assms(2) by blast
  then show "numeric_query h ix (hn_vector node)" using numeric_queryI [OF assms] by (simp add: node_ok_def)
qed

lemma graph_ok_cong:
  assumes "map hn_neighbors (hx_nodes ix') = map hn_neighbors (hx_nodes ix)"
    "hx_max_neighbors_upper ix' = hx_max_neighbors_upper ix" "hx_max_neighbors_layer0 ix' = hx_max_neighbors_layer0 ix"
  shows "graph_ok ix' = graph_ok ix"
proof -
  have len: "length (hx_nodes ix') = length (hx_nodes ix)" using assms(1) by (metis length_map)
  have nb: "hn_neighbors (hx_nodes ix' ! n) = hn_neighbors (hx_nodes ix ! n)" if "n < length (hx_nodes ix)" for n
    using assms(1) that len by (metis nth_map)
  have hl: "has_layer ix' l n = has_layer ix l n" for l n
    using nb len by (auto simp: has_layer_def)
  have lim: "max_neighbors_for_layer ix' l = max_neighbors_for_layer ix l" for l
    using assms by (simp add: max_neighbors_for_layer_def)
  have "nbs ix' n l = nbs ix n l" if "has_layer ix l n" for l n
    using nb has_layer_node [OF that] by simp
  then show ?thesis
    unfolding graph_ok_def graph_closed_def degrees_ok_def hl lim by (metis (no_types, lifting))
qed

lemma new_hnsw_ok:
  assumes "nan_free h metric (unat d)" "levels_ok h (hx_level_scale (new_hnsw h d metric params)) (ip_seed params)"
  shows "hnsw_ok h (new_hnsw h d metric params)" and "hnsw_contents (new_hnsw h d metric params) = Map.empty"
    and "hnsw_slots (new_hnsw h d metric params) = 0" and "hx_width (new_hnsw h d metric params) = unat d"
  using assms by (auto simp: hnsw_ok_def new_hnsw_def Let_def entry_point_ok_def hnsw_contents_def
      graph_ok_def graph_closed_def degrees_ok_def has_layer_def params_ok_def word_less_nat_alt word_le_nat_alt)


section \<open>Linking a new node\<close>

lemma link_layers_ok:
  assumes g: "graph_ok ix" and num: "numeric_graph h ix" and ef: "hx_ef_construction ix \<noteq> 0"
    and n: "n < length (hx_nodes ix)" "hn_vector (hx_nodes ix ! n) = q"
    and ls: "sorted_wrt (>) layers" "\<forall>l \<in> set layers. has_layer ix l cur \<and> has_layer ix l n"
    and fresh: "\<forall>l \<in> set layers. nbs ix n l = [] \<and> (\<forall>m. has_layer ix l m \<longrightarrow> n \<notin> set (nbs ix m l))"
  shows "\<exists>ix' c. ofold (link_layer h q n) layers (ix, cur) = Some (ix', c) \<and> same_shape ix ix' \<and> graph_ok ix'"
proof -
  let ?P = "\<lambda>ls (ix', c). same_shape ix ix' \<and> graph_ok ix' \<and> sorted_wrt (>) ls \<and>
      (\<forall>l \<in> set ls. has_layer ix l c \<and> has_layer ix l n \<and> nbs ix' n l = [] \<and>
         (\<forall>m. has_layer ix l m \<longrightarrow> n \<notin> set (nbs ix' m l)))"
  have "\<exists>st. ofold (link_layer h q n) layers (ix, cur) = Some st \<and> ?P [] st"
  proof (rule ofold_invariant [where P = ?P])
    show "?P layers (ix, cur)" using g ls fresh by simp
    fix l ls st assume P: "?P (l # ls) st"
    obtain ix1 c where st: "st = (ix1, c)" by (cases st)
    have sh: "same_shape ix ix1" and g1: "graph_ok ix1" using P st by simp_all
    have hl: "has_layer ix l c" "has_layer ix l n" "nbs ix1 n l = []" "\<forall>m. has_layer ix l m \<longrightarrow> n \<notin> set (nbs ix1 m l)"
      using P st by simp_all
    note same = same_shape_has_layer [OF sh] same_shape_vector [OF sh n(1)] same_shape_length [OF sh]
    have num1: "numeric_graph h ix1" using same_shape_numeric_graph [OF sh num] .
    then have nq: "numeric_query h ix1 q" using n same by (metis nth_mem numeric_graph_def)
    obtain found where f: "search_layer h ix1 q [c] (hx_ef_construction ix1) l = Some found"
      "\<forall>x \<in> set found. item_ok h ix1 q l x" "distinct (map snd found)"
      using search_layer_ok [of ix1 h q "hx_ef_construction ix1" "[c]" l] g1 nq ef hl(1) same same_shape_fields [OF sh]
      by (auto simp: graph_ok_def)
    obtain ix2 where c: "connect_node h ix1 n found l = Some ix2" "same_shape ix1 ix2" "graph_ok ix2"
      "\<And>m k. m < length (hx_nodes ix1) \<Longrightarrow> k \<noteq> l \<Longrightarrow> nbs ix2 m k = nbs ix1 m k"
      using connect_node_ok [OF g1 num1, of l n found] f hl same n by auto
    let ?c = "if found = [] then c else snd (hd found)"
    have "link_layer h q n l st = Some (ix2, ?c)" using st f(1) c(1) by (simp add: link_layer_def)
    moreover have hc: "has_layer ix l ?c" using hl(1) f(2) same by (simp add: item_ok_def)
    have "?P ls (ix2, ?c)"
    proof -
      have lt: "\<forall>k \<in> set ls. k < l" and srt: "sorted_wrt (>) ls" using P st by auto
      have "has_layer ix k ?c \<and> has_layer ix k n \<and> nbs ix2 n k = [] \<and>
          (\<forall>m. has_layer ix k m \<longrightarrow> n \<notin> set (nbs ix2 m k))" if k: "k \<in> set ls" for k
      proof -
        have "k < l" using lt k by blast
        then have "has_layer ix k ?c" using has_layer_down [OF hc] by simp
        moreover have "has_layer ix k n" "nbs ix1 n k = []" "\<forall>m. has_layer ix k m \<longrightarrow> n \<notin> set (nbs ix1 m k)"
          using P st k by simp_all
        moreover have "nbs ix2 m k = nbs ix1 m k" if "m < length (hx_nodes ix)" for m
          using c(4) [of m k] that same(3) \<open>k < l\<close> by simp
        ultimately show ?thesis using n(1) has_layer_node by metis
      qed
      then show ?thesis using same_shape_trans [OF sh c(2)] c(3) srt by simp
    qed
    ultimately show "\<exists>st'. link_layer h q n l st = Some st' \<and> ?P ls st'" by blast
  qed
  then show ?thesis by auto
qed

lemma layers_down_strict: "sorted_wrt (>) (layers_down a b)"
  by (simp add: layers_down_def sorted_wrt_rev)

lemma link_node_ok:
  assumes g: "graph_ok ix" and num: "numeric_graph h ix" and ef: "hx_ef_construction ix \<noteq> 0"
    and nodes: "\<forall>node \<in> set (hx_nodes ix). node_ok w node"
    and n: "n < length (hx_nodes ix)" "hn_vector (hx_nodes ix ! n) = q" "hn_top_layer (hx_nodes ix ! n) = level"
    and fresh: "\<forall>l m. has_layer ix l n \<longrightarrow> has_layer ix l m \<longrightarrow> nbs ix n l = [] \<and> n \<notin> set (nbs ix m l)"
    and small: "n < 2 ^ 31"
    and entry: "hx_entry_point ix = -1 \<and> hx_max_level ix = -1 \<or>
      (\<exists>e < length (hx_nodes ix). hx_entry_point ix = int e \<and> hn_top_layer (hx_nodes ix ! e) = hx_max_level ix)"
  shows "\<exists>ix'. same_shape ix ix' \<and> graph_ok ix' \<and> link_node h ix n q level =
    Some (if hx_max_level ix < level then ix'\<lparr>hx_entry_point := int n, hx_max_level := level\<rparr> else ix')"
proof (cases "hx_entry_point ix < 0")
  case True
  then have "hx_max_level ix < level" using entry n node_ok_nth [OF nodes n(1)] by (auto simp: node_ok_def)
  then show ?thesis using g True small by (intro exI [of _ ix]) (simp add: link_node_def int_of_u32_def)
next
  case False
  then obtain e where e: "e < length (hx_nodes ix)" "hx_entry_point ix = int e" "hn_top_layer (hx_nodes ix ! e) = hx_max_level ix"
    using entry by auto
  have lvl: "0 \<le> level" and mx: "0 \<le> hx_max_level ix"
    using node_ok_nth [OF nodes n(1)] node_ok_nth [OF nodes e(1)] n(3) e(3) by (simp_all add: node_ok_def)
  note hl = has_layer_top [OF nodes]
  let ?t = "nat (min level (hx_max_level ix))"
  have "\<exists>c. descend h ix q (layers_down (hx_max_level ix) level) e = Some c \<and> has_layer ix ?t c"
  proof (rule descend_ok)
    show "graph_closed ix" using g by (simp add: graph_ok_def)
    show "has_layer ix (nat (hx_max_level ix)) e" using e mx by (simp add: hl)
    show "\<forall>l \<in> set (layers_down (hx_max_level ix) level). l \<le> nat (hx_max_level ix) \<and> ?t \<le> l"
    proof
      fix l assume "l \<in> set (layers_down (hx_max_level ix) level)"
      then have "int l \<le> hx_max_level ix \<and> level < int l" by (rule layers_down_props(2))
      then show "l \<le> nat (hx_max_level ix) \<and> ?t \<le> l" by linarith
    qed
  qed (use layers_down_props(1) in auto)
  then obtain c where c: "descend h ix q (layers_down (hx_max_level ix) level) e = Some c" "has_layer ix ?t c" by blast
  have "\<exists>ix' c'. ofold (link_layer h q n) (layers_down (min level (hx_max_level ix)) (-1)) (ix, c) = Some (ix', c')
      \<and> same_shape ix ix' \<and> graph_ok ix'"
  proof (rule link_layers_ok [OF g num ef n(1,2) layers_down_strict])
    show "\<forall>l \<in> set (layers_down (min level (hx_max_level ix)) (-1)). has_layer ix l c \<and> has_layer ix l n"
    proof
      fix l assume "l \<in> set (layers_down (min level (hx_max_level ix)) (-1))"
      then have l: "int l \<le> min level (hx_max_level ix)" using layers_down_props(2) by blast
      then have "l \<le> ?t" by linarith
      then have "has_layer ix l c" using c(2) has_layer_down by blast
      then show "has_layer ix l c \<and> has_layer ix l n" using n l by (simp add: hl)
    qed
    then show "\<forall>l \<in> set (layers_down (min level (hx_max_level ix)) (-1)). nbs ix n l = []
        \<and> (\<forall>m. has_layer ix l m \<longrightarrow> n \<notin> set (nbs ix m l))" using fresh by blast
  qed
  then obtain ix' c' where l: "ofold (link_layer h q n) (layers_down (min level (hx_max_level ix)) (-1)) (ix, c) = Some (ix', c')"
    "same_shape ix ix'" "graph_ok ix'" by blast
  have "link_node h ix n q level =
      Some (if hx_max_level ix < level then ix'\<lparr>hx_entry_point := int n, hx_max_level := level\<rparr> else ix')"
    using False e(2) c(1) l(1) same_shape_fields(10) [OF l(2)] small by (simp add: link_node_def int_of_u32_def)
  then show ?thesis using l by blast
qed



section \<open>Membership\<close>

lemma same_shape_nodes:
  assumes "same_shape ix ix'"
  shows "map hn_id (hx_nodes ix') = map hn_id (hx_nodes ix)"
    and "(\<forall>node \<in> set (hx_nodes ix'). node_ok w node) = (\<forall>node \<in> set (hx_nodes ix). node_ok w node)"
    and "length (live_nodes ix') = length (live_nodes ix)"
    and "hnsw_contents ix' = hnsw_contents ix"
proof -
  have len: "length (hx_nodes ix') = length (hx_nodes ix)" by (rule same_shape_length [OF assms])
  have fr: "frame (hx_nodes ix' ! n) = frame (hx_nodes ix ! n)" if "n < length (hx_nodes ix)" for n
    using assms that by (rule same_shape_frame)
  show "map hn_id (hx_nodes ix') = map hn_id (hx_nodes ix)"
    using len fr by (intro nth_equalityI) (simp_all add: frame_def)
  show "(\<forall>node \<in> set (hx_nodes ix'). node_ok w node) = (\<forall>node \<in> set (hx_nodes ix). node_ok w node)"
    unfolding all_set_conv_all_nth len using fr by (simp add: node_ok_def frame_def)
  have "map hn_deleted (hx_nodes ix') = map hn_deleted (hx_nodes ix)"
    using len fr by (intro nth_equalityI) (simp_all add: frame_def)
  then have "length (filter Not (map hn_deleted (hx_nodes ix'))) = length (filter Not (map hn_deleted (hx_nodes ix)))"
    by simp
  then show "length (live_nodes ix') = length (live_nodes ix)" by (simp add: filter_map o_def)
  have "live_vector ix' n = live_vector ix n" for n
    using fr [of n] len by (cases "n < length (hx_nodes ix)") (simp_all add: live_vector_def frame_def elem_at_def)
  then have "live_vector ix' = live_vector ix" by (rule ext)
  then show "hnsw_contents ix' = hnsw_contents ix"
    unfolding hnsw_contents_def same_shape_fields(8) [OF assms] by (simp only:)
qed

lemma append_node_simps [simp]:
  "hx_nodes (append_node ix rid v level) = hx_nodes ix @ [\<lparr>hn_id = rid, hn_vector = v, hn_top_layer = level,
     hn_deleted = False, hn_neighbors = replicate (nat (level + 1)) []\<rparr>]"
  "hx_dimensionality (append_node ix rid v level) = hx_dimensionality ix"
  "hx_metric (append_node ix rid v level) = hx_metric ix"
  "hx_max_neighbors_upper (append_node ix rid v level) = hx_max_neighbors_upper ix"
  "hx_max_neighbors_layer0 (append_node ix rid v level) = hx_max_neighbors_layer0 ix"
  "hx_ef_construction (append_node ix rid v level) = hx_ef_construction ix"
  "hx_level_scale (append_node ix rid v level) = hx_level_scale ix"
  "hx_rng_seed (append_node ix rid v level) = hx_rng_seed ix"
  "hx_entry_point (append_node ix rid v level) = hx_entry_point ix"
  "hx_max_level (append_node ix rid v level) = hx_max_level ix"
  "hx_live_count (append_node ix rid v level) = hx_live_count ix + 1"
  "hx_id_to_internal (append_node ix rid v level) = (rid, length (hx_nodes ix) mod 2 ^ 32) # hx_id_to_internal ix"
  by (simp_all add: append_node_def)

text \<open>A new node is isolated until it is linked.\<close>

lemma append_node_graph:
  fixes rid v level
  assumes g: "graph_ok ix"
  defines "ix' \<equiv> append_node ix rid v level" and "n \<equiv> length (hx_nodes ix)"
  shows "graph_ok ix'"
    and "has_layer ix' l n \<Longrightarrow> has_layer ix' l m \<Longrightarrow> nbs ix' n l = [] \<and> n \<notin> set (nbs ix' m l)"
proof -
  have old: "has_layer ix' l m = has_layer ix l m" "nbs ix' m l = nbs ix m l" if "m < n" for l m
    using that by (simp_all add: has_layer_def ix'_def n_def nth_append)
  have new: "nbs ix' n l = []" if "has_layer ix' l n" for l
    using that by (simp add: has_layer_def ix'_def n_def nth_append)
  have bound: "m < n \<or> m = n" if "has_layer ix' l m" for l m
    using that by (auto simp: has_layer_def ix'_def n_def)
  have lim: "max_neighbors_for_layer ix' l = max_neighbors_for_layer ix l" for l
    by (simp add: max_neighbors_for_layer_def ix'_def)
  have lists: "(\<forall>nb \<in> set (nbs ix' m l). has_layer ix l nb) \<and> length (nbs ix' m l) \<le> unat (max_neighbors_for_layer ix' l)
      \<and> distinct (m # nbs ix' m l)" if "has_layer ix' l m" for l m
  proof (cases "m = n")
    case True
    show ?thesis using new that unfolding True by simp
  next
    case False
    then have "m < n" using bound that by blast
    then show ?thesis using graph_okD [OF g, of l m] that by (simp add: old lim)
  qed
  have up: "has_layer ix' l m \<and> m < n" if "has_layer ix l m" for l m
    using that old(1) has_layer_node [OF that] by (simp add: n_def)
  then show "graph_ok ix'"
    unfolding graph_ok_def graph_closed_def degrees_ok_def using lists by blast
  show "nbs ix' n l = [] \<and> n \<notin> set (nbs ix' m l)" if "has_layer ix' l n" "has_layer ix' l m"
    using new lists up that by blast
qed

lemma node_update_ok:
  assumes ok: "hnsw_ok h ix" and f: "omap_find rid (hx_id_to_internal ix) = Some n"
    and node: "node = hx_nodes ix ! n" "node' = node\<lparr>hn_vector := v, hn_deleted := b\<rparr>"
    and v: "length v = hx_width ix" "finite_vec v"
    and cnt: "word_of_nat (length (live_nodes ix) + (if b then 0 else 1) - (if hn_deleted node then 0 else 1)) = c"
  defines "ix' \<equiv> ix\<lparr>hx_nodes := (hx_nodes ix)[n := node'], hx_live_count := c\<rparr>"
  shows "hnsw_ok h ix'" and "hnsw_contents ix' = (hnsw_contents ix)(rid := if b then None else Some v)"
    and "n < length (hx_nodes ix)"
proof -
  have n: "n < length (hx_nodes ix)" "hn_id (hx_nodes ix ! n) = rid"
    using f id_tableD [OF hnsw_okD(1) [OF ok], of rid n] by auto
  then show "n < length (hx_nodes ix)" by simp
  have nodes: "hx_nodes ix' = (hx_nodes ix)[n := node']" by (simp add: ix'_def)
  have "node_ok (hx_width ix) node" using hnsw_okD(8) [OF ok] n(1) node(1) by simp
  then have "node_ok (hx_width ix) node'" using v node by (simp add: node_ok_def)
  then have "\<forall>x \<in> set (hx_nodes ix'). node_ok (hx_width ix') x"
    unfolding nodes using hnsw_okD(8) [OF ok] by (intro all_update) (simp_all add: ix'_def)
  moreover have ids: "map hn_id (hx_nodes ix') = map hn_id (hx_nodes ix)"
    unfolding nodes map_update using n node by (simp add: list_update_same_conv)
  moreover have "graph_ok ix'"
  proof -
    have "map hn_neighbors (hx_nodes ix') = map hn_neighbors (hx_nodes ix)"
      unfolding nodes map_update using n node by (simp add: list_update_same_conv)
    then show ?thesis using graph_ok_cong [of ix' ix] hnsw_okD(2) [OF ok] by (simp add: ix'_def)
  qed
  moreover have "entry_point_ok ix'"
  proof -
    have top: "hn_top_layer (hx_nodes ix' ! m) = hn_top_layer (hx_nodes ix ! m)" for m
      unfolding nodes using n node by (cases "m = n") simp_all
    have "\<forall>x \<in> set (hx_nodes ix'). hn_top_layer x \<le> hx_max_level ix"
      using hnsw_okD(3) [OF ok] n(1) node unfolding nodes by (intro all_update) (simp_all add: entry_point_ok_def)
    then show ?thesis using hnsw_okD(3) [OF ok] top n(1) by (auto simp: entry_point_ok_def ix'_def)
  qed
  moreover have "hx_live_count ix' = word_of_nat (length (live_nodes ix'))"
  proof -
    have "length (live_nodes ix') = length (live_nodes ix) + (if b then 0 else 1) - (if hn_deleted node then 0 else 1)"
      using length_filter_update [OF n(1), of "\<lambda>x. \<not> hn_deleted x" node'] node by (auto simp: nodes)
    then show ?thesis using cnt by (simp add: ix'_def)
  qed
  moreover have "params_ok h ix'" using hnsw_okD(9) [OF ok] by (simp add: params_ok_def ix'_def)
  ultimately show "hnsw_ok h ix'" using ok by (simp add: hnsw_ok_def ix'_def)
  have lv: "live_vector ix' m = (if m = n then if b then None else Some v else live_vector ix m)" for m
    using n node by (cases "m = n") (simp_all add: live_vector_def ix'_def elem_at_def)
  show "hnsw_contents ix' = (hnsw_contents ix)(rid := if b then None else Some v)"
  proof
    fix r
    have "omap_find r (hx_id_to_internal ix) = Some n \<Longrightarrow> r = rid"
      using id_tableD [OF hnsw_okD(1) [OF ok], of r n] n by auto
    moreover have "hx_id_to_internal ix' = hx_id_to_internal ix" by (simp add: ix'_def)
    ultimately show "hnsw_contents ix' r = ((hnsw_contents ix)(rid := if b then None else Some v)) r"
      using f by (cases "omap_find r (hx_id_to_internal ix)") (auto simp: hnsw_contents_def lv)
  qed
qed

lemma levels_okD:
  assumes "levels_ok h scale seed"
  obtains l where "level_of_draw h scale (h_draw h seed n) = Some l" "0 \<le> l" "l < 2 ^ 31"
proof -
  obtain l where l: "level_of_draw h scale (h_draw h seed n) = Some l" "0 \<le> l"
    using assms unfolding levels_ok_def by blast
  moreover have "l < 2 ^ 31"
    using l(1) by (auto simp: level_of_draw_def f64_to_int_def Let_def split: if_splits)
  ultimately show thesis by (rule that)
qed

lemma live_vector_append:
  "live_vector (append_node ix rid v level) s = (if s = length (hx_nodes ix) then Some v else live_vector ix s)"
  by (auto simp: live_vector_def elem_at_def nth_append)

lemma hnsw_ok_finish:
  assumes sh: "same_shape ix ix'" and g: "graph_ok ix'"
    and ids: "id_table (hx_id_to_internal ix) (map hn_id (hx_nodes ix))"
    and nodes: "\<forall>node \<in> set (hx_nodes ix). node_ok (hx_width ix) node"
    and live: "hx_live_count ix = word_of_nat (length (live_nodes ix))"
    and host: "params_ok h ix" "nan_free h (hx_metric ix) (hx_width ix)"
      "levels_ok h (hx_level_scale ix) (hx_rng_seed ix)"
    and e: "e < length (hx_nodes ix)" "hn_top_layer (hx_nodes ix ! e) = mx"
      "\<forall>node \<in> set (hx_nodes ix). hn_top_layer node \<le> mx"
    and r: "r = ix'\<lparr>hx_entry_point := int e, hx_max_level := mx\<rparr>"
  shows "hnsw_ok h r" and "hnsw_contents r = hnsw_contents ix" and "length (hx_nodes r) = length (hx_nodes ix)"
    and "hx_dimensionality r = hx_dimensionality ix" and "hx_metric r = hx_metric ix"
    and "hx_max_neighbors_upper r = hx_max_neighbors_upper ix"
proof -
  note f = same_shape_fields [OF sh] same_shape_length [OF sh] same_shape_nodes [OF sh]
  have g': "graph_ok r" using g graph_ok_cong [of r ix'] by (simp add: r)
  have top: "hn_top_layer (hx_nodes ix' ! n) = hn_top_layer (hx_nodes ix ! n)" if "n < length (hx_nodes ix)" for n
    using same_shape_frame [OF sh that] by (simp add: frame_def)
  have "\<forall>node \<in> set (hx_nodes ix'). hn_top_layer node \<le> mx"
    using e(3) top f(13) unfolding all_set_conv_all_nth by simp
  moreover have "hx_nodes ix' \<noteq> []" using e(1) f(13) by auto
  ultimately have "entry_point_ok r" using e(1,2) top f(13) by (auto simp: entry_point_ok_def r)
  moreover have "\<forall>node \<in> set (hx_nodes ix'). node_ok (hx_width ix) node" using nodes f(15) by simp
  ultimately show "hnsw_ok h r" using g' ids live host f by (simp add: hnsw_ok_def params_ok_def r)
  have "live_vector r = live_vector ix'" by (rule ext) (simp add: live_vector_def r)
  moreover have "hx_id_to_internal r = hx_id_to_internal ix'" by (simp add: r)
  ultimately have "hnsw_contents r = hnsw_contents ix'" unfolding hnsw_contents_def by (simp only:)
  then show "hnsw_contents r = hnsw_contents ix" using f(17) by simp
  show "length (hx_nodes r) = length (hx_nodes ix)" "hx_dimensionality r = hx_dimensionality ix" "hx_metric r = hx_metric ix"
    "hx_max_neighbors_upper r = hx_max_neighbors_upper ix"
    using f by (simp_all add: r)
qed

lemma hnsw_add_ok:
  assumes ok: "hnsw_ok h ix" and small: "hnsw_slots ix < 2 ^ 31 - 1" and rid: "rid \<noteq> []"
    and v: "length v = hx_width ix" "finite_vec v"
  shows "\<exists>ix'. hnsw_add h ix rid v = Some (Inr (), ix') \<and> hnsw_ok h ix' \<and> hnsw_slots ix' \<le> hnsw_slots ix + 1
     \<and> hx_width ix' = hx_width ix \<and> hnsw_dist h ix' = hnsw_dist h ix
     \<and> hnsw_contents ix' = (hnsw_contents ix)(rid \<mapsto> v) \<and> hx_max_neighbors_upper ix' = hx_max_neighbors_upper ix"
proof (cases "omap_find rid (hx_id_to_internal ix)")
  case (Some n)
  let ?node = "hx_nodes ix ! n"
  let ?c = "if hn_deleted ?node then hx_live_count ix + 1 else hx_live_count ix"
  have n: "n < length (hx_nodes ix)" using Some id_tableD [OF hnsw_okD(1) [OF ok], of rid n] by simp
  have pos: "0 < length (live_nodes ix)" if "\<not> hn_deleted ?node"
    using that n by (auto simp: length_greater_0_conv filter_empty_conv)
  have cnt: "word_of_nat (length (live_nodes ix) + (if False then 0 else 1) - (if hn_deleted ?node then 0 else 1)) = ?c"
    using hnsw_okD(7) [OF ok] by simp
  let ?ix = "ix\<lparr>hx_nodes := (hx_nodes ix)[n := ?node\<lparr>hn_vector := v, hn_deleted := False\<rparr>], hx_live_count := ?c\<rparr>"
  have a: "hnsw_add h ix rid v = Some (Inr (), ?ix)" using rid v Some n by (simp add: hnsw_add_def)
  have "hnsw_ok h ?ix" "hnsw_contents ?ix = (hnsw_contents ix)(rid \<mapsto> v)"
    using node_update_ok [OF ok Some refl refl v cnt] by simp_all
  then show ?thesis using a by (auto simp: hnsw_dist_def)
next
  case None
  let ?n = "length (hx_nodes ix)"
  obtain level where level: "level_of_draw h (hx_level_scale ix) (h_draw h (hx_rng_seed ix) (hx_draws ix)) = Some level"
    "0 \<le> level" "level < 2 ^ 31"
    using levels_okD [OF hnsw_okD(6) [OF ok]] by blast
  define ix1 where "ix1 = ix\<lparr>hx_draws := hx_draws ix + 1\<rparr>"
  define ix2 where "ix2 = append_node ix1 rid v level"
  have ix1: "hx_nodes ix1 = hx_nodes ix" "hx_id_to_internal ix1 = hx_id_to_internal ix"
    "hx_dimensionality ix1 = hx_dimensionality ix" "hx_metric ix1 = hx_metric ix"
    "hx_max_neighbors_upper ix1 = hx_max_neighbors_upper ix" "hx_max_neighbors_layer0 ix1 = hx_max_neighbors_layer0 ix"
    "hx_ef_construction ix1 = hx_ef_construction ix" "hx_level_scale ix1 = hx_level_scale ix"
    "hx_rng_seed ix1 = hx_rng_seed ix" "hx_entry_point ix1 = hx_entry_point ix" "hx_max_level ix1 = hx_max_level ix"
    "hx_live_count ix1 = hx_live_count ix" by (simp_all add: ix1_def)
  have mod: "?n mod 2 ^ 32 = ?n" "?n mod 4294967296 = ?n" using small by simp_all
  have g1: "graph_ok ix1" using hnsw_okD(2) [OF ok] graph_ok_cong [of ix1 ix] ix1 by simp
  have g2: "graph_ok ix2" unfolding ix2_def by (rule append_node_graph(1) [OF g1])
  have fresh: "\<forall>l m. has_layer ix2 l ?n \<longrightarrow> has_layer ix2 l m \<longrightarrow> nbs ix2 ?n l = [] \<and> ?n \<notin> set (nbs ix2 m l)"
    using append_node_graph(2) [OF g1, where rid = rid and v = v and level = level] ix1(1) unfolding ix2_def by simp
  have w: "hx_width ix2 = hx_width ix" by (simp add: ix2_def ix1)
  have nodes2: "\<forall>node \<in> set (hx_nodes ix2). node_ok (hx_width ix2) node"
    using hnsw_okD(8) [OF ok] rid v level unfolding w by (simp add: ix2_def ix1) (simp add: node_ok_def)
  have ids2: "id_table (hx_id_to_internal ix2) (map hn_id (hx_nodes ix2))"
    using id_table_append [OF hnsw_okD(1) [OF ok] None] by (simp add: ix2_def ix1 mod)
  have num: "numeric_graph h ix2"
    using hnsw_okD(5) [OF ok] nodes2 by (intro numeric_graphI) (simp_all add: ix2_def ix1)
  have ef: "hx_ef_construction ix2 \<noteq> 0" using hnsw_okD(4) [OF ok] by (simp add: ix2_def ix1)
  have n2: "?n < length (hx_nodes ix2)" "hn_vector (hx_nodes ix2 ! ?n) = v" "hn_top_layer (hx_nodes ix2 ! ?n) = level"
    by (simp_all add: ix2_def ix1)
  have entry: "hx_entry_point ix2 = -1 \<and> hx_max_level ix2 = -1 \<or>
      (\<exists>e < length (hx_nodes ix2). hx_entry_point ix2 = int e \<and> hn_top_layer (hx_nodes ix2 ! e) = hx_max_level ix2)"
  proof (cases "hx_nodes ix = []")
    case True
    then show ?thesis using hnsw_okD(3) [OF ok] by (simp add: entry_point_ok_def ix2_def ix1)
  next
    case False
    then obtain e where "e < ?n" "hx_entry_point ix = int e" "hn_top_layer (hx_nodes ix ! e) = hx_max_level ix"
      using hnsw_okD(3) [OF ok] by (auto simp: entry_point_ok_def)
    then show ?thesis by (intro disjI2 exI [of _ e]) (simp add: ix2_def ix1 nth_append)
  qed
  have "?n < 2 ^ 31" using small by simp
  then obtain ix3 where ix3: "same_shape ix2 ix3" "graph_ok ix3"
    and l: "link_node h ix2 ?n v level =
      Some (if hx_max_level ix2 < level then ix3\<lparr>hx_entry_point := int ?n, hx_max_level := level\<rparr> else ix3)"
    using link_node_ok [OF g2 num ef nodes2 n2 fresh _ entry] by blast
  have tops: "\<forall>node \<in> set (hx_nodes ix). hn_top_layer node \<le> hx_max_level ix"
    using hnsw_okD(3) [OF ok] by (simp add: entry_point_ok_def)
  have "\<exists>e mx. (if hx_max_level ix2 < level then ix3\<lparr>hx_entry_point := int ?n, hx_max_level := level\<rparr> else ix3)
      = ix3\<lparr>hx_entry_point := int e, hx_max_level := mx\<rparr> \<and> e < length (hx_nodes ix2) \<and> hn_top_layer (hx_nodes ix2 ! e) = mx
      \<and> (\<forall>node \<in> set (hx_nodes ix2). hn_top_layer node \<le> mx)"
  proof (cases "hx_max_level ix2 < level")
    case True
    moreover have "hx_max_level ix2 = hx_max_level ix" by (simp add: ix2_def ix1)
    ultimately have "\<forall>node \<in> set (hx_nodes ix2). hn_top_layer node \<le> level" using tops by (auto simp: ix2_def ix1)
    then show ?thesis using True n2 by (intro exI [of _ ?n] exI [of _ level]) simp
  next
    case False
    then have "hx_max_level ix2 \<noteq> -1" using level(2) by auto
    then obtain e where e: "e < length (hx_nodes ix2)" "hx_entry_point ix2 = int e" "hn_top_layer (hx_nodes ix2 ! e) = hx_max_level ix2"
      using entry by blast
    have "hx_max_level ix2 = hx_max_level ix" by (simp add: ix2_def ix1)
    then have "\<forall>node \<in> set (hx_nodes ix2). hn_top_layer node \<le> hx_max_level ix2" using tops False by (auto simp: ix2_def ix1)
    moreover have "ix3 = ix3\<lparr>hx_entry_point := int e, hx_max_level := hx_max_level ix2\<rparr>"
      using same_shape_fields(9,10) [OF ix3(1)] e(2) by (cases ix3) simp
    ultimately show ?thesis using False e by (intro exI [of _ e] exI [of _ "hx_max_level ix2"]) simp
  qed
  then obtain e mx where r: "(if hx_max_level ix2 < level then ix3\<lparr>hx_entry_point := int ?n, hx_max_level := level\<rparr> else ix3)
      = ix3\<lparr>hx_entry_point := int e, hx_max_level := mx\<rparr>"
    and e0: "e < length (hx_nodes ix2)" "hn_top_layer (hx_nodes ix2 ! e) = mx"
      "\<forall>node \<in> set (hx_nodes ix2). hn_top_layer node \<le> mx" by (elim exE conjE)
  note e = l [unfolded r] e0
  have live2: "hx_live_count ix2 = word_of_nat (length (live_nodes ix2))"
    using hnsw_okD(7) [OF ok] by (simp add: ix2_def ix1)
  have host2: "nan_free h (hx_metric ix2) (hx_width ix2)" "levels_ok h (hx_level_scale ix2) (hx_rng_seed ix2)"
    using hnsw_okD(5,6) [OF ok] by (simp_all add: ix2_def ix1)
  have par2: "params_ok h ix2" using hnsw_okD(9) [OF ok] by (simp add: params_ok_def ix2_def ix1)
  note fin = hnsw_ok_finish [OF ix3 ids2 nodes2 live2 par2 host2 e(2-4) refl]
  have "hnsw_contents ix2 = (hnsw_contents ix)(rid \<mapsto> v)"
  proof
    fix r
    have "omap_find r (hx_id_to_internal ix) \<noteq> Some ?n" using id_tableD [OF hnsw_okD(1) [OF ok], of r ?n] by simp
    then show "hnsw_contents ix2 r = ((hnsw_contents ix)(rid \<mapsto> v)) r"
      by (auto simp: hnsw_contents_def ix2_def ix1 mod live_vector_append live_vector_def [of ix1] live_vector_def [of ix]
          split: option.split)
  qed
  moreover have "hnsw_add h ix rid v = Some (Inr (), ix3\<lparr>hx_entry_point := int e, hx_max_level := mx\<rparr>)"
    using rid v(1) None level(1,2) e(1) unfolding ix2_def ix1_def
    by (simp add: hnsw_add_def random_top_layer_def mod)
  ultimately show ?thesis using fin by (simp add: hnsw_dist_def) (simp add: ix2_def ix1)
qed

lemma hnsw_remove_ok:
  assumes ok: "hnsw_ok h ix"
  shows "\<exists>ix'. hnsw_remove ix rid = (if hnsw_contents ix rid = None then Inl NotFound else Inr (), ix') \<and> hnsw_ok h ix'
     \<and> hnsw_slots ix' = hnsw_slots ix \<and> hx_width ix' = hx_width ix \<and> hnsw_dist h ix' = hnsw_dist h ix
     \<and> hnsw_contents ix' = (hnsw_contents ix)(rid := None)"
proof (cases "hnsw_contents ix rid")
  case None
  have "n < length (hx_nodes ix)" if "omap_find rid (hx_id_to_internal ix) = Some n" for n
    using that id_tableD [OF hnsw_okD(1) [OF ok], of rid n] by simp
  then have "hnsw_remove ix rid = (Inl NotFound, ix)"
    using None by (auto simp: hnsw_remove_def hnsw_contents_def live_vector_def Let_def elem_at_def split: option.splits if_splits)
  moreover have "(hnsw_contents ix)(rid := None) = hnsw_contents ix" using None by auto
  ultimately show ?thesis using ok None by simp
next
  case (Some v)
  then obtain n where f: "omap_find rid (hx_id_to_internal ix) = Some n" "live_vector ix n = Some v"
    by (auto simp: hnsw_contents_def split: option.splits)
  let ?node = "hx_nodes ix ! n"
  have n: "n < length (hx_nodes ix)" "\<not> hn_deleted ?node" "hn_vector ?node = v"
    using f(2) by (auto simp: live_vector_def elem_at_def split: if_splits)
  have v: "length v = hx_width ix" "finite_vec v"
    using hnsw_okD(8) [OF ok] n by (auto simp: node_ok_def)
  have pos: "0 < length (live_nodes ix)" using n by (auto simp: length_greater_0_conv filter_empty_conv)
  have node: "?node\<lparr>hn_vector := v, hn_deleted := True\<rparr> = ?node\<lparr>hn_deleted := True\<rparr>" using n(3) by (cases ?node) simp
  have cnt: "word_of_nat (length (live_nodes ix) + (if True then 0 else 1) - (if hn_deleted ?node then 0 else 1)) = hx_live_count ix - 1"
    using hnsw_okD(7) [OF ok] n(2) pos by (cases "length (live_nodes ix)") simp_all
  note u = node_update_ok [OF ok f(1) refl refl v cnt, unfolded node]
  have "hnsw_remove ix rid = (Inr (), ix\<lparr>hx_nodes := (hx_nodes ix)[n := ?node\<lparr>hn_deleted := True\<rparr>],
      hx_live_count := hx_live_count ix - 1\<rparr>)"
    using f(1) n(2) by (simp add: hnsw_remove_def Let_def)
  then show ?thesis using u(1,2) Some by (simp add: hnsw_dist_def)
qed



section \<open>A breadth beyond the graph explores everything reachable\<close>

definition layer_edges :: "hnsw_index \<Rightarrow> nat \<Rightarrow> (nat \<times> nat) set" where
  "layer_edges ix l = {(a, b). has_layer ix l a \<and> b \<in> set (nbs ix a l)}"

definition reachable_from :: "hnsw_index \<Rightarrow> nat \<Rightarrow> nat \<Rightarrow> nat set" where
  "reachable_from ix l c = {x. (c, x) \<in> (layer_edges ix l)\<^sup>*}"

text \<open>Nothing has been dropped, and only candidates still have unexplored neighbours.\<close>

definition full_state :: "hnsw_index \<Rightarrow> nat \<Rightarrow> nat \<Rightarrow> layer_state \<Rightarrow> bool" where
  "full_state ix l c st \<longleftrightarrow>
     (case st of (cand, res, visited) \<Rightarrow>
        snd ` set res = set visited \<and> set cand \<subseteq> set res \<and> c \<in> set visited \<and> set visited \<subseteq> reachable_from ix l c \<and>
        (\<forall>v \<in> set visited. v \<notin> snd ` set cand \<longrightarrow> set (nbs ix v l) \<subseteq> set visited))"

lemma results_length_le:
  assumes "results_ok h ix q l res"
  shows "length res \<le> length (hx_nodes ix)"
proof -
  have "snd ` set res \<subseteq> {..<length (hx_nodes ix)}" using assms by (auto simp: results_ok_def item_ok_def has_layer_def)
  then have "card (snd ` set res) \<le> length (hx_nodes ix)" using card_mono [of "{..<length (hx_nodes ix)}"] by simp
  moreover have "card (set (map snd res)) = length (map snd res)" using assms distinct_card results_ok_def by blast
  ultimately show ?thesis by simp
qed

lemma visit_full:
  assumes num: "numeric_query h ix q" and nb: "has_layer ix l nb" and ef: "length (hx_nodes ix) < ef"
    and ok: "layer_state_ok h ix q l ef (c, r, v)" and full: "snd ` set r = set v" "set c \<subseteq> set r"
  shows "\<exists>c' r'. visit h ix q ef nb (c, r, v) = Some (c', r', (if nb \<in> set v then v else nb # v))
    \<and> layer_state_ok h ix q l ef (c', r', (if nb \<in> set v then v else nb # v))
    \<and> snd ` set r' = insert nb (set v) \<and> set c' \<subseteq> set r' \<and> snd ` set c' = snd ` set c \<union> ({nb} - set v)"
proof (cases "nb \<in> set v")
  case True
  then show ?thesis using ok full by (auto simp: visit_def)
next
  case False
  let ?x = "(qdist h ix q nb, nb)"
  have r: "results_ok h ix q l r" "\<forall>x \<in> set c. item_ok h ix q l x" using ok by (simp_all add: layer_state_ok_def)
  have short: "length r < ef" using results_length_le [OF r(1)] ef by simp
  have d: "distance_to h ix q nb = Some (qdist h ix q nb)" using has_layer_node [OF nb] by (rule distance_to_defined)
  have x: "item_ok h ix q l ?x" "snd ?x \<notin> snd ` set r" using nb False full(1) by (auto simp: item_ok_def)
  have "visit h ix q ef nb (c, r, v) = Some (ins_by pair_less ?x c, ins_by farther ?x r, nb # v)"
    using False d short push_both_ok(1) [OF num x r(2,1)] by (simp add: visit_def admits_def)
  moreover obtain st' where "visit h ix q ef nb (c, r, v) = Some st'" "layer_state_ok h ix q l ef st'"
    using visit_ok [OF num nb _ ok] ef by auto
  ultimately have "visit h ix q ef nb (c, r, v) = Some (ins_by pair_less ?x c, ins_by farther ?x r, nb # v)"
    "layer_state_ok h ix q l ef (ins_by pair_less ?x c, ins_by farther ?x r, nb # v)" by simp_all
  moreover have "snd ` set (ins_by farther ?x r) = insert nb (set v)" "set (ins_by pair_less ?x c) \<subseteq> set (ins_by farther ?x r)"
    "snd ` set (ins_by pair_less ?x c) = snd ` set c \<union> ({nb} - set v)"
    using full False by auto
  ultimately show ?thesis using False by (intro exI conjI) (simp_all only: if_False)
qed

lemma visits_full:
  assumes num: "numeric_query h ix q" and ef: "length (hx_nodes ix) < ef"
    and "\<forall>nb \<in> set xs. has_layer ix l nb" "layer_state_ok h ix q l ef (c, r, v)" "snd ` set r = set v" "set c \<subseteq> set r"
  shows "\<exists>c' r' v'. ofold (visit h ix q ef) xs (c, r, v) = Some (c', r', v') \<and> layer_state_ok h ix q l ef (c', r', v')
    \<and> set v' = set v \<union> set xs \<and> snd ` set r' = set v' \<and> set c' \<subseteq> set r' \<and> snd ` set c' = snd ` set c \<union> (set xs - set v)"
  using assms(3-)
proof (induction xs arbitrary: c r v)
  case (Cons nb xs)
  let ?v = "if nb \<in> set v then v else nb # v"
  obtain c1 r1 where 1: "visit h ix q ef nb (c, r, v) = Some (c1, r1, ?v)" "layer_state_ok h ix q l ef (c1, r1, ?v)"
    "snd ` set r1 = insert nb (set v)" "set c1 \<subseteq> set r1" "snd ` set c1 = snd ` set c \<union> ({nb} - set v)"
    using visit_full [OF num _ ef Cons.prems(2-4), of nb] Cons.prems(1) by auto
  have v: "set ?v = insert nb (set v)" by auto
  obtain c' r' v' where 2: "ofold (visit h ix q ef) xs (c1, r1, ?v) = Some (c', r', v')" "layer_state_ok h ix q l ef (c', r', v')"
    "set v' = set ?v \<union> set xs" "snd ` set r' = set v'" "set c' \<subseteq> set r'" "snd ` set c' = snd ` set c1 \<union> (set xs - set ?v)"
    using Cons.IH [OF _ 1(2) _ 1(4)] Cons.prems(1) 1(3) v by auto
  have "ofold (visit h ix q ef) (nb # xs) (c, r, v) = Some (c', r', v')" using 1(1) 2(1) by simp
  moreover have "set v' = set v \<union> set (nb # xs)" using 2(3) v by simp
  moreover have "snd ` set c' = snd ` set c \<union> (set (nb # xs) - set v)" unfolding 2(6) 1(5) v by auto
  ultimately show ?case using 2(2,4,5) by blast
qed simp

lemma explore_full:
  assumes "graph_closed ix" "numeric_query h ix q" "length (hx_nodes ix) < ef" "layer_state_ok h ix q l ef st" "full_state ix l c st"
  shows "\<exists>res. explore h ix q ef l st = Some res \<and> results_ok h ix q l res \<and> snd ` set res = reachable_from ix l c"
  using assms
proof (induction h ix q ef l st rule: explore.induct)
  case (1 h ix q ef l res visited)
  have sub: "set visited \<subseteq> reachable_from ix l c" and c: "c \<in> set visited"
    and cl: "\<forall>v \<in> set visited. set (nbs ix v l) \<subseteq> set visited" and r: "snd ` set res = set visited"
    using "1.prems"(5) by (simp_all add: full_state_def)
  have "x \<in> set visited" if "(c, x) \<in> (layer_edges ix l)\<^sup>*" for x
    using that by (induction rule: rtrancl_induct) (use c cl in \<open>auto simp: layer_edges_def\<close>)
  then have "set visited = reachable_from ix l c" using sub by (auto simp: reachable_from_def)
  then show ?case using "1.prems"(4) r by (simp add: explore.simps layer_state_ok_def)
next
  case (2 h ix q ef l nearest cand res visited)
  note f = "2.prems"(5) [unfolded full_state_def prod.case]
  have res: "results_ok h ix q l res" using "2.prems"(4) by (simp add: layer_state_ok_def)
  have go: "\<not> (res \<noteq> [] \<and> f32_lt (fst (hd res)) (fst nearest) \<and> ef \<le> length res)"
    using results_length_le [OF res] "2.prems"(3) by simp
  let ?n = "snd nearest"
  have near: "has_layer ix l ?n" using "2.prems"(4) by (simp add: layer_state_ok_def item_ok_def)
  then have nb: "neighbors_at ix ?n l = Some (nbs ix ?n l)" by (rule neighbors_at_defined)
  have ok: "layer_state_ok h ix q l ef (cand, res, visited)" using "2.prems"(4) by (simp add: layer_state_ok_def)
  have sub: "set (nearest # cand) \<subseteq> set res" and pre: "snd ` set res = set visited" using f by blast+
  then have "set cand \<subseteq> set res" "nearest \<in> set res" by simp_all
  then have "?n \<in> set visited" unfolding pre [symmetric] by (intro imageI)
  note pre = pre \<open>set cand \<subseteq> set res\<close> \<open>?n \<in> set visited\<close>
  have nbl: "\<forall>x \<in> set (nbs ix ?n l). has_layer ix l x" using graph_closedD [OF "2.prems"(1) near] by blast
  obtain c' r' v' where st: "ofold (visit h ix q ef) (nbs ix ?n l) (cand, res, visited) = Some (c', r', v')"
    "layer_state_ok h ix q l ef (c', r', v')" "set v' = set visited \<union> set (nbs ix ?n l)" "snd ` set r' = set v'"
    "set c' \<subseteq> set r'" "snd ` set c' = snd ` set cand \<union> (set (nbs ix ?n l) - set visited)"
  proof -
    from visits_full [OF "2.prems"(2,3) nbl ok pre(1,2)] show ?thesis using that by (elim exE conjE)
  qed
  have "full_state ix l c (c', r', v')"
    unfolding full_state_def prod.case
  proof (intro conjI ballI impI)
    show "snd ` set r' = set v'" "set c' \<subseteq> set r'" by (rule st(4), rule st(5))
    show "c \<in> set v'" using f st(3) by blast
    have "?n \<in> reachable_from ix l c" using f pre(3) by blast
    then have "x \<in> reachable_from ix l c" if "x \<in> set (nbs ix ?n l)" for x
      using near that unfolding reachable_from_def mem_Collect_eq
      by (rule_tac rtrancl_into_rtrancl) (auto simp: layer_edges_def)
    then show "set v' \<subseteq> reachable_from ix l c" using f st(3) by blast
    fix x assume x: "x \<in> set v'" "x \<notin> snd ` set c'"
    show "set (nbs ix x l) \<subseteq> set v'"
    proof (cases "x = ?n")
      case True
      then show ?thesis using st(3) by blast
    next
      case False
      have "x \<in> set visited" "x \<notin> snd ` set cand" using x st(3,6) by blast+
      moreover from this False have "x \<notin> snd ` set (nearest # cand)" by simp
      ultimately have "set (nbs ix x l) \<subseteq> set visited" using f by blast
      then show ?thesis using st(3) by blast
    qed
  qed
  then have "\<exists>res. explore h ix q ef l (c', r', v') = Some res \<and> results_ok h ix q l res \<and> snd ` set res = reachable_from ix l c"
    using "2.IH" [OF go nb st(1) "2.prems"(1-3) st(2)] by blast
  moreover have "explore h ix q ef l (nearest # cand, res, visited) = explore h ix q ef l (c', r', v')"
    by (simp only: explore.simps if_not_P [OF go] nb st(1) option.case)
  ultimately show ?case by (simp only:)
qed

lemma search_layer_full:
  assumes g: "graph_closed ix" and num: "numeric_query h ix q" and ef: "length (hx_nodes ix) < unat ef"
    and c: "has_layer ix l c"
  shows "\<exists>out. search_layer h ix q [c] ef l = Some out \<and> (\<forall>x \<in> set out. item_ok h ix q l x)
     \<and> distinct (map snd out) \<and> snd ` set out = reachable_from ix l c"
proof -
  obtain cd r v where s: "ofold (seed_entry h ix q) [c] ([], [], []) = Some (cd, r, v)"
    "\<forall>x \<in> set cd. item_ok h ix q l x" "results_ok h ix q l r" "length r = length [c]" "snd ` set r = set [c]"
    "set v = set [c]" "set cd = set r"
  proof -
    have "\<forall>ep \<in> set [c]. has_layer ix l ep" "distinct [c]" using c by simp_all
    from seed_entries_ok [OF num this] show ?thesis using that by (elim exE conjE)
  qed
  have "0 < unat ef" using ef by simp
  then have dr: "drop (length r - unat ef) r = r" using s(4) by simp
  have ok: "layer_state_ok h ix q l (unat ef) (cd, r, v)"
    using s(2-6) \<open>0 < unat ef\<close> by (simp add: layer_state_ok_def)
  have "c \<in> reachable_from ix l c" by (simp add: reachable_from_def)
  then have "full_state ix l c (cd, r, v)" using s(5-7) by (simp add: full_state_def)
  then obtain res where "explore h ix q (unat ef) l (cd, r, v) = Some res" "results_ok h ix q l res"
    "snd ` set res = reachable_from ix l c"
    using explore_full [OF g num ef ok] by blast
  then show ?thesis using s(1) dr by (simp add: search_layer_def results_ok_def rev_map [symmetric])
qed



section \<open>Searching\<close>

definition node_candidate :: "hnsw_index \<Rightarrow> f32 \<times> nat \<Rightarrow> candidate" where
  "node_candidate ix x = (hn_id (hx_nodes ix ! snd x), fst x)"

lemma keep_live_fold:
  "\<forall>x \<in> set found. snd x < length (hx_nodes ix) \<Longrightarrow>
   ofold (keep_live ix) found acc
     = Some (acc @ map (node_candidate ix) (filter (\<lambda>x. \<not> hn_deleted (hx_nodes ix ! snd x)) found))"
  by (induction found arbitrary: acc) (simp_all add: keep_live_def node_candidate_def)

lemma node_candidates_ok:
  assumes ok: "hnsw_ok h ix" and num: "numeric_query h ix q"
    and items: "\<forall>x \<in> set found. item_ok h ix q l x" "distinct (map snd found)"
  defines "out \<equiv> map (node_candidate ix) (filter (\<lambda>x. \<not> hn_deleted (hx_nodes ix ! snd x)) found)"
  shows "no_nan out" and "distinct (map fst out)"
    and "(rid, d) \<in> set out \<Longrightarrow> \<exists>v. hnsw_contents ix rid = Some v \<and> d = hnsw_dist h ix q v"
proof -
  let ?live = "filter (\<lambda>x. \<not> hn_deleted (hx_nodes ix ! snd x)) found"
  have bound: "snd x < length (hx_nodes ix)" if "x \<in> set found" for x
    using items(1) that by (auto simp: item_ok_def has_layer_def)
  show "no_nan out" using items(1) item_not_nan [OF num] by (auto simp: out_def node_candidate_def)
  have "distinct (map hn_id (hx_nodes ix))" using hnsw_okD(1) [OF ok] by (rule id_table_distinct)
  then have inj: "inj_on (\<lambda>n. hn_id (hx_nodes ix ! n)) {..<length (hx_nodes ix)}"
    by (auto simp: inj_on_def distinct_conv_nth)
  have "distinct (map snd ?live)" using items(2) by (simp add: distinct_map_filter)
  moreover have "snd ` set ?live \<subseteq> {..<length (hx_nodes ix)}" using bound by auto
  ultimately have "distinct (map (\<lambda>n. hn_id (hx_nodes ix ! n)) (map snd ?live))"
    using inj unfolding distinct_map [of _ "map snd ?live"] by (metis inj_on_subset list.set_map)
  then show "distinct (map fst out)" by (simp add: out_def node_candidate_def o_def)
  show "\<exists>v. hnsw_contents ix rid = Some v \<and> d = hnsw_dist h ix q v" if "(rid, d) \<in> set out"
  proof -
    have "(rid, d) \<in> node_candidate ix ` set ?live" using that by (simp only: out_def set_map)
    then obtain x where "(rid, d) = node_candidate ix x" "x \<in> set ?live" by (rule imageE)
    then have x: "x \<in> set found" "\<not> hn_deleted (hx_nodes ix ! snd x)" "rid = hn_id (hx_nodes ix ! snd x)" "d = fst x"
      by (simp_all add: node_candidate_def)
    have "omap_find rid (hx_id_to_internal ix) = Some (snd x)"
      using id_table_slot [OF hnsw_okD(1) [OF ok], of "snd x"] bound x by simp
    then have "hnsw_contents ix rid = Some (hn_vector (hx_nodes ix ! snd x))"
      using x bound by (simp add: hnsw_contents_def live_vector_def)
    moreover have "item_ok h ix q l x" using items(1) x(1) by blast
    ultimately show ?thesis using x(4) by (simp add: item_ok_def qdist_def hnsw_dist_def)
  qed
qed

lemma hnsw_search_answer:
  assumes ok: "hnsw_ok h ix" and q: "length q = hx_width ix" "finite_vec q"
    and k: "k \<noteq> 0" "hx_live_count ix \<noteq> 0"
  shows "\<exists>c found. has_layer ix 0 c \<and> search_layer h ix q [c] (search_breadth params k) 0 = Some found
     \<and> descend h ix q (layers_down (hx_max_level ix) 0) (nat (hx_entry_point ix)) = Some c
     \<and> (\<forall>x \<in> set found. item_ok h ix q 0 x) \<and> distinct (map snd found)
     \<and> hnsw_search h ix q k params = Some (take (unat k) (sort_by by_distance_then_id
          (map (node_candidate ix) (filter (\<lambda>x. \<not> hn_deleted (hx_nodes ix ! snd x)) found))), ix)"
proof -
  have "hx_nodes ix \<noteq> []" using hnsw_okD(7) [OF ok] k(2) by auto
  then obtain e where e: "e < length (hx_nodes ix)" "hx_entry_point ix = int e" "hn_top_layer (hx_nodes ix ! e) = hx_max_level ix"
    using hnsw_okD(3) [OF ok] by (auto simp: entry_point_ok_def)
  have g: "graph_closed ix" using hnsw_okD(2) [OF ok] by (simp add: graph_ok_def)
  have num: "numeric_query h ix q" using numeric_queryI [OF hnsw_okD(5,8) [OF ok] q] .
  have mx: "0 \<le> hx_max_level ix" using node_ok_nth [OF hnsw_okD(8) [OF ok] e(1)] e(3) by (simp add: node_ok_def)
  have "\<exists>c. descend h ix q (layers_down (hx_max_level ix) 0) e = Some c \<and> has_layer ix 0 c"
  proof (rule descend_ok [OF g])
    show "has_layer ix (nat (hx_max_level ix)) e" using e mx has_layer_top [OF hnsw_okD(8) [OF ok]] by simp
    show "\<forall>l \<in> set (layers_down (hx_max_level ix) 0). l \<le> nat (hx_max_level ix) \<and> 0 \<le> l"
    proof
      fix l assume "l \<in> set (layers_down (hx_max_level ix) 0)"
      then have "int l \<le> hx_max_level ix" using layers_down_props(2) by blast
      then show "l \<le> nat (hx_max_level ix) \<and> 0 \<le> l" by simp
    qed
  qed (use layers_down_props(1) in auto)
  then obtain c where c: "descend h ix q (layers_down (hx_max_level ix) 0) e = Some c" "has_layer ix 0 c" by blast
  have ef: "search_breadth params k \<noteq> 0" using k(1) by (auto simp: search_breadth_def max_def)
  obtain found where f: "search_layer h ix q [c] (search_breadth params k) 0 = Some found"
    "\<forall>x \<in> set found. item_ok h ix q 0 x" "distinct (map snd found)"
    using search_layer_ok [OF g num ef, of "[c]" 0] c(2) by auto
  have fold: "ofold (keep_live ix) found []
      = Some (map (node_candidate ix) (filter (\<lambda>x. \<not> hn_deleted (hx_nodes ix ! snd x)) found))"
    using keep_live_fold [of found ix "[]"] f(2) by (simp add: item_ok_def has_layer_def)
  have "hnsw_search h ix q k params = Some (take (unat k) (sort_by by_distance_then_id
          (map (node_candidate ix) (filter (\<lambda>x. \<not> hn_deleted (hx_nodes ix ! snd x)) found))), ix)"
    using k e(2) c(1) f(1) fold results_sort_defined [OF node_candidates_ok(1) [OF ok num f(2,3)]]
    by (simp add: hnsw_search_def)
  then show ?thesis using c f e(2) by auto
qed

lemma sorted_take: "sorted_wrt P xs \<Longrightarrow> sorted_wrt P (take n xs)"
  by (metis append_take_drop_id sorted_wrt_append)

lemma hnsw_search_ok:
  assumes ok: "hnsw_ok h ix" and q: "length q = hx_width ix" "finite_vec q"
  shows "\<exists>cs. hnsw_search h ix q k params = Some (cs, ix) \<and> length cs \<le> unat k \<and> distinct (map fst cs)
     \<and> sorted_by by_distance_then_id cs
     \<and> (\<forall>(rid, d) \<in> set cs. \<exists>v. hnsw_contents ix rid = Some v \<and> d = hnsw_dist h ix q v)"
proof (cases "k = 0 \<or> hx_live_count ix = 0")
  case True
  then show ?thesis by (auto simp: hnsw_search_def)
next
  case False
  then have "k \<noteq> 0" "hx_live_count ix \<noteq> 0" by simp_all
  then obtain found where f: "\<forall>x \<in> set found. item_ok h ix q 0 x" "distinct (map snd found)"
    and s: "hnsw_search h ix q k params = Some (take (unat k) (sort_by by_distance_then_id
          (map (node_candidate ix) (filter (\<lambda>x. \<not> hn_deleted (hx_nodes ix ! snd x)) found))), ix)"
    using hnsw_search_answer [OF ok q] by blast
  have num: "numeric_query h ix q" using numeric_queryI [OF hnsw_okD(5,8) [OF ok] q] .
  let ?out = "map (node_candidate ix) (filter (\<lambda>x. \<not> hn_deleted (hx_nodes ix ! snd x)) found)"
  let ?cs = "take (unat k) (sort_by by_distance_then_id ?out)"
  note out = node_candidates_ok [OF ok num f]
  have "distinct (map fst ?cs)"
  proof -
    have "mset (map fst (sort_by by_distance_then_id ?out)) = mset (map fst ?out)" by (simp only: mset_map mset_sort_by)
    then have "distinct (map fst (sort_by by_distance_then_id ?out))" using out(2) by (metis mset_eq_imp_distinct_iff)
    then show ?thesis by (simp only: take_map [symmetric] distinct_take)
  qed
  moreover have "sorted_by by_distance_then_id ?cs" using results_sort_sorted [OF out(1)] by (rule sorted_take)
  moreover have "\<exists>v. hnsw_contents ix rid = Some v \<and> d = hnsw_dist h ix q v" if "(rid, d) \<in> set ?cs" for rid d
    using out(3) in_set_takeD [OF that] by (simp only: set_sort_by)
  moreover have "length ?cs \<le> unat k" by simp
  ultimately show ?thesis using s by blast
qed

interpretation hnsw: vector_index "hnsw_ok h" hnsw_slots hx_width "hnsw_dist h" hnsw_contents "hnsw_add h"
  hnsw_remove "hnsw_search h" for h
proof unfold_locales
  fix ix k params and q :: "f32 list"
  assume "hnsw_ok h ix" "length q = hx_width ix" "finite_vec q"
  then show "\<exists>cs i'. hnsw_search h ix q k params = Some (cs, i') \<and> hnsw_ok h i' \<and> hnsw_slots i' = hnsw_slots ix
      \<and> hx_width i' = hx_width ix \<and> hnsw_dist h i' = hnsw_dist h ix \<and> hnsw_contents i' = hnsw_contents ix
      \<and> length cs \<le> unat k \<and> distinct (map fst cs)
      \<and> (\<forall>(rid, d) \<in> set cs. \<exists>v. hnsw_contents ix rid = Some v \<and> d = hnsw_dist h ix q v)"
    using hnsw_search_ok by blast
qed (use hnsw_add_ok hnsw_remove_ok in blast)+



section \<open>The reference: brute force over a component of the bottom layer\<close>

definition component_ranking :: "host \<Rightarrow> hnsw_index \<Rightarrow> f32 list \<Rightarrow> u32 \<Rightarrow> nat \<Rightarrow> candidate list" where
  "component_ranking h ix q k c =
     take (unat k) (sort_by by_distance_then_id
       (map (\<lambda>n. (hn_id (hx_nodes ix ! n), qdist h ix q n))
         (filter (\<lambda>n. n \<in> reachable_from ix 0 c \<and> \<not> hn_deleted (hx_nodes ix ! n)) [0..<length (hx_nodes ix)])))"

lemma hnsw_search_wide:
  assumes ok: "hnsw_ok h ix" and q: "length q = hx_width ix" "finite_vec q"
    and k: "k \<noteq> 0" "hx_live_count ix \<noteq> 0" and wide: "hnsw_slots ix < unat (search_breadth params k)"
  shows "\<exists>c. descend h ix q (layers_down (hx_max_level ix) 0) (nat (hx_entry_point ix)) = Some c
    \<and> hnsw_search h ix q k params = Some (component_ranking h ix q k c, ix)"
proof -
  obtain c found where c: "has_layer ix 0 c" "search_layer h ix q [c] (search_breadth params k) 0 = Some found"
    "descend h ix q (layers_down (hx_max_level ix) 0) (nat (hx_entry_point ix)) = Some c"
    and f: "\<forall>x \<in> set found. item_ok h ix q 0 x" "distinct (map snd found)"
    and s: "hnsw_search h ix q k params = Some (take (unat k) (sort_by by_distance_then_id
          (map (node_candidate ix) (filter (\<lambda>x. \<not> hn_deleted (hx_nodes ix ! snd x)) found))), ix)"
    using hnsw_search_answer [OF ok q k] by blast
  have g: "graph_closed ix" using hnsw_okD(2) [OF ok] by (simp add: graph_ok_def)
  have num: "numeric_query h ix q" using numeric_queryI [OF hnsw_okD(5,8) [OF ok] q] .
  have reach: "snd ` set found = reachable_from ix 0 c"
    using search_layer_full [OF g num wide c(1)] c(2) by simp
  let ?ns = "filter (\<lambda>n. n \<in> reachable_from ix 0 c) [0..<length (hx_nodes ix)]"
  have "set (map snd found) = set ?ns"
  proof -
    have "n < length (hx_nodes ix)" if "n \<in> snd ` set found" for n
      using that f(1) by (auto simp: item_ok_def has_layer_def)
    then show ?thesis unfolding reach by (simp add: reach set_eq_iff) (metis reach)
  qed
  moreover have "distinct ?ns" by simp
  ultimately have ms: "mset (map snd found) = mset ?ns" using f(2) set_eq_iff_mset_eq_distinct by blast
  let ?c = "\<lambda>n. (hn_id (hx_nodes ix ! n), qdist h ix q n)" and ?live = "\<lambda>n. \<not> hn_deleted (hx_nodes ix ! n)"
  let ?out = "map (node_candidate ix) (filter (\<lambda>x. ?live (snd x)) found)"
  have "?out = map ?c (filter ?live (map snd found))"
    using f(1) by (induction found) (simp_all add: node_candidate_def item_ok_def)
  then have "mset ?out = image_mset ?c (filter_mset ?live (mset (map snd found)))"
    by (simp only: mset_map mset_filter)
  also have "\<dots> = mset (map ?c (filter ?live ?ns))" unfolding ms by (simp only: mset_map mset_filter)
  finally have "sort_by by_distance_then_id ?out = sort_by by_distance_then_id (map ?c (filter ?live ?ns))"
    by (rule results_sort_unique [OF node_candidates_ok(1,2) [OF ok num f]])
  then have "hnsw_search h ix q k params = Some (component_ranking h ix q k c, ix)"
    unfolding s component_ranking_def filter_filter by (simp add: conj_commute)
  then show ?thesis using c(3) by blast
qed


section \<open>A concrete graph\<close>

definition demo_params :: index_params where
  "demo_params = \<lparr>ip_m = 2, ip_ef_construction = 8, ip_nlist = 0, ip_seed = 7\<rparr>"

definition demo_hnsw :: "hnsw_index option" where
  "demo_hnsw = hnsw.add_all plain_host (new_hnsw plain_host 1 Euclidean demo_params)
     [(''a'', [f32_one]), (''b'', [f32_two]), (''c'', [f32_zero])]"

lemma plain_arithmetic:
  "f64_neg f64_one = 0xBFF0000000000000" "f64_neg 0xBFF0000000000000 = f64_one"
  "f64_mul f64_one f64_one = f64_one" "f64_mul (f64_neg f64_zero) f64_one = 0x8000000000000000"
  "f64_div f64_one f64_one = f64_one" "f64_of_nat 2 = 0x4000000000000000"
  by (simp_all add: fl_eval cong: let_weak_cong)

lemma plain_casts:
  "f64_to_int f64_one = Some 1" "f64_to_int 0x8000000000000000 = Some 0"
  "f64_le 0x3FE0000000000000 f64_zero = False" "f64_le f64_one f64_zero = False"
  by (simp_all add: f64_to_int_def f64_le_def fp_lt_def fp_eq_def fkey_def fl_eval cong: let_weak_cong)

lemma plain_levels: "levels_ok plain_host f64_one seed"
proof -
  have "h_log plain_host f64_one = f64_zero" "h_log plain_host 0x3FE0000000000000 = 0xBFF0000000000000"
    by (simp_all add: plain_host_def plain_arithmetic) (simp add: f64_one_def)
  then have "level_of_draw plain_host f64_one f64_one = Some 0" "level_of_draw plain_host f64_one 0x3FE0000000000000 = Some 1"
    by (simp_all add: level_of_draw_def plain_arithmetic plain_casts)
  then show ?thesis unfolding levels_ok_def by (auto simp: plain_host_def)
qed

lemma plain_scale: "hx_level_scale (new_hnsw plain_host 1 Euclidean demo_params) = f64_one"
proof -
  have "h_log plain_host 0x4000000000000000 = f64_one" by (simp add: plain_host_def f64_one_def)
  then show ?thesis by (simp add: new_hnsw_def demo_params_def plain_arithmetic)
qed

lemma demo_hnsw_ok:
  obtains ix where "demo_hnsw = Some ix" "hnsw_ok plain_host ix" "hnsw_slots ix \<le> 3" "hx_width ix = 1"
    "hnsw_contents ix = [''a'' \<mapsto> [f32_one], ''b'' \<mapsto> [f32_two], ''c'' \<mapsto> [f32_zero]]"
proof -
  let ?ix = "new_hnsw plain_host 1 Euclidean demo_params"
  have nan: "nan_free plain_host Euclidean (unat (1::u32))"
    by (rule nan_free_scalar) (simp_all add: plain_host_def)
  have "levels_ok plain_host (hx_level_scale ?ix) (ip_seed demo_params)"
    unfolding plain_scale by (rule plain_levels)
  note new = new_hnsw_ok [OF nan this]
  let ?rs = "[(''a'', [f32_one]), (''b'', [f32_two]), (''c'', [f32_zero])]"
  have fin: "finite_vec [f32_one]" "finite_vec [f32_two]" "finite_vec [f32_zero]" by ((simp, code_simp)+)
  have "\<forall>(rid, v) \<in> set ?rs. rid \<noteq> [] \<and> length v = hx_width ?ix \<and> finite_vec v" using new(4) fin by simp
  moreover have "hnsw_slots ?ix + length ?rs < 2 ^ 31" using new(3) by simp
  ultimately obtain ix where "hnsw.add_all plain_host ?ix ?rs = Some ix" "hnsw_ok plain_host ix"
    "hnsw_slots ix \<le> hnsw_slots ?ix + length ?rs" "hx_width ix = hx_width ?ix"
    "hnsw_contents ix = hnsw_contents ?ix ++ map_of (rev ?rs)"
    using hnsw.add_all_ok [OF new(1)] by blast
  then show thesis using that new by (simp add: demo_hnsw_def) 
qed



section \<open>Properties\<close>

text \<open>
  C15: the graph index implements a finite map from identifiers to vectors, and none of its
  operations reads or writes out of bounds: adding a valid record to a well-formed index succeeds
  and maps the identifier to the vector, whether it was new, present or tombstoned; removing answers
  NotFound exactly for an absent identifier; both keep the index well formed (graph closed under
  its edges, degree bounds, entry point on the highest layer, id table, live count).
\<close>

theorem hnsw_refines_map:
  assumes "hnsw_ok h ix" "hnsw_slots ix < 2 ^ 31 - 1" "rid \<noteq> []" "length v = hx_width ix" "finite_vec v"
  shows "(\<exists>ix'. hnsw_add h ix rid v = Some (Inr (), ix') \<and> hnsw_ok h ix' \<and> hnsw_contents ix' = (hnsw_contents ix)(rid \<mapsto> v)) \<and>
    (\<exists>ix'. hnsw_remove ix rid = (if hnsw_contents ix rid = None then Inl NotFound else Inr (), ix') \<and> hnsw_ok h ix'
      \<and> hnsw_contents ix' = (hnsw_contents ix)(rid := None))"
  using hnsw_add_ok [OF assms] hnsw.remove_ok [OF assms(1)] by blast

theorem hnsw_refines_map_witness:
  "\<exists>ix. demo_hnsw = Some ix \<and>
   (\<exists>ix'. hnsw_add plain_host ix ''d'' [f32_one] = Some (Inr (), ix') \<and> hnsw_ok plain_host ix'
      \<and> hnsw_contents ix' = (hnsw_contents ix)(''d'' \<mapsto> [f32_one])) \<and>
   (\<exists>ix'. hnsw_remove ix ''d'' = (if hnsw_contents ix ''d'' = None then Inl NotFound else Inr (), ix') \<and> hnsw_ok plain_host ix'
      \<and> hnsw_contents ix' = (hnsw_contents ix)(''d'' := None))"
proof -
  obtain ix where ix: "demo_hnsw = Some ix" "hnsw_ok plain_host ix" "hnsw_slots ix \<le> 3" "hx_width ix = 1"
    by (rule demo_hnsw_ok)
  have "finite_vec [f32_one]" by (simp, code_simp)
  then show ?thesis using hnsw_refines_map [OF ix(2), of "''d''" "[f32_one]"] ix by auto
qed

text \<open>
  C8: a search of a well-formed graph index never leaves bounds, always ends, and is sound: at most
  \<open>k\<close> answers with distinct identifiers, in ascending order of distance and then identifier, each
  a live record with its exact distance; the index is unchanged.
\<close>

theorem hnsw_search_sound:
  assumes "hnsw_ok h ix" "length q = hx_width ix" "finite_vec q"
  shows "\<exists>cs. hnsw_search h ix q k params = Some (cs, ix) \<and> length cs \<le> unat k \<and> distinct (map fst cs)
     \<and> sorted_by by_distance_then_id cs
     \<and> list_all (\<lambda>(rid, d). map_option (hnsw_dist h ix q) (hnsw_contents ix rid) = Some d) cs"
  using hnsw_search_ok [OF assms, of k params] by (fastforce simp: list_all_iff)

theorem hnsw_search_sound_witness:
  "\<exists>ix cs. demo_hnsw = Some ix \<and> hnsw_search plain_host ix [f32_one] 2 default_query_params = Some (cs, ix)
     \<and> length cs \<le> unat (2::u32) \<and> distinct (map fst cs) \<and> sorted_by by_distance_then_id cs
     \<and> list_all (\<lambda>(rid, d). map_option (hnsw_dist plain_host ix [f32_one]) (hnsw_contents ix rid) = Some d) cs"
proof -
  obtain ix where ix: "demo_hnsw = Some ix" "hnsw_ok plain_host ix" "hx_width ix = 1" by (rule demo_hnsw_ok)
  have "finite_vec [f32_one]" by (simp, code_simp)
  then show ?thesis using hnsw_search_sound [OF ix(2), of "[f32_one]" 2 default_query_params] ix by auto
qed

text \<open>
  C31: with an exploration breadth above the number of nodes the search is exact on what it can
  reach: it returns the first \<open>k\<close> of the brute-force ranking of the live nodes reachable in the
  bottom layer from the node the descent ends at.  Recall is lost only to the breadth and to
  unreachable nodes.
\<close>

theorem hnsw_wide_search_is_exact:
  assumes "hnsw_ok h ix" "length q = hx_width ix" "finite_vec q" "k \<noteq> 0" "hx_live_count ix \<noteq> 0"
    "hnsw_slots ix < unat (search_breadth params k)"
  shows "\<exists>c. descend h ix q (layers_down (hx_max_level ix) 0) (nat (hx_entry_point ix)) = Some c
    \<and> hnsw_search h ix q k params = Some (component_ranking h ix q k c, ix)"
  by (rule hnsw_search_wide [OF assms])

theorem hnsw_wide_search_is_exact_witness:
  "\<exists>ix c. demo_hnsw = Some ix \<and> descend plain_host ix [f32_one] (layers_down (hx_max_level ix) 0) (nat (hx_entry_point ix)) = Some c
    \<and> hnsw_search plain_host ix [f32_one] 2 default_query_params = Some (component_ranking plain_host ix [f32_one] 2 c, ix)"
proof -
  obtain ix where ix: "demo_hnsw = Some ix" "hnsw_ok plain_host ix" "hnsw_slots ix \<le> 3" "hx_width ix = 1"
    "hnsw_contents ix = [''a'' \<mapsto> [f32_one], ''b'' \<mapsto> [f32_two], ''c'' \<mapsto> [f32_zero]]" by (rule demo_hnsw_ok)
  have "hx_live_count ix \<noteq> 0"
  proof -
    have "hnsw_contents ix ''a'' = Some [f32_one]" using ix(5) by simp
    then obtain n where "n < length (hx_nodes ix)" "\<not> hn_deleted (hx_nodes ix ! n)"
      by (auto simp: hnsw_contents_def live_vector_def elem_at_def split: option.splits if_splits)
    then have "live_nodes ix \<noteq> []" by (auto simp: filter_empty_conv)
    moreover have "length (live_nodes ix) \<le> 3" using le_trans [OF length_filter_le ix(3)] .
    ultimately have "unat (word_of_nat (length (live_nodes ix)) :: u64) \<noteq> 0" by (simp add: unat_of_nat)
    then show ?thesis using hnsw_okD(7) [OF ix(2)] by auto
  qed
  moreover have "unat (search_breadth default_query_params 2) = 50" by code_simp
  moreover have "finite_vec [f32_one]" by (simp, code_simp)
  ultimately show ?thesis
    using hnsw_wide_search_is_exact [OF ix(2), of "[f32_one]" 2 default_query_params] ix by auto
qed

text \<open>
  C32: the greedy descent of a layer always ends, inside the layer, at a local minimum: no neighbour
  of the node it returns is strictly closer to the query.
\<close>

theorem greedy_descend_terminates:
  assumes "graph_ok ix" "has_layer ix l entry"
  shows "\<exists>c. greedy_descend h ix q entry l = Some c \<and> has_layer ix l c
     \<and> list_all (\<lambda>nb. \<not> f32_lt (qdist h ix q nb) (qdist h ix q c)) (nbs ix c l)"
  using greedy_descend_ok [of ix l entry h q] assms by (auto simp: graph_ok_def local_minimum_def list_all_iff)

theorem greedy_descend_terminates_witness:
  "\<exists>ix c. demo_hnsw = Some ix \<and> greedy_descend plain_host ix [f32_zero] 0 0 = Some c \<and> has_layer ix 0 c
     \<and> list_all (\<lambda>nb. \<not> f32_lt (qdist plain_host ix [f32_zero] nb) (qdist plain_host ix [f32_zero] c)) (nbs ix c 0)"
proof -
  obtain ix where ix: "demo_hnsw = Some ix" "hnsw_ok plain_host ix" "hnsw_slots ix \<le> 3" "hx_width ix = 1"
    "hnsw_contents ix = [''a'' \<mapsto> [f32_one], ''b'' \<mapsto> [f32_two], ''c'' \<mapsto> [f32_zero]]" by (rule demo_hnsw_ok)
  have "hx_nodes ix \<noteq> []"
  proof
    assume "hx_nodes ix = []"
    then have "hnsw_contents ix ''a'' = None" by (auto simp: hnsw_contents_def live_vector_def elem_at_def split: option.split)
    then show False using ix(5) by simp
  qed
  then have "has_layer ix 0 0"
    using has_layer_top [OF hnsw_okD(8) [OF ix(2)]] node_ok_nth [OF hnsw_okD(8) [OF ix(2)], of 0] by (simp add: node_ok_def)
  then show ?thesis using greedy_descend_terminates [OF hnsw_okD(2) [OF ix(2)]] ix(1) by blast
qed

text \<open>
  C33: the neighbour-selection heuristic keeps its promise: from distinct candidates carrying their
  distance to the base it picks at most \<open>m\<close>, distinct and among the candidates, such that no pick
  is as close to an earlier pick as it is to the base.
\<close>

theorem select_neighbors_diverse:
  assumes "list_all (\<lambda>x. snd x < length (hx_nodes ix) \<and> fst x = base (snd x) \<and> \<not> f32_isnan (fst x)) cands"
    "distinct (map snd cands)"
  shows "\<exists>sel. select_neighbors_heuristic h ix cands m = Some sel \<and> set sel \<subseteq> snd ` set cands
     \<and> length sel \<le> unat m \<and> distinct sel \<and> diverse h ix base sel"
  using select_neighbors_ok [OF _ assms(2), of ix base h m] assms(1) unfolding list_all_iff by blast

theorem select_neighbors_diverse_witness:
  "\<exists>ix sel. demo_hnsw = Some ix \<and> select_neighbors_heuristic plain_host ix [(f32_one, 0)] 1 = Some sel
     \<and> set sel \<subseteq> snd ` set [(f32_one, 0 :: nat)] \<and> length sel \<le> unat (1::u32) \<and> distinct sel
     \<and> diverse plain_host ix (\<lambda>_. f32_one) sel"
proof -
  obtain ix where ix: "demo_hnsw = Some ix" "hnsw_ok plain_host ix"
    "hnsw_contents ix = [''a'' \<mapsto> [f32_one], ''b'' \<mapsto> [f32_two], ''c'' \<mapsto> [f32_zero]]" by (rule demo_hnsw_ok)
  have "hnsw_contents ix ''a'' \<noteq> None" using ix(3) by simp
  then have "0 < length (hx_nodes ix)"
    by (cases "hx_nodes ix") (auto simp: hnsw_contents_def live_vector_def elem_at_def split: option.splits)
  moreover have "\<not> f32_isnan f32_one" by code_simp
  ultimately have "list_all (\<lambda>x. snd x < length (hx_nodes ix) \<and> fst x = f32_one \<and> \<not> f32_isnan (fst x)) [(f32_one, 0)]"
    "distinct (map snd [(f32_one, 0 :: nat)])" by simp_all
  from select_neighbors_diverse [OF this, of plain_host 1] show ?thesis using ix(1) by blast
qed

text \<open>
  Building an index over any list of valid records, repeated identifiers included, ends inside
  bounds with a well-formed graph: every edge leads to a node of the same layer, lists hold distinct
  nodes other than their owner and never more than the layer's limit, and the contents are the
  records, the last of an identifier winning.
\<close>

theorem hnsw_build_graph_ok:
  assumes "nan_free h metric (unat d)" "levels_ok h (hx_level_scale (new_hnsw h d metric params)) (ip_seed params)"
    "length rs < 2 ^ 31" "list_all (\<lambda>(rid, v). rid \<noteq> [] \<and> length v = unat d \<and> list_all f32_isfinite v) rs"
  shows "\<exists>ix. hnsw.add_all h (new_hnsw h d metric params) rs = Some ix \<and> graph_ok ix \<and> hnsw_contents ix = map_of (rev rs)"
proof -
  note new = new_hnsw_ok [OF assms(1,2)]
  have "\<forall>(rid, v) \<in> set rs. rid \<noteq> [] \<and> length v = hx_width (new_hnsw h d metric params) \<and> finite_vec v"
    using assms(4) new(4) by (auto simp: list_all_iff)
  moreover have "hnsw_slots (new_hnsw h d metric params) + length rs < 2 ^ 31" using assms(3) new(3) by simp
  ultimately obtain ix where "hnsw.add_all h (new_hnsw h d metric params) rs = Some ix" "hnsw_ok h ix"
    "hnsw_contents ix = hnsw_contents (new_hnsw h d metric params) ++ map_of (rev rs)"
    using hnsw.add_all_ok [OF new(1)] by blast
  then show ?thesis using new(2) hnsw_okD(2) by simp
qed

theorem hnsw_build_graph_ok_witness:
  "\<exists>ix. hnsw.add_all plain_host (new_hnsw plain_host 1 Euclidean demo_params) [(''a'', [f32_one]), (''a'', [f32_two])] = Some ix
    \<and> graph_ok ix \<and> hnsw_contents ix = map_of (rev [(''a'', [f32_one]), (''a'', [f32_two])])"
proof (rule hnsw_build_graph_ok)
  show "nan_free plain_host Euclidean (unat (1::u32))"
    by (rule nan_free_scalar) (simp_all add: plain_host_def)
  show "levels_ok plain_host (hx_level_scale (new_hnsw plain_host 1 Euclidean demo_params)) (ip_seed demo_params)"
    unfolding plain_scale by (rule plain_levels)
  have "f32_isfinite f32_one" "f32_isfinite f32_two" by code_simp+
  then show "list_all (\<lambda>(rid, v). rid \<noteq> [] \<and> length v = unat (1::u32) \<and> list_all f32_isfinite v) [(''a'', [f32_one]), (''a'', [f32_two])]"
    by simp
qed simp

text \<open>
  The limit of the bottom layer is computed in 32 bits, so an index constructed with \<open>m\<close> of
  two to the 31st, which the parameter check admits, gets a bottom-layer limit of zero: whatever is
  added, the bottom layer never holds an edge.
\<close>

theorem hnsw_m_wraps:
  assumes "hnsw_ok h ix" "hx_max_neighbors_upper ix = 2 ^ 31"
  shows "concat (map (\<lambda>node. hn_neighbors node ! 0) (hx_nodes ix)) = []"
proof -
  have "hx_max_neighbors_layer0 ix = 0" using hnsw_okD(9) [OF assms(1)] assms(2) by (simp add: params_ok_def)
  then have lim: "max_neighbors_for_layer ix 0 = 0" by (simp add: max_neighbors_for_layer_def)
  have "nbs ix n 0 = []" if n: "n < length (hx_nodes ix)" for n
  proof -
    have "node_ok (hx_width ix) (hx_nodes ix ! n)" using hnsw_okD(8) [OF assms(1)] n by simp
    then have "has_layer ix 0 n" using has_layer_top [OF hnsw_okD(8) [OF assms(1)]] n by (simp add: node_ok_def)
    then show ?thesis using graph_okD(2) [OF hnsw_okD(2) [OF assms(1)]] lim by fastforce
  qed
  then show ?thesis by (auto simp: in_set_conv_nth)
qed

theorem hnsw_m_wraps_witness:
  "\<exists>ix ix'. hnsw_add plain_host (new_hnsw plain_host 1 Euclidean (demo_params\<lparr>ip_m := 2 ^ 31\<rparr>)) ''a'' [f32_one] = Some (Inr (), ix)
    \<and> hnsw_add plain_host ix ''b'' [f32_two] = Some (Inr (), ix')
    \<and> concat (map (\<lambda>node. hn_neighbors node ! 0) (hx_nodes ix')) = []"
proof -
  let ?ix = "new_hnsw plain_host 1 Euclidean (demo_params\<lparr>ip_m := 2 ^ 31\<rparr>)"
  have nan: "nan_free plain_host Euclidean (unat (1::u32))"
    by (rule nan_free_scalar) (simp_all add: plain_host_def)
  have "f64_of_nat 2147483648 = 0x41E0000000000000" by (simp add: fl_eval cong: let_weak_cong)
  moreover have "h_log plain_host 0x41E0000000000000 = f64_one" by (simp add: plain_host_def f64_one_def)
  ultimately have "hx_level_scale ?ix = f64_one" by (simp add: new_hnsw_def demo_params_def plain_arithmetic)
  then have "levels_ok plain_host (hx_level_scale ?ix) (ip_seed (demo_params\<lparr>ip_m := 2 ^ 31\<rparr>))" by (simp add: plain_levels)
  note new = new_hnsw_ok [OF nan this]
  have upper: "hx_max_neighbors_upper ?ix = 2 ^ 31" by (simp add: new_hnsw_def demo_params_def)
  have fin: "finite_vec [f32_one]" "finite_vec [f32_two]" by ((simp, code_simp)+)
  obtain i1 where 1: "hnsw_add plain_host ?ix ''a'' [f32_one] = Some (Inr (), i1)" "hnsw_ok plain_host i1"
    "hnsw_slots i1 \<le> 1" "hx_width i1 = 1" "hx_max_neighbors_upper i1 = 2 ^ 31"
    using hnsw_add_ok [OF new(1), of "''a''" "[f32_one]"] new(3,4) fin upper by auto
  obtain i2 where 2: "hnsw_add plain_host i1 ''b'' [f32_two] = Some (Inr (), i2)" "hnsw_ok plain_host i2"
    "hx_max_neighbors_upper i2 = 2 ^ 31"
    using hnsw_add_ok [OF 1(2), of "''b''" "[f32_two]"] 1 fin by auto
  show ?thesis using 1(1) 2(1) hnsw_m_wraps [OF 2(2,3)] by blast
qed

end
