(* ===== verification/Metadata.thy ===== *)
theory Metadata
  imports Bytes
begin

text \<open>
  The metadata codec of \<open>persistence.cpp\<close> (\<open>write_metadata\<close>, \<open>read_metadata\<close>), the locale of
  codecs and its interpretation on the primitives of \<open>ByteWriter\<close>/\<open>ByteReader\<close>, and the safety of
  the reader on arbitrary input.
\<close>

section \<open>Codecs\<close>

locale codec =
  fixes enc :: "'a \<Rightarrow> u8 list"
    and dec :: "byte_reader \<Rightarrow> 'a \<times> byte_reader"
    and valid :: "'a \<Rightarrow> bool"
  assumes dec_enc: "valid x \<Longrightarrow> reads r (enc x @ rest) \<Longrightarrow> dec r = (x, advance r (length (enc x)))"
begin

lemma dec_step:
  assumes "valid x" "reads r (enc x @ rest)"
  obtains r' where "dec r = (x, r')" "reads r' rest" "rd_ok r'" "r' = advance r (length (enc x))"
  using dec_enc [OF assms] reads_advance [OF assms(2)] reads_ok that by blast

text \<open>No encoding is a proper prefix of another, so a sequence of fields parses in one way.\<close>

lemma enc_prefix_free:
  assumes "valid x" "valid y" "enc x @ a = enc y @ b" "length (enc x @ a) < 2 ^ 64"
  shows "x = y \<and> a = b"
proof -
  have "reads (new_reader (enc x @ a)) (enc x @ a)" using assms(4) by (rule reads_new)
  then have "dec (new_reader (enc x @ a)) = (x, advance (new_reader (enc x @ a)) (length (enc x)))"
    and "dec (new_reader (enc x @ a)) = (y, advance (new_reader (enc x @ a)) (length (enc y)))"
    using dec_enc [OF assms(1), of _ a] dec_enc [OF assms(2), of _ b] unfolding assms(3) by blast+
  then show ?thesis using assms(3) by simp
qed

end

interpretation u8: codec "\<lambda>b. [b]" get_u8 "\<lambda>_. True"
  by unfold_locales (simp only: get_u8_reads, simp)

interpretation u32: codec le_bytes32 get_u32 "\<lambda>_. True"
  by unfold_locales (simp add: get_u32_reads)

interpretation u64: codec le_bytes64 get_u64 "\<lambda>_. True"
  by unfold_locales (simp add: get_u64_reads)

interpretation str: codec str_bytes get_string "\<lambda>s. length s < 2 ^ 32"
  by unfold_locales (simp add: get_string_reads)


section \<open>Writing metadata\<close>

definition put_value :: "byte_writer \<Rightarrow> metadata_value \<Rightarrow> byte_writer" where
  "put_value w v =
     (case v of
        MString s \<Rightarrow> put_string (put_u8 w 0) s
      | MInt64 i \<Rightarrow> put_i64 (put_u8 w 1) i
      | MDouble d \<Rightarrow> put_f64 (put_u8 w 2) d
      | MBool b \<Rightarrow> put_u8 (put_u8 w 3) (if b then 1 else 0))"

definition write_metadata :: "byte_writer \<Rightarrow> metadata option \<Rightarrow> byte_writer" where
  "write_metadata w meta =
     (case meta of
        None \<Rightarrow> put_u8 w 0
      | Some m \<Rightarrow>
          foldl (\<lambda>w (k, v). put_value (put_string w k) v)
            (put_u32 (put_u8 w 1) (word_of_nat (length m))) m)"


section \<open>Reading metadata\<close>

definition when_ok :: "'a \<times> byte_reader \<Rightarrow> ('a \<Rightarrow> 'b) \<Rightarrow> 'b option \<times> byte_reader" where
  "when_ok vr f = (case vr of (v, r) \<Rightarrow> (if rd_ok r then Some (f v) else None, r))"

definition read_value :: "u8 \<Rightarrow> byte_reader \<Rightarrow> metadata_value option \<times> byte_reader" where
  "read_value tag r =
     (if tag = 0 then when_ok (get_string r) MString
      else if tag = 1 then when_ok (get_i64 r) MInt64
      else if tag = 2 then when_ok (get_f64 r) MDouble
      else if tag = 3 then when_ok (get_u8 r) (\<lambda>b. MBool (b \<noteq> 0))
      else (None, r))"

fun read_entries :: "nat \<Rightarrow> byte_reader \<Rightarrow> metadata \<Rightarrow> metadata option \<times> byte_reader" where
  "read_entries 0 r m = (Some m, r)"
| "read_entries (Suc n) r m =
     (let (key, r1) = get_string r; (tag, r2) = get_u8 r1 in
      if \<not> rd_ok r2 then (None, r2)
      else case read_value tag r2 of
        (None, r3) \<Rightarrow> (None, r3)
      | (Some v, r3) \<Rightarrow> read_entries n r3 (omap_emplace key v m))"

text \<open>\<open>None\<close>: malformed; \<open>Some None\<close>: no metadata; \<open>Some (Some m)\<close>: metadata present.\<close>

definition read_metadata :: "byte_reader \<Rightarrow> metadata option option \<times> byte_reader" where
  "read_metadata r =
     (let (present, r1) = get_u8 r in
      if \<not> rd_ok r1 then (None, r1)
      else if present = 0 then (Some None, r1)
      else let (count, r2) = get_u32 r1 in
        if \<not> rd_ok r2 then (None, r2)
        else case read_entries (unat count) r2 [] of
          (None, r3) \<Rightarrow> (None, r3)
        | (Some m, r3) \<Rightarrow> (Some (Some m), r3))"


section \<open>Round trip\<close>

definition value_bytes :: "metadata_value \<Rightarrow> u8 list" where
  "value_bytes v = put_value [] v"

definition entry_bytes :: "string \<times> metadata_value \<Rightarrow> u8 list" where
  "entry_bytes e = str_bytes (fst e) @ value_bytes (snd e)"

definition metadata_bytes :: "metadata option \<Rightarrow> u8 list" where
  "metadata_bytes meta = write_metadata [] meta"

lemma put_value_appends: "put_value w v = w @ value_bytes v"
  by (simp add: value_bytes_def put_value_def put_appends split: metadata_value.split)

lemma put_entries_appends:
  "foldl (\<lambda>w (k, v). put_value (put_string w k) v) w m = w @ concat (map entry_bytes m)"
proof (induction m arbitrary: w)
  case (Cons e m)
  then show ?case by (cases e) (simp add: put_value_appends put_appends entry_bytes_def)
qed simp

lemma metadata_bytes_simps:
  "metadata_bytes None = [0]"
  "metadata_bytes (Some m) = [1] @ le_bytes32 (word_of_nat (length m)) @ concat (map entry_bytes m)"
  unfolding metadata_bytes_def write_metadata_def option.case put_entries_appends
  unfolding put_appends by simp_all

lemma write_metadata_appends: "write_metadata w meta = w @ metadata_bytes meta"
proof (cases meta)
  case (Some m)
  show ?thesis
    unfolding write_metadata_def Some option.case put_entries_appends
    by (simp add: put_appends metadata_bytes_simps)
qed (simp add: write_metadata_def put_appends metadata_bytes_simps)

text \<open>What fits the 32-bit length prefixes.\<close>

fun value_fits :: "metadata_value \<Rightarrow> bool" where
  "value_fits (MString s) = (length s < 2 ^ 32)"
| "value_fits _ = True"

definition metadata_fits :: "metadata option \<Rightarrow> bool" where
  "metadata_fits meta =
     (case meta of
        None \<Rightarrow> True
      | Some m \<Rightarrow> omap_ok m \<and> length m < 2 ^ 32 \<and> (\<forall>(k, v) \<in> set m. length k < 2 ^ 32 \<and> value_fits v))"

lemma when_ok_reads: "reads r rest \<Longrightarrow> when_ok (v, r) f = (Some (f v), r)"
  by (simp add: when_ok_def reads_ok)

lemma advance_advance [simp]: "advance (advance r m) n = advance r (m + n)"
  by (simp add: advance_def)

lemma read_value_reads:
  assumes "value_fits v" "reads r (value_bytes v @ rest)"
  shows "\<exists>tag bs. value_bytes v = tag # bs \<and> read_value tag (advance r 1) = (Some v, advance r (length (value_bytes v)))"
proof (cases v)
  case (MString s)
  have v: "value_bytes v = [0] @ str_bytes s" using MString by (simp add: value_bytes_def put_value_def put_appends)
  then have "reads (advance r 1) (str_bytes s @ rest)" using reads_advance [of r "[0]"] assms(2) by simp
  then obtain r' where "get_string (advance r 1) = (s, r')" "reads r' rest" "r' = advance (advance r 1) (length (str_bytes s))"
    using str.dec_step assms(1) MString by (metis value_fits.simps(1))
  then show ?thesis using v MString by (simp add: read_value_def when_ok_reads)
next
  case (MInt64 i)
  have v: "value_bytes v = [1] @ le_bytes64 i" using MInt64 by (simp add: value_bytes_def put_value_def put_appends)
  then have "reads (advance r 1) (le_bytes64 i @ rest)" using reads_advance [of r "[1]"] assms(2) by simp
  then obtain r' where "get_u64 (advance r 1) = (i, r')" "reads r' rest" "r' = advance (advance r 1) (length (le_bytes64 i))"
    using u64.dec_step by blast
  then show ?thesis using v MInt64 by (simp add: read_value_def when_ok_reads get_i64_def)
next
  case (MDouble d)
  have v: "value_bytes v = [2] @ le_bytes64 d" using MDouble by (simp add: value_bytes_def put_value_def put_appends)
  then have "reads (advance r 1) (le_bytes64 d @ rest)" using reads_advance [of r "[2]"] assms(2) by simp
  then obtain r' where "get_u64 (advance r 1) = (d, r')" "reads r' rest" "r' = advance (advance r 1) (length (le_bytes64 d))"
    using u64.dec_step by blast
  then show ?thesis using v MDouble by (simp add: read_value_def when_ok_reads get_f64_def)
next
  case (MBool b)
  have v: "value_bytes v = [3] @ [if b then 1 else 0]" using MBool by (simp add: value_bytes_def put_value_def put_appends)
  then have "reads (advance r 1) ([if b then 1 else 0] @ rest)" using reads_advance [of r "[3]"] assms(2) by simp
  then obtain r' where "get_u8 (advance r 1) = (if b then 1 else 0, r')" "reads r' rest"
    "r' = advance (advance r 1) (length [if b then 1 else 0 :: u8])"
    using u8.dec_step by blast
  then show ?thesis using v MBool by (simp add: read_value_def when_ok_reads)
qed

lemma read_entries_reads:
  assumes "reads r (concat (map entry_bytes es) @ rest)" "omap_ok (m @ es)"
    "\<forall>(k, v) \<in> set es. length k < 2 ^ 32 \<and> value_fits v"
  shows "read_entries (length es) r m = (Some (m @ es), advance r (length (concat (map entry_bytes es))))"
  using assms
proof (induction es arbitrary: r m)
  case Nil
  then show ?case by (simp add: advance_def)
next
  case (Cons e es)
  obtain k v where e: "e = (k, v)" by (cases e)
  let ?rest = "concat (map entry_bytes es) @ rest"
  have fits: "length k < 2 ^ 32" "value_fits v" using Cons.prems(3) e by auto
  have "reads r (str_bytes k @ value_bytes v @ ?rest)" using Cons.prems(1) e by (simp add: entry_bytes_def [of "(k, v)"])
  then obtain r1 where r1: "get_string r = (k, r1)" "reads r1 (value_bytes v @ ?rest)" "r1 = advance r (length (str_bytes k))"
    using str.dec_step fits(1) by metis
  obtain tag bs where tag: "value_bytes v = tag # bs"
    "read_value tag (advance r1 1) = (Some v, advance r1 (length (value_bytes v)))"
    using read_value_reads [OF fits(2) r1(2)] by blast
  have g: "get_u8 r1 = (tag, advance r1 1)" using get_u8_reads [of r1 tag] r1(2) tag(1) by simp
  have ok: "rd_ok (advance r1 1)" using r1(2) by (simp add: reads_def advance_def)
  have r2: "reads (advance r1 (length (value_bytes v))) ?rest" using reads_advance [OF r1(2)] .
  have "\<forall>j \<in> omap_keys m. j < k" using Cons.prems(2) e by (auto simp: sorted_wrt_append)
  then have em: "omap_emplace k v m = m @ [(k, v)]"
    using omap_emplace_absent [of k m v] omap_set_last [of m k v] by force
  have "read_entries (length es) (advance r1 (length (value_bytes v))) (m @ [(k, v)]) =
      (Some ((m @ [(k, v)]) @ es), advance (advance r1 (length (value_bytes v))) (length (concat (map entry_bytes es))))"
    using Cons.prems e r2 by (intro Cons.IH) auto
  then show ?case
    using r1 g ok tag(2) em e by (simp add: entry_bytes_def [of "(k, v)"] add.assoc)
qed

lemma read_metadata_reads:
  assumes fits: "metadata_fits meta" and r: "reads r (metadata_bytes meta @ rest)"
  shows "read_metadata r = (Some meta, advance r (length (metadata_bytes meta)))"
proof (cases meta)
  case None
  then have "get_u8 r = (0, advance r 1)" "rd_ok (advance r 1)"
    using r get_u8_reads [of r 0] by (simp_all add: metadata_bytes_simps reads_def advance_def)
  then show ?thesis using None by (simp add: read_metadata_def metadata_bytes_simps)
next
  case (Some m)
  let ?n = "word_of_nat (length m) :: u32"
  have m: "omap_ok m" "length m < 2 ^ 32" "\<forall>(k, v) \<in> set m. length k < 2 ^ 32 \<and> value_fits v"
    using fits Some by (simp_all add: metadata_fits_def)
  have r0: "reads r ([1] @ le_bytes32 ?n @ concat (map entry_bytes m) @ rest)"
    using r Some by (simp add: metadata_bytes_simps)
  then obtain r1 where r1: "get_u8 r = (1, r1)" "reads r1 (le_bytes32 ?n @ concat (map entry_bytes m) @ rest)"
    "rd_ok r1" "r1 = advance r (length [1 :: u8])"
    using u8.dec_step by metis
  then obtain r2 where r2: "get_u32 r1 = (?n, r2)" "reads r2 (concat (map entry_bytes m) @ rest)"
    "rd_ok r2" "r2 = advance r1 (length (le_bytes32 ?n))"
    using u32.dec_step by metis
  have "unat ?n = length m" using m(2) by (simp add: unat_of_nat)
  then have "read_entries (unat ?n) r2 [] = (Some m, advance r2 (length (concat (map entry_bytes m))))"
    using read_entries_reads [OF r2(2), of "[]"] m by simp
  then show ?thesis using r1 r2 Some by (simp add: read_metadata_def metadata_bytes_simps)
qed


section \<open>Arbitrary input\<close>

text \<open>
  What one read does to any reader: it either consumes its bytes or trips the flag where it
  stands, and the flag stays down.
\<close>

definition step_ok :: "byte_reader \<Rightarrow> byte_reader \<Rightarrow> bool" where
  "step_ok r r' \<longleftrightarrow> rd_bytes r' = rd_bytes r \<and> reader_inv r' \<and> rd_pos r \<le> rd_pos r' \<and> (rd_ok r' \<longrightarrow> rd_ok r)"

lemma step_ok_trans: "step_ok r r' \<Longrightarrow> step_ok r' r'' \<Longrightarrow> step_ok r r''"
  by (auto simp: step_ok_def)

lemma step_ok_refl: "reader_inv r \<Longrightarrow> step_ok r r"
  by (simp add: step_ok_def)

lemma step_ok_inv: "step_ok r r' \<Longrightarrow> reader_inv r'"
  by (simp add: step_ok_def)

lemma step_ok_fail: "reader_inv r \<Longrightarrow> step_ok r (r\<lparr>rd_ok := False\<rparr>)"
  by (simp add: step_ok_def reader_inv_def)

lemma step_ok_advance:
  "reader_inv r \<Longrightarrow> n \<le> remaining r \<Longrightarrow> step_ok r (advance r n)"
  by (auto simp: step_ok_def reader_inv_def remaining_def advance_def)

lemma reader_cases:
  assumes "reader_inv r" "n < 2 ^ 64"
  obtains "rd_ok r" "n \<le> remaining r" "ensure r n = (True, r)"
  | "\<not> rd_ok r \<or> remaining r < n" "ensure r n = (False, r\<lparr>rd_ok := False\<rparr>)"
  using ensure_iff [OF assms] by (cases "rd_ok r \<and> n \<le> remaining r") auto

lemma get_u8_step: "reader_inv r \<Longrightarrow> step_ok r (snd (get_u8 r))"
  using ensure_iff [of r 1] by (auto simp: get_u8_def step_ok_fail step_ok_advance)

lemma get_u32_step: "reader_inv r \<Longrightarrow> step_ok r (snd (get_u32 r))"
  using ensure_iff [of r 4] by (auto simp: get_u32_def step_ok_fail step_ok_advance)

lemma get_u64_step: "reader_inv r \<Longrightarrow> step_ok r (snd (get_u64 r))"
  using ensure_iff [of r 8] by (auto simp: get_u64_def step_ok_fail step_ok_advance)

lemma get_string_step:
  assumes "reader_inv r"
  shows "step_ok r (snd (get_string r))"
proof -
  obtain len r1 where g: "get_u32 r = (len, r1)" by (cases "get_u32 r")
  then have s: "step_ok r r1" using get_u32_step [OF assms] by simp
  have len: "unat len < 2 ^ 64" using unsigned_less [of len, where 'a = nat] by simp
  have "step_ok r1 (snd (get_string r))"
    using step_ok_inv [OF s] len
    by (rule reader_cases) (use g step_ok_inv [OF s] in
        \<open>simp_all add: get_string_def step_ok_fail step_ok_advance\<close>)
  then show ?thesis using s step_ok_trans by blast
qed

lemmas get_steps = get_u8_step get_u32_step get_u64_step get_string_step

lemma when_ok_step: "step_ok r (snd vr) \<Longrightarrow> step_ok r (snd (when_ok vr f))"
  by (cases vr) (simp add: when_ok_def)

lemma read_value_step: "reader_inv r \<Longrightarrow> step_ok r (snd (read_value tag r))"
  by (simp add: read_value_def when_ok_step get_steps get_i64_def get_f64_def step_ok_refl)

lemma read_entries_step:
  "reader_inv r \<Longrightarrow> omap_ok m \<Longrightarrow>
   step_ok r (snd (read_entries n r m)) \<and> (\<forall>m'. fst (read_entries n r m) = Some m' \<longrightarrow> omap_ok m')"
proof (induction n arbitrary: r m)
  case 0
  then show ?case by (simp add: step_ok_refl)
next
  case (Suc n)
  obtain key r1 where g1: "get_string r = (key, r1)" by (cases "get_string r")
  obtain tag r2 where g2: "get_u8 r1 = (tag, r2)" by (cases "get_u8 r1")
  obtain v r3 where g3: "read_value tag r2 = (v, r3)" by (cases "read_value tag r2")
  have s1: "step_ok r r1" using get_string_step [OF Suc.prems(1)] g1 by simp
  then have s2: "step_ok r r2" using get_u8_step [OF step_ok_inv] g2 step_ok_trans by fastforce
  then have s3: "step_ok r r3" using read_value_step [OF step_ok_inv, of r r2 tag] g3 step_ok_trans by fastforce
  show ?case
  proof (cases "rd_ok r2")
    case True
    show ?thesis
    proof (cases v)
      case None
      then show ?thesis using True g1 g2 g3 s3 by simp
    next
      case (Some x)
      have "omap_ok (omap_emplace key x m)"
        using Suc.prems(2) by (simp add: omap_emplace_def map_keys split: option.split)
      then have "step_ok r3 (snd (read_entries n r3 (omap_emplace key x m))) \<and>
          (\<forall>m'. fst (read_entries n r3 (omap_emplace key x m)) = Some m' \<longrightarrow> omap_ok m')"
        using Suc.IH step_ok_inv [OF s3] by blast
      then show ?thesis using True g1 g2 g3 Some s3 step_ok_trans by auto
    qed
  next
    case False
    then show ?thesis using g1 g2 s2 by simp
  qed
qed

lemma read_metadata_step:
  assumes "reader_inv r"
  shows "step_ok r (snd (read_metadata r)) \<and>
    (\<forall>m. fst (read_metadata r) = Some (Some m) \<longrightarrow> omap_ok m)"
proof -
  obtain present r1 where g1: "get_u8 r = (present, r1)" by (cases "get_u8 r")
  obtain count r2 where g2: "get_u32 r1 = (count, r2)" by (cases "get_u32 r1")
  obtain e r3 where g3: "read_entries (unat count) r2 [] = (e, r3)" by (cases "read_entries (unat count) r2 []")
  have s1: "step_ok r r1" using get_u8_step [OF assms] g1 by simp
  then have s2: "step_ok r r2" using get_u32_step [OF step_ok_inv] g2 step_ok_trans by fastforce
  have e: "step_ok r2 r3" "\<forall>m. e = Some m \<longrightarrow> omap_ok m"
    using read_entries_step [OF step_ok_inv [OF s2], of "[]" "unat count"] g3 by auto
  then have "step_ok r r3" using s2 step_ok_trans by blast
  then show ?thesis
    using g1 g2 g3 s1 s2 e(2) by (cases e) (simp_all add: read_metadata_def)
qed


section \<open>Properties\<close>

text \<open>
  Every read of a \<open>ByteReader\<close> is memory-safe on any input: the cursor never leaves the
  buffer, a read that does not fit trips the sticky flag without moving and yields zero (or the
  empty string), and the guard's wrap-around test makes this true for every length that a caller
  can ask for.
\<close>

theorem reader_reads_in_bounds:
  assumes "reader_inv r" "n < 2 ^ 64"
  shows "ensure r n = (if rd_ok r \<and> rd_pos r + n \<le> length (rd_bytes r) then (True, r) else (False, r\<lparr>rd_ok := False\<rparr>))
     \<and> step_ok r (snd (get_u8 r)) \<and> step_ok r (snd (get_u32 r)) \<and> step_ok r (snd (get_u64 r))
     \<and> step_ok r (snd (get_string r)) \<and> step_ok r (snd (get_raw r n))
     \<and> (rd_ok r \<and> rd_pos r + 8 \<le> length (rd_bytes r) \<or> get_u64 r = (0, r\<lparr>rd_ok := False\<rparr>))"
proof -
  have rem: "k \<le> remaining r \<longleftrightarrow> rd_pos r + k \<le> length (rd_bytes r)" for k
    using assms(1) by (auto simp: remaining_def reader_inv_def)
  have "ensure r n = (if rd_ok r \<and> rd_pos r + n \<le> length (rd_bytes r) then (True, r) else (False, r\<lparr>rd_ok := False\<rparr>))"
    using ensure_iff [OF assms] rem by simp
  moreover have "step_ok r (snd (get_raw r n))"
    using ensure_iff [OF assms] assms(1) by (auto simp: get_raw_def step_ok_fail step_ok_advance)
  moreover have "rd_ok r \<and> rd_pos r + 8 \<le> length (rd_bytes r) \<or> get_u64 r = (0, r\<lparr>rd_ok := False\<rparr>)"
    using ensure_iff [OF assms(1), of 8] rem [of 8] by (auto simp: get_u64_def)
  ultimately show ?thesis using get_steps [OF assms(1)] by blast
qed

theorem reader_reads_in_bounds_witness:
  "ensure (new_reader [1, 2, 3]) 18446744073709551615 = (False, (new_reader [1, 2, 3])\<lparr>rd_ok := False\<rparr>) \<and>
   get_u64 (new_reader [1, 2, 3]) = (0, (new_reader [1, 2, 3])\<lparr>rd_ok := False\<rparr>)"
proof -
  have "reader_inv (new_reader [1, 2, 3])" by (simp add: reader_inv_def new_reader_def)
  from reader_reads_in_bounds [OF this, of 18446744073709551615] show ?thesis
    by (simp add: new_reader_def)
qed

text \<open>
  C27: metadata round-trips: reading back what \<open>write_metadata\<close> wrote returns the same metadata,
  the absent case distinguished from the empty map, and consumes exactly the bytes written,
  whatever follows them.
\<close>

theorem metadata_roundtrip:
  assumes "metadata_fits meta" "reads r (write_metadata [] meta @ rest)"
  shows "\<exists>r'. read_metadata r = (Some meta, r') \<and> reads r' rest"
  using read_metadata_reads [OF assms(1)] reads_advance assms(2) unfolding metadata_bytes_def by blast

theorem metadata_roundtrip_witness:
  "\<exists>r'. read_metadata (new_reader (write_metadata [] (Some [(''k'', MInt64 7), (''s'', MString ''ab'')]) @ [9]))
     = (Some (Some [(''k'', MInt64 7), (''s'', MString ''ab'')]), r') \<and> reads r' [9]"
proof (rule metadata_roundtrip)
  show "metadata_fits (Some [(''k'', MInt64 7), (''s'', MString ''ab'')])"
    by (simp add: metadata_fits_def)
  show "reads (new_reader (write_metadata [] (Some [(''k'', MInt64 7), (''s'', MString ''ab'')]) @ [9]))
      (write_metadata [] (Some [(''k'', MInt64 7), (''s'', MString ''ab'')]) @ [9])"
    by (rule reads_new) code_simp
qed

text \<open>
  Reading metadata from arbitrary bytes is safe: it stays inside the blob, and whenever it
  reports success the map it built has ascending distinct keys.
\<close>

theorem read_metadata_safe:
  assumes "reader_inv r"
  shows "step_ok r (snd (read_metadata r)) \<and>
    (case fst (read_metadata r) of Some (Some m) \<Rightarrow> omap_ok m | _ \<Rightarrow> True)"
  using read_metadata_step [OF assms] by (auto split: option.split)

theorem read_metadata_safe_witness:
  "step_ok (new_reader [1, 2, 0, 0]) (snd (read_metadata (new_reader [1, 2, 0, 0])))"
  using read_metadata_safe [of "new_reader [1, 2, 0, 0]"] by (simp add: reader_inv_def new_reader_def)

end
