(* ===== verification/Hnsw_Serial.thy ===== *)
theory Hnsw_Serial
  imports Hnsw_Index Metadata
begin

text \<open>
  \<open>HnswIndex::serialize\<close> and \<open>HnswIndex::deserialize\<close>: the canonical byte form of the graph.
  Live nodes are numbered in ascending order of identifier, edges to tombstoned nodes are dropped,
  and adjacency lists are sorted; vectors are not stored, a callback supplies them on load.
\<close>

section \<open>Serializing\<close>

definition live_by_id :: "hnsw_index \<Rightarrow> nat list option" where
  "live_by_id ix =
     std_sort (\<lambda>a b. hn_id (hx_nodes ix ! a) < hn_id (hx_nodes ix ! b))
       (filter (\<lambda>i. \<not> hn_deleted (hx_nodes ix ! i)) [0..<length (hx_nodes ix)])"

text \<open>Internal to canonical numbers.\<close>

definition canonical :: "nat list \<Rightarrow> (nat \<times> nat) list" where
  "canonical live = zip live [0..<length live]"

definition remap :: "nat list \<Rightarrow> nat list \<Rightarrow> nat list" where
  "remap live xs = remdups_adj (sort (List.map_filter (\<lambda>nb. omap_find nb (canonical live)) xs))"

text \<open>The highest level among the live nodes and the first canonical number that has it.\<close>

definition canonical_entry :: "hnsw_index \<Rightarrow> nat list \<Rightarrow> int \<times> u32" where
  "canonical_entry ix live =
     foldl (\<lambda>(max_level, entry) c.
        let top = hn_top_layer (hx_nodes ix ! (live ! c)) in
        if max_level < top then (top, word_of_nat c) else (max_level, entry))
       (-1, 0xFFFFFFFF) [0..<length live]"

definition write_layer :: "nat list \<Rightarrow> hnsw_node \<Rightarrow> byte_writer \<Rightarrow> nat \<Rightarrow> byte_writer" where
  "write_layer live node w layer =
     (let remapped = (if layer < length (hn_neighbors node) then remap live (hn_neighbors node ! layer) else []) in
      foldl (\<lambda>w cid. put_u32 w (word_of_nat cid)) (put_u32 w (word_of_nat (length remapped))) remapped)"

definition write_node :: "hnsw_index \<Rightarrow> nat list \<Rightarrow> byte_writer \<Rightarrow> nat \<Rightarrow> byte_writer" where
  "write_node ix live w n =
     (let node = hx_nodes ix ! n in
      foldl (write_layer live node)
        (put_u32 (put_string w (hn_id node)) (word_of_int (hn_top_layer node)))
        [0..<nat (hn_top_layer node + 1)])"

definition hnsw_serialize :: "hnsw_index \<Rightarrow> u8 list option" where
  "hnsw_serialize ix =
     map_option (\<lambda>live.
       let (max_level, entry) = canonical_entry ix live;
           w1 = put_u32 (put_u32 [] (hx_max_neighbors_upper ix)) (hx_ef_construction ix);
           w2 = put_u32 (put_u64 w1 (hx_rng_seed ix)) (word_of_nat (length live));
           w3 = put_u32 (put_u32 w2 (word_of_int max_level)) entry
       in foldl (write_node ix live) w3 live) (live_by_id ix)"


section \<open>Deserializing\<close>

text \<open>\<open>None\<close>: the region is malformed and the call returns a null pointer.\<close>

fun read_adjacency :: "nat \<Rightarrow> u32 \<Rightarrow> byte_reader \<Rightarrow> nat list \<Rightarrow> (nat list \<times> byte_reader) option" where
  "read_adjacency 0 cnt r adj = Some (adj, r)"
| "read_adjacency (Suc n) cnt r adj =
     (let (nb, r1) = get_u32 r in
      if \<not> rd_ok r1 \<or> cnt \<le> nb then None
      else read_adjacency n cnt r1 (adj @ [unat nb]))"

fun read_layers :: "nat \<Rightarrow> u32 \<Rightarrow> byte_reader \<Rightarrow> nat list list \<Rightarrow> (nat list list \<times> byte_reader) option" where
  "read_layers 0 cnt r ls = Some (ls, r)"
| "read_layers (Suc n) cnt r ls =
     (let (degree, r1) = get_u32 r in
      if \<not> rd_ok r1 then None
      else case read_adjacency (unat degree) cnt r1 [] of
        None \<Rightarrow> None
      | Some (adj, r2) \<Rightarrow> read_layers n cnt r2 (ls @ [adj]))"

definition read_node ::
  "u32 \<Rightarrow> u32 \<Rightarrow> (record_id \<Rightarrow> f32 list option) \<Rightarrow> byte_reader \<Rightarrow> (hnsw_node \<times> byte_reader) option" where
  "read_node dm cnt vector_for r =
     (let (rid, r1) = get_string r; (t, r2) = get_u32 r1; top = int_of_u32 (unat t) in
      if \<not> rd_ok r2 \<or> top < 0 then None
      else case vector_for rid of
        None \<Rightarrow> None
      | Some components \<Rightarrow>
          map_option (\<lambda>(ls, r3).
              (\<lparr>hn_id = rid, hn_vector = take (unat dm) components, hn_top_layer = top, hn_deleted = False,
                hn_neighbors = ls\<rparr>, r3))
            (read_layers (nat (top + 1)) cnt r2 []))"

fun read_nodes ::
  "nat \<Rightarrow> nat \<Rightarrow> u32 \<Rightarrow> (record_id \<Rightarrow> f32 list option) \<Rightarrow> byte_reader \<Rightarrow> hnsw_index \<Rightarrow> (hnsw_index \<times> byte_reader) option"
where
  "read_nodes 0 c cnt vector_for r ix = Some (ix, r)"
| "read_nodes (Suc n) c cnt vector_for r ix =
     (case read_node (hx_dimensionality ix) cnt vector_for r of
        None \<Rightarrow> None
      | Some (node, r1) \<Rightarrow>
          if omap_find (hn_id node) (hx_id_to_internal ix) \<noteq> None then None
          else read_nodes n (c + 1) cnt vector_for r1
            (ix\<lparr>hx_id_to_internal := (hn_id node, c) # hx_id_to_internal ix, hx_nodes := hx_nodes ix @ [node]\<rparr>))"

definition hnsw_deserialize ::
  "host \<Rightarrow> u32 \<Rightarrow> distance_metric \<Rightarrow> u8 list \<Rightarrow> (record_id \<Rightarrow> f32 list option) \<Rightarrow> hnsw_index option" where
  "hnsw_deserialize h dm metric data vector_for =
     (let (m, r1) = get_u32 (new_reader data); (ef, r2) = get_u32 r1; (seed, r3) = get_u64 r2;
          (cnt, r4) = get_u32 r3; (max_lvl, r5) = get_u32 r4; (entry, r6) = get_u32 r5 in
      if \<not> rd_ok r6 then None
      else case read_nodes (unat cnt) 0 cnt vector_for r6
          (new_hnsw h dm metric (default_index_params\<lparr>ip_m := m, ip_ef_construction := ef, ip_seed := seed\<rparr>)) of
        None \<Rightarrow> None
      | Some (ix, r7) \<Rightarrow>
          if \<not> rd_ok r7 \<or> remaining r7 \<noteq> 0 then None
          else let ix' = ix\<lparr>hx_live_count := ucast cnt,
                            hx_max_level := (if max_lvl = 0xFFFFFFFF then -1 else int_of_u32 (unat max_lvl))\<rparr> in
            if cnt = 0 then Some (ix'\<lparr>hx_entry_point := -1\<rparr>)
            else if entry = 0xFFFFFFFF \<or> cnt \<le> entry then None
            else Some (ix'\<lparr>hx_entry_point := int_of_u32 (unat entry)\<rparr>))"

end
