(* ===== verification/Index.thy ===== *)
theory Index
  imports Ivf Hnsw_Serial
begin

text \<open>
  The polymorphic \<open>Index\<close> of \<open>index.hpp\<close>: a pointer to one of the two implementations, with
  virtual calls dispatched on the constructor.  The dispatched operations satisfy the contract of
  \<open>Index_Spec\<close>, whichever implementation is behind them.
\<close>

datatype any_index = HnswIx hnsw_index | IvfIx ivf_index

definition make_index :: "host \<Rightarrow> index_type \<Rightarrow> u32 \<Rightarrow> distance_metric \<Rightarrow> index_params \<Rightarrow> any_index" where
  "make_index h type dm metric params =
     (if type = HNSW then HnswIx (new_hnsw h dm metric params) else IvfIx (new_ivf dm metric params))"

fun index_add :: "host \<Rightarrow> any_index \<Rightarrow> record_id \<Rightarrow> f32 list \<Rightarrow> (status \<times> any_index) option" where
  "index_add h (HnswIx i) rid v = map_option (map_prod id HnswIx) (hnsw_add h i rid v)"
| "index_add h (IvfIx i) rid v = Some (map_prod id IvfIx (ivf_add i rid v))"

fun index_remove :: "any_index \<Rightarrow> record_id \<Rightarrow> status \<times> any_index" where
  "index_remove (HnswIx i) rid = map_prod id HnswIx (hnsw_remove i rid)"
| "index_remove (IvfIx i) rid = map_prod id IvfIx (ivf_remove i rid)"

fun index_search :: "host \<Rightarrow> any_index \<Rightarrow> f32 list \<Rightarrow> u32 \<Rightarrow> query_params \<Rightarrow> (candidate list \<times> any_index) option" where
  "index_search h (HnswIx i) q k params = map_option (map_prod id HnswIx) (hnsw_search h i q k params)"
| "index_search h (IvfIx i) q k params = map_option (map_prod id IvfIx) (ivf_search h i q k params)"

fun index_serialize :: "any_index \<Rightarrow> u8 list option" where
  "index_serialize (HnswIx i) = hnsw_serialize i"
| "index_serialize (IvfIx i) = Some (ivf_serialize i)"

fun index_size :: "any_index \<Rightarrow> u64" where
  "index_size (HnswIx i) = hnsw_size i"
| "index_size (IvfIx i) = ivf_size i"

fun index_type_of :: "any_index \<Rightarrow> index_type" where
  "index_type_of (HnswIx i) = HNSW"
| "index_type_of (IvfIx i) = IVF"

section \<open>The contract\<close>

fun index_ok :: "host \<Rightarrow> any_index \<Rightarrow> bool" where
  "index_ok h (HnswIx i) = hnsw_ok h i"
| "index_ok h (IvfIx i) = ivf_ok h i"

fun index_slots :: "any_index \<Rightarrow> nat" where
  "index_slots (HnswIx i) = hnsw_slots i"
| "index_slots (IvfIx i) = ivf_slots i"

fun index_width :: "any_index \<Rightarrow> nat" where
  "index_width (HnswIx i) = hx_width i"
| "index_width (IvfIx i) = iv_width i"

fun index_dist :: "host \<Rightarrow> any_index \<Rightarrow> f32 list \<Rightarrow> f32 list \<Rightarrow> f32" where
  "index_dist h (HnswIx i) = hnsw_dist h i"
| "index_dist h (IvfIx i) = ivf_dist h i"

fun index_contents :: "any_index \<Rightarrow> record_id \<Rightarrow> f32 list option" where
  "index_contents (HnswIx i) = hnsw_contents i"
| "index_contents (IvfIx i) = ivf_contents i"

interpretation index: vector_index "index_ok h" index_slots index_width "index_dist h" index_contents "index_add h"
  index_remove "index_search h" for h
proof (unfold_locales, goal_cases)
  case (1 i rid v)
  then show ?case using hnsw.add_ok [of h _ rid v] ivf.add_ok [of h _ rid v] by (cases i) fastforce+
next
  case (2 i rid)
  then show ?case using hnsw.remove_ok [of h _ rid] ivf.remove_ok [of h _ rid] by (cases i) fastforce+
next
  case (3 i q k params)
  then show ?case
  proof (cases i)
    case (HnswIx j)
    then show ?thesis using hnsw.search_ok [of h j q k params] 3 by fastforce
  next
    case (IvfIx j)
    then show ?thesis using ivf.search_ok [of h j q k params] 3 by fastforce
  qed
qed

text \<open>The implementation behind the pointer never changes.\<close>

lemma index_add_type: "index_add h i rid v = Some (st, i') \<Longrightarrow> index_type_of i' = index_type_of i"
  by (cases i) (auto simp: map_prod_def split: prod.splits)

lemma index_remove_type: "index_type_of (snd (index_remove i rid)) = index_type_of i"
  by (cases i) simp_all

lemma index_search_type: "index_search h i q k params = Some (cs, i') \<Longrightarrow> index_type_of i' = index_type_of i"
  by (cases i) auto

text \<open>What the host must provide for an index of the given parameters.\<close>

definition index_host_ok :: "host \<Rightarrow> index_type \<Rightarrow> u32 \<Rightarrow> distance_metric \<Rightarrow> index_params \<Rightarrow> bool" where
  "index_host_ok h type dm metric params \<longleftrightarrow>
     nan_free h metric (unat dm) \<and>
     (if type = HNSW then levels_ok h (hx_level_scale (new_hnsw h dm metric params)) (ip_seed params)
      else shuffle_permutes h \<and> (\<forall>n < 2 ^ 31. partition_count (ip_nlist params) n \<noteq> None))"

lemma make_index_ok:
  assumes "index_host_ok h type dm metric params"
  defines "i \<equiv> make_index h type dm metric params"
  shows "index_ok h i" and "index_contents i = Map.empty" and "index_slots i = 0" and "index_width i = unat dm"
    and "index_dist h i = distance_or_inf (h_calculator h) metric"
    and "type = HNSW \<or> type = IVF \<Longrightarrow> index_type_of i = type"
proof -
  have n: "nan_free h metric (unat dm)" using assms(1) by (simp add: index_host_ok_def)
  have "index_ok h i \<and> index_contents i = Map.empty \<and> index_slots i = 0 \<and> index_width i = unat dm
      \<and> index_dist h i = distance_or_inf (h_calculator h) metric"
  proof (cases "type = HNSW")
    case True
    then have "levels_ok h (hx_level_scale (new_hnsw h dm metric params)) (ip_seed params)"
      using assms(1) by (simp add: index_host_ok_def)
    then show ?thesis
      using new_hnsw_ok [OF n] True by (simp add: i_def make_index_def hnsw_dist_def) (simp add: new_hnsw_def Let_def)
  next
    case False
    then have "shuffle_permutes h" "\<forall>n < 2 ^ 31. partition_count (ip_nlist params) n \<noteq> None"
      using assms(1) by (simp_all add: index_host_ok_def)
    then show ?thesis
      using new_ivf_ok [OF _ n] False by (simp add: i_def make_index_def ivf_dist_def) (simp add: new_ivf_def)
  qed
  then show "index_ok h i" "index_contents i = Map.empty" "index_slots i = 0" "index_width i = unat dm"
    "index_dist h i = distance_or_inf (h_calculator h) metric" by blast+
  show "type = HNSW \<or> type = IVF \<Longrightarrow> index_type_of i = type"
    by (auto simp: i_def make_index_def)
qed

end
