(* ===== verification/Free_List.thy ===== *)
theory Free_List
  imports Types
begin

text \<open>
  The free list of the arena allocator (\<open>free_span\<close> and the first-fit scan of
  \<open>memory_allocator.cpp\<close>): an address-ordered map from span offset to span size, coalesced on
  every return.  Offsets and span sizes stay below the capacity and are naturals.
\<close>

section \<open>Operations\<close>

definition kAlignment :: nat where "kAlignment = 64"

definition first_fit :: "nat \<Rightarrow> (nat, nat) omap \<Rightarrow> (nat \<times> nat) option" where
  "first_fit needed free = find (\<lambda>(_, sz). needed \<le> sz) free"

text \<open>Neighbours of a key in an ordered map (\<open>std::next\<close>, \<open>std::prev\<close>).\<close>

definition omap_next :: "'k::linorder \<Rightarrow> ('k, 'v) omap \<Rightarrow> ('k \<times> 'v) option" where
  "omap_next k m = find (\<lambda>e. k < fst e) m"

definition omap_prev :: "'k::linorder \<Rightarrow> ('k, 'v) omap \<Rightarrow> ('k \<times> 'v) option" where
  "omap_prev k m = find (\<lambda>e. fst e < k) (rev m)"

definition merge_next :: "nat \<Rightarrow> nat \<Rightarrow> (nat, nat) omap \<Rightarrow> nat \<times> (nat, nat) omap" where
  "merge_next offset sz m =
     (case omap_next offset m of
        Some (o2, s2) \<Rightarrow>
          if offset + sz = o2 then (sz + s2, omap_erase o2 (omap_set offset (sz + s2) m))
          else (sz, m)
      | None \<Rightarrow> (sz, m))"

definition merge_prev :: "nat \<Rightarrow> nat \<Rightarrow> (nat, nat) omap \<Rightarrow> (nat, nat) omap" where
  "merge_prev offset sz m =
     (case omap_prev offset m of
        Some (o1, s1) \<Rightarrow>
          if o1 + s1 = offset then omap_erase offset (omap_set o1 (s1 + sz) m) else m
      | None \<Rightarrow> m)"

definition free_span :: "nat \<Rightarrow> nat \<Rightarrow> (nat, nat) omap \<Rightarrow> (nat, nat) omap" where
  "free_span offset sz m =
     (if sz = 0 then m
      else let m1 = omap_emplace offset sz m;
               it_size = (case omap_find offset m1 of Some s \<Rightarrow> s | None \<Rightarrow> sz);
               (it_size', m2) = merge_next offset it_size m1
           in merge_prev offset it_size' m2)"

section \<open>Well-formedness\<close>

text \<open>
  How many of the spans contain a byte.  A well-formed state covers every byte of the arena
  exactly once by its free spans and live blocks; that is disjointness and conservation at once.
\<close>

definition cov :: "nat \<Rightarrow> (nat \<times> nat) list \<Rightarrow> nat" where
  "cov p spans = (\<Sum>(o', s)\<leftarrow>spans. if o' \<le> p \<and> p < o' + s then 1 else 0)"

text \<open>Free spans: non-empty, aligned, in address order and separated, so fully coalesced.\<close>

definition gap :: "nat \<times> nat \<Rightarrow> nat \<times> nat \<Rightarrow> bool" where
  "gap e f \<longleftrightarrow> fst e + snd e < fst f"

definition aligned_span :: "nat \<times> nat \<Rightarrow> bool" where
  "aligned_span e \<longleftrightarrow> 0 < snd e \<and> fst e mod kAlignment = 0 \<and> snd e mod kAlignment = 0"

definition free_ok :: "(nat, nat) omap \<Rightarrow> bool" where
  "free_ok m \<longleftrightarrow> sorted_wrt gap m \<and> (\<forall>e \<in> set m. aligned_span e)"

section \<open>Coverage\<close>

lemma cov_Nil [simp]: "cov p [] = 0"
  by (simp add: cov_def)

lemma cov_Cons: "cov p ((o', s) # m) = (if o' \<le> p \<and> p < o' + s then 1 else 0) + cov p m"
  by (simp add: cov_def)

lemma cov_append: "cov p (xs @ ys) = cov p xs + cov p ys"
  by (simp add: cov_def)

lemma cov_mid: "cov p (xs @ e # ys) = cov p xs + cov p [e] + cov p ys"
  by (cases e) (simp add: cov_append cov_Cons)

lemma cov_split: "cov p [(o', s + t)] = cov p [(o', s)] + cov p [(o' + s, t)]"
  by (auto simp: cov_Cons)

lemma cov_mset: "cov p xs = (\<Sum>(o', s)\<in>#mset xs. if o' \<le> p \<and> p < o' + s then 1 else 0)"
  by (induction xs) (auto simp: cov_Cons)

lemma cov_perm: "mset xs = mset ys \<Longrightarrow> cov p xs = cov p ys"
  by (simp only: cov_mset)

lemma mset_omap_set_new: "k \<notin> omap_keys m \<Longrightarrow> mset (omap_set k v m) = add_mset (k, v) (mset m)"
  by (induction m) auto

lemma cov_omap_set_new: "k \<notin> omap_keys m \<Longrightarrow> cov p (omap_set k v m) = cov p [(k, v)] + cov p m"
  using cov_perm [of "omap_set k v m" "(k, v) # m"] by (simp add: mset_omap_set_new cov_Cons)

lemma mset_omap_erase:
  "omap_find k m = Some v \<Longrightarrow> mset m = add_mset (k, v) (mset (omap_erase k m))"
  by (induction m) (auto split: if_splits)

lemma cov_omap_erase:
  "omap_find k m = Some v \<Longrightarrow> cov p m = cov p [(k, v)] + cov p (omap_erase k m)"
  using cov_perm [of m "(k, v) # omap_erase k m"] by (simp add: mset_omap_erase cov_Cons)

lemma cov_omap_set_old:
  assumes "omap_ok m" "omap_find k m = Some v"
  shows "cov p (omap_set k w m) + cov p [(k, v)] = cov p [(k, w)] + cov p m"
proof -
  have "omap_erase k (omap_set k w m) = omap_erase k m"
    using assms
  proof (induction m)
    case (Cons e m)
    have "k \<notin> omap_keys m" if "k < fst e" using Cons.prems(1) that by force
    with Cons show ?case by (cases e) (auto simp: omap_find_Some_key)
  qed simp
  moreover have "omap_find k (omap_set k w m) = Some w" by (simp add: map_lookup)
  ultimately have "cov p (omap_set k w m) = cov p [(k, w)] + cov p (omap_erase k m)"
    by (metis cov_omap_erase)
  then show ?thesis using cov_omap_erase [OF assms(2), of p] by simp
qed

lemma cov_pos: "(o', s) \<in> set m \<Longrightarrow> o' \<le> p \<Longrightarrow> p < o' + s \<Longrightarrow> 0 < cov p m"
  by (induction m) (auto simp: cov_Cons split: if_splits)

lemma cov_posD: "0 < cov p m \<Longrightarrow> \<exists>o' s. (o', s) \<in> set m \<and> o' \<le> p \<and> p < o' + s"
  by (induction m) (force simp: cov_Cons split: if_splits)+

text \<open>Summing coverage over the arena counts bytes.\<close>

lemma cov_total:
  "(\<And>o' s. (o', s) \<in> set m \<Longrightarrow> o' + s \<le> N) \<Longrightarrow> (\<Sum>p<N. cov p m) = (\<Sum>(_, s)\<leftarrow>m. s)"
proof (induction m)
  case (Cons e m)
  obtain o' s where e: "e = (o', s)" by (cases e)
  have "o' + s \<le> N" using Cons.prems [of o' s] e by simp
  then have "{p \<in> {..<N}. o' \<le> p \<and> p < o' + s} = {o'..<o' + s}" by auto
  then have "(\<Sum>p<N. if o' \<le> p \<and> p < o' + s then 1 else 0) = s"
    by (simp add: sum.If_cases Int_def)
  moreover have "(\<Sum>p<N. cov p m) = (\<Sum>(_, s)\<leftarrow>m. s)"
    using Cons by (meson list.set_intros(2))
  ultimately show ?case by (simp add: e cov_Cons sum.distrib)
qed simp



section \<open>The free list\<close>

lemma gap_omap_ok: "sorted_wrt gap m \<Longrightarrow> omap_ok m"
  unfolding sorted_wrt_map by (rule sorted_wrt_mono_rel) (auto simp: gap_def)

lemma free_ok_omap [simp]: "free_ok m \<Longrightarrow> omap_ok m"
  by (simp add: free_ok_def gap_omap_ok)

lemma free_ok_Nil [simp]: "free_ok []"
  by (simp add: free_ok_def)

lemma omap_split:
  fixes m :: "('k::linorder, 'v) omap"
  assumes "omap_ok m" "k \<notin> omap_keys m"
  obtains lo hi where "m = lo @ hi" "\<forall>j \<in> omap_keys lo. j < k" "\<forall>j \<in> omap_keys hi. k < j"
proof
  let ?lo = "takeWhile (\<lambda>e. fst e < k) m" and ?hi = "dropWhile (\<lambda>e. fst e < k) m"
  show "m = ?lo @ ?hi" by simp
  show "\<forall>j \<in> omap_keys ?lo. j < k" by (auto dest: set_takeWhileD)
  show "\<forall>j \<in> omap_keys ?hi. k < j"
    using assms
  proof (induction m)
    case (Cons e m)
    show ?case
    proof (cases "fst e < k")
      case True
      with Cons show ?thesis by simp
    next
      case False
      then have "k < fst e" using Cons.prems(2) by auto
      then show ?thesis using Cons.prems(1) False by auto
    qed
  qed simp
qed

lemma omap_set_mid:
  "\<forall>j \<in> omap_keys lo. j < k \<Longrightarrow> \<forall>j \<in> omap_keys hi. k < j \<Longrightarrow>
   omap_set k v (lo @ hi) = lo @ (k, v) # hi"
proof (induction lo)
  case Nil
  then show ?case by (cases hi) auto
next
  case (Cons e lo)
  then show ?case by (cases e) (auto dest: less_imp_not_less)
qed

lemma omap_set_at:
  "\<forall>j \<in> omap_keys lo. j < k \<Longrightarrow> omap_set k v (lo @ (k, w) # hi) = lo @ (k, v) # hi"
  by (induction lo) (auto dest: less_imp_not_less)

lemma omap_erase_at: "k \<notin> omap_keys lo \<Longrightarrow> omap_erase k (lo @ (k, w) # hi) = lo @ hi"
  by (induction lo) auto

lemma omap_find_at: "k \<notin> omap_keys lo \<Longrightarrow> omap_find k (lo @ (k, w) # hi) = Some w"
  by (induction lo) auto

lemma omap_next_at:
  "\<forall>j \<in> omap_keys lo. j < k \<Longrightarrow> \<forall>j \<in> omap_keys hi. k < j \<Longrightarrow>
   omap_next k (lo @ (k, w) # hi) = (case hi of [] \<Rightarrow> None | e # _ \<Rightarrow> Some e)"
  unfolding omap_next_def
  by (induction lo) (auto dest: less_imp_not_less split: list.split)

lemma omap_prev_at:
  assumes "\<forall>j \<in> omap_keys lo. j < k" "\<forall>j \<in> omap_keys hi. k < j"
  shows "omap_prev k (lo @ (k, w) # hi) = (if lo = [] then None else Some (last lo))"
proof -
  have "find P (xs @ ys) = (case find P xs of None \<Rightarrow> find P ys | Some x \<Rightarrow> Some x)"
    for P and xs ys :: "('a \<times> 'b) list"
    by (induction xs) auto
  moreover have "find (\<lambda>e. fst e < k) (rev hi) = None"
    using assms(2) by (auto simp: find_None_iff dest: less_imp_not_less)
  moreover have "find (\<lambda>e. fst e < k) (rev lo) = (if lo = [] then None else Some (last lo))"
    using assms(1) by (cases lo rule: rev_cases) auto
  ultimately show ?thesis by (simp add: omap_prev_def)
qed

text \<open>The span being returned does not overlap the free ones.\<close>

definition disjoint_from :: "nat \<Rightarrow> nat \<Rightarrow> (nat \<times> nat) list \<Rightarrow> bool" where
  "disjoint_from off s m \<longleftrightarrow> (\<forall>(o', s') \<in> set m. o' + s' \<le> off \<or> off + s \<le> o')"

lemma disjoint_from_cov:
  assumes "\<forall>p. cov p m + cov p [(off, s)] \<le> 1" "\<forall>(o', s') \<in> set m. 0 < s'" "0 < s"
  shows "disjoint_from off s m"
  unfolding disjoint_from_def
proof (clarify, rule ccontr)
  fix o' s' assume e: "(o', s') \<in> set m" and "\<not> off + s \<le> o'" "\<not> o' + s' \<le> off"
  then have "o' \<le> max o' off" "max o' off < o' + s'" "off \<le> max o' off" "max o' off < off + s"
    using assms(2,3) by auto
  then have "0 < cov (max o' off) m" "cov (max o' off) [(off, s)] = 1"
    using cov_pos [OF e] by (auto simp: cov_Cons)
  then show False using assms(1) by (metis add_le_same_cancel2 add.commute not_less)
qed

text \<open>
  Returning a span: the four shapes of the result, by which neighbours touch it.  In each the free
  list stays well formed and covers exactly the returned bytes more.
\<close>

lemma free_span_split:
  assumes sorted: "omap_ok lo" and lo: "\<forall>j \<in> omap_keys lo. j < off" and hi: "\<forall>j \<in> omap_keys hi. off < j" and s: "0 < s"
  shows "free_span off s (lo @ hi) =
    (let (s', hi') = (case hi of (o2, s2) # hi'' \<Rightarrow> if off + s = o2 then (s + s2, hi'') else (s, hi)
                              | [] \<Rightarrow> (s, hi))
     in if lo \<noteq> [] \<and> fst (last lo) + snd (last lo) = off
        then butlast lo @ (fst (last lo), snd (last lo) + s') # hi' else lo @ (off, s') # hi')"
proof -
  have nl: "off \<notin> omap_keys lo" "off \<notin> omap_keys (lo @ hi)"
    using lo hi by (auto dest: less_imp_not_less)
  have m1: "omap_emplace off s (lo @ hi) = lo @ (off, s) # hi"
    using nl(2) lo hi by (simp add: omap_emplace_absent omap_set_mid)
  define r where "r = (case hi of (o2, s2) # hi'' \<Rightarrow> if off + s = o2 then (s + s2, hi'') else (s, hi)
                              | [] \<Rightarrow> (s, hi))"
  have hi': "\<forall>j \<in> omap_keys (snd r). off < j"
    using hi by (auto simp: r_def split: list.splits if_splits)
  have m2: "merge_next off s (lo @ (off, s) # hi) = (fst r, lo @ (off, fst r) # snd r)"
  proof (cases hi)
    case (Cons e hi'')
    obtain o2 s2 where e: "e = (o2, s2)" by (cases e)
    have "o2 \<notin> omap_keys (lo @ [(off, s + s2)])"
      using lo hi Cons e by auto
    then have "omap_erase o2 ((lo @ [(off, s + s2)]) @ (o2, s2) # hi'') = (lo @ [(off, s + s2)]) @ hi''"
      by (rule omap_erase_at)
    then show ?thesis
      using Cons e lo hi by (simp add: merge_next_def omap_next_at r_def omap_set_at)
  qed (use lo in \<open>simp add: merge_next_def omap_next_at r_def\<close>)
  have m3: "merge_prev off t (lo @ (off, t) # h) =
      (if lo \<noteq> [] \<and> fst (last lo) + snd (last lo) = off
       then butlast lo @ (fst (last lo), snd (last lo) + t) # h else lo @ (off, t) # h)"
    if h: "\<forall>j \<in> omap_keys h. off < j" for t h
  proof (cases lo rule: rev_cases)
    case (snoc l e)
    obtain o1 s1 where e: "e = (o1, s1)" by (cases e)
    show ?thesis
    proof (cases "o1 + s1 = off")
      case True
      have prev: "omap_prev off (lo @ (off, t) # h) = Some (o1, s1)"
        using omap_prev_at [OF lo h] snoc e by simp
      have l: "\<forall>j \<in> omap_keys l. j < o1" using sorted snoc e by (auto simp: sorted_wrt_append)
      have "off \<notin> omap_keys (l @ [(o1, s1 + t)])" using lo snoc e by auto
      then have "omap_erase off ((l @ [(o1, s1 + t)]) @ (off, t) # h) = (l @ [(o1, s1 + t)]) @ h"
        by (rule omap_erase_at)
      moreover have "omap_set o1 (s1 + t) (lo @ (off, t) # h) = (l @ [(o1, s1 + t)]) @ (off, t) # h"
        using omap_set_at [OF l] snoc e by simp
      ultimately show ?thesis
        unfolding merge_prev_def prev using snoc e True by simp
    next
      case False
      have "omap_prev off (lo @ (off, t) # h) = Some (o1, s1)"
        using omap_prev_at [OF lo h] snoc e by simp
      then show ?thesis unfolding merge_prev_def using snoc e False by simp
    qed
  next
    case Nil
    have "omap_prev off (lo @ (off, t) # h) = None"
      using omap_prev_at [OF lo h] Nil by simp
    then show ?thesis using Nil by (simp add: merge_prev_def)
  qed
  show ?thesis
    using s nl m2 m3 [OF hi', of "fst r"]
    by (simp add: free_span_def m1 omap_find_at Let_def split_beta r_def [symmetric])
qed


lemma aligned_join:
  "aligned_span (o', s) \<Longrightarrow> aligned_span (o'', t) \<Longrightarrow> aligned_span (o', s + t)"
  by (simp add: aligned_span_def dvd_eq_mod_eq_0 [symmetric])

text \<open>What the merge with the following span leaves.\<close>

lemma merge_next_ok:
  assumes r: "(s', hi') = (case hi of (o2, s2) # hi'' \<Rightarrow> if off + s = o2 then (s + s2, hi'') else (s, hi)
                              | [] \<Rightarrow> (s, hi))"
    and hi: "sorted_wrt gap hi" "\<forall>e \<in> set hi. aligned_span e" "\<forall>e \<in> set hi. off + s \<le> fst e"
    and s: "aligned_span (off, s)"
  shows "aligned_span (off, s') \<and> sorted_wrt gap hi' \<and> set hi' \<subseteq> set hi
      \<and> (\<forall>f \<in> set hi'. off + s' < fst f) \<and> cov p [(off, s')] + cov p hi' = cov p [(off, s)] + cov p hi"
proof (cases hi)
  case Nil
  then show ?thesis using r s by simp
next
  case (Cons e hi'')
  obtain o2 s2 where e: "e = (o2, s2)" by (cases e)
  have later: "\<forall>f \<in> set hi''. o2 + s2 < fst f" using hi(1) Cons e by (auto simp: gap_def)
  show ?thesis
  proof (cases "off + s = o2")
    case True
    then have "s' = s + s2" "hi' = hi''" using r Cons e by auto
    moreover have "cov p [(off, s + s2)] = cov p [(off, s)] + cov p [(off + s, s2)]" by (rule cov_split)
    moreover have "aligned_span (off, s + s2)" using aligned_join s hi(2) Cons e by auto
    ultimately show ?thesis using Cons e True hi later by (auto simp: cov_Cons)
  next
    case False
    then have "s' = s" "hi' = hi" using r Cons e by auto
    moreover have "off + s < o2" using hi(3) Cons e False by auto
    ultimately show ?thesis using s hi later Cons e by auto
  qed
qed

lemma free_span_ok:
  assumes m: "free_ok m" and s: "aligned_span (off, s)" and dis: "disjoint_from off s m"
  shows "free_ok (free_span off s m) \<and> cov p (free_span off s m) = cov p [(off, s)] + cov p m"
proof -
  have s0: "0 < s" using s by (simp add: aligned_span_def)
  have dis': "o' + s' \<le> off \<or> off + s \<le> o'" if "(o', s') \<in> set m" for o' s'
    using dis that by (auto simp: disjoint_from_def)
  have "off \<notin> omap_keys m"
  proof
    assume "off \<in> omap_keys m"
    then obtain s' where e: "(off, s') \<in> set m" by auto
    then have "0 < s'" using m by (auto simp: free_ok_def aligned_span_def)
    then show False using dis' [OF e] s0 by simp
  qed
  then obtain lo hi where sp: "m = lo @ hi" "\<forall>j \<in> omap_keys lo. j < off" "\<forall>j \<in> omap_keys hi. off < j"
    using omap_split [of m off] m by auto
  have ends: "\<forall>e \<in> set lo. fst e + snd e \<le> off"
  proof
    fix e assume e: "e \<in> set lo"
    then have "fst e < off" using sp(2) by auto
    then show "fst e + snd e \<le> off" using dis' [of "fst e" "snd e"] sp(1) e by auto
  qed
  have starts: "\<forall>e \<in> set hi. off + s \<le> fst e"
  proof
    fix e assume e: "e \<in> set hi"
    then have "off < fst e" using sp(3) by auto
    then show "off + s \<le> fst e" using dis' [of "fst e" "snd e"] sp(1) e by auto
  qed
  have lohi: "sorted_wrt gap lo" "sorted_wrt gap hi" "\<forall>e \<in> set lo. \<forall>f \<in> set hi. gap e f"
    and al: "\<forall>e \<in> set lo. aligned_span e" "\<forall>e \<in> set hi. aligned_span e"
    using m sp by (auto simp: free_ok_def sorted_wrt_append)
  obtain s' hi' where r: "(s', hi') = (case hi of (o2, s2) # hi'' \<Rightarrow> if off + s = o2 then (s + s2, hi'') else (s, hi)
                              | [] \<Rightarrow> (s, hi))"
    by (metis surj_pair)
  have mid: "aligned_span (off, s')" "sorted_wrt gap hi'" "set hi' \<subseteq> set hi"
      "\<forall>f \<in> set hi'. off + s' < fst f"
    and mid_cov: "cov p [(off, s')] + cov p hi' = cov p [(off, s)] + cov p hi"
    using merge_next_ok [OF r lohi(2) al(2) starts s] by blast+
  have sub: "\<forall>e \<in> set lo. \<forall>f \<in> set hi'. gap e f" "\<forall>e \<in> set hi'. aligned_span e"
    using lohi(3) mid(3) al by (meson subsetD)+
  have fs: "free_span off s m =
     (if lo \<noteq> [] \<and> fst (last lo) + snd (last lo) = off
      then butlast lo @ (fst (last lo), snd (last lo) + s') # hi' else lo @ (off, s') # hi')"
    using free_span_split [OF gap_omap_ok [OF lohi(1)] sp(2,3) s0]
    unfolding r [symmetric] by (simp add: sp(1))
  show ?thesis
  proof (cases "lo \<noteq> [] \<and> fst (last lo) + snd (last lo) = off")
    case True
    then obtain l o1 s1 where l: "lo = l @ [(o1, s1)]" "o1 + s1 = off"
      by (cases lo rule: rev_cases) auto
    have "cov p [(o1, s1 + s')] = cov p [(o1, s1)] + cov p [(off, s')]"
      using cov_split [of p o1 s1 s'] l by simp
    moreover have "cov p m = cov p l + cov p [(o1, s1)] + cov p hi"
      by (simp only: sp(1) l append.assoc append.simps cov_mid)
    ultimately have c: "cov p (l @ (o1, s1 + s') # hi') = cov p [(off, s)] + cov p m"
      using mid_cov by (simp only: cov_mid)
    have "aligned_span (o1, s1 + s')" using al(1) mid l by (auto intro: aligned_join)
    moreover have "\<forall>e \<in> set l. gap e (o1, s1 + s')" "sorted_wrt gap l"
      using lohi(1) l by (auto simp: sorted_wrt_append gap_def)
    moreover have "\<forall>f \<in> set hi'. gap (o1, s1 + s') f" using mid l by (auto simp: gap_def)
    ultimately have "free_ok (l @ (o1, s1 + s') # hi')"
      using sub al mid l by (auto simp: free_ok_def sorted_wrt_append)
    then show ?thesis using c True l unfolding fs by simp
  next
    case False
    have "\<forall>e \<in> set lo. gap e (off, s')"
    proof
      fix e assume e: "e \<in> set lo"
      then have ne: "lo \<noteq> []" by auto
      then obtain l f where l: "lo = l @ [f]" by (cases lo rule: rev_cases) auto
      have "fst f + snd f \<le> off" "fst f + snd f \<noteq> off" using ends l False by auto
      moreover have "e = f \<or> fst e + snd e < fst f"
        using e l lohi(1) by (auto simp: sorted_wrt_append gap_def)
      ultimately show "gap e (off, s')" by (auto simp: gap_def)
    qed
    moreover have "\<forall>f \<in> set hi'. gap (off, s') f" using mid by (auto simp: gap_def)
    ultimately have "free_ok (lo @ (off, s') # hi')"
      using sub al mid lohi(1) by (auto simp: free_ok_def sorted_wrt_append)
    moreover have "cov p (lo @ (off, s') # hi') = cov p [(off, s)] + cov p m"
      using mid_cov by (simp only: sp(1) cov_mid cov_append [of p lo hi])
    ultimately show ?thesis unfolding fs if_not_P [OF False] by blast
  qed
qed


text \<open>The free list is canonical: it is determined by the bytes it covers.\<close>

lemma free_ok_ConsD: "free_ok (e # m) \<Longrightarrow> free_ok m"
  by (simp add: free_ok_def)

lemma free_head_cov:
  assumes "free_ok ((off, s) # m)"
  shows "p < off \<Longrightarrow> cov p ((off, s) # m) = 0"
    and "cov off ((off, s) # m) = 1" and "cov (off + s) ((off, s) # m) = 0"
proof -
  have later: "\<forall>e \<in> set m. off + s < fst e" and s: "0 < s"
    using assms by (auto simp: free_ok_def gap_def aligned_span_def)
  have "cov p m = 0" if "p \<le> off + s" for p
  proof (rule ccontr)
    assume "cov p m \<noteq> 0"
    then obtain o' s' where "(o', s') \<in> set m" "o' \<le> p" using cov_posD by blast
    then show False using later that by fastforce
  qed
  then show "p < off \<Longrightarrow> cov p ((off, s) # m) = 0"
    and "cov off ((off, s) # m) = 1" and "cov (off + s) ((off, s) # m) = 0"
    using s by (simp_all add: cov_Cons)
qed

lemma free_canonical:
  assumes "free_ok m" "free_ok m'" "\<And>p. cov p m = cov p m'"
  shows "m = m'"
  using assms
proof (induction m arbitrary: m')
  case Nil
  then show ?case
    using free_head_cov(2) by (cases m') force+
next
  case (Cons e m)
  obtain off s where e: "e = (off, s)" by (cases e)
  have m: "free_ok ((off, s) # m)" using Cons.prems(1) e by simp
  then have "m' \<noteq> []" using free_head_cov(2) [OF m] Cons.prems(3) [of off] e by auto
  then obtain off' s' n where m': "m' = (off', s') # n" by (cases m') auto
  then have n: "free_ok ((off', s') # n)" using Cons.prems(2) by simp
  note c = Cons.prems(3) [unfolded e m']
  have "off = off'"
    using free_head_cov(1,2) [OF m] free_head_cov(1,2) [OF n] c
    by (metis linorder_neqE_nat zero_neq_one)
  moreover have "s = s'"
  proof (rule ccontr)
    assume "s \<noteq> s'"
    then consider "s < s'" | "s' < s" by linarith
    then show False
    proof cases
      case 1
      have "0 < cov (off + s) ((off', s') # n)" using 1 \<open>off = off'\<close> by (simp add: cov_Cons)
      then show False using free_head_cov(3) [OF m] c by simp
    next
      case 2
      have "0 < cov (off + s') ((off, s) # m)" using 2 by (simp add: cov_Cons)
      then show False using free_head_cov(3) [OF n] c \<open>off = off'\<close> by simp
    qed
  qed
  moreover have "m = n"
    using m n c calculation by (intro Cons.IH) (auto simp: cov_Cons intro: free_ok_ConsD)
  ultimately show ?case using e m' by simp
qed

end
