(* ===== verification/Allocator.thy ===== *)
theory Allocator
  imports Free_List
begin

text \<open>
  \<open>memory_allocator.hpp\<close> and \<open>memory_allocator.cpp\<close>: the arena allocator with its
  free list, the table of live blocks and the accounting.  Request sizes and byte totals are 64-bit
  words, so \<open>round_up\<close> and the totals wrap as \<open>std::size_t\<close> does.  The component values stored in
  the arena are part of the state (\<open>al_mem\<close>, by byte offset).
\<close>

section \<open>State\<close>

record alloc_record =
  ar_offset :: nat
  ar_rounded :: nat
  ar_requested :: u64
  ar_tag :: collection_tag

record allocator =
  al_capacity :: nat
  al_free :: "(nat, nat) omap"
  al_live :: "(nat \<times> alloc_record) list"
  al_total :: u64
  al_blocks :: u64
  al_tag_bytes :: "(collection_tag, u64) omap"
  al_tag_blocks :: "(collection_tag, u64) omap"
  al_mem :: "nat \<Rightarrow> f32"

record alloc_stats =
  st_total_bytes :: u64
  st_live_blocks :: u64


section \<open>Operations\<close>

definition round_up :: "u64 \<Rightarrow> u64" where
  "round_up bytes = (bytes + 63) AND NOT 63"

definition new_allocator :: "u64 \<Rightarrow> allocator" where
  "new_allocator capacity_bytes =
     (let cap = unat capacity_bytes - unat capacity_bytes mod kAlignment in
      \<lparr>al_capacity = cap, al_free = (if 0 < cap then [(0, cap)] else []), al_live = [],
       al_total = 0, al_blocks = 0, al_tag_bytes = [], al_tag_blocks = [], al_mem = (\<lambda>_. 0)\<rparr>)"

text \<open>\<open>m[tag] += d\<close> on a map whose missing values read as zero.\<close>

definition tag_add :: "collection_tag \<Rightarrow> u64 \<Rightarrow> (collection_tag, u64) omap \<Rightarrow> (collection_tag, u64) omap" where
  "tag_add t d m = omap_set t ((case omap_find t m of None \<Rightarrow> 0 | Some v \<Rightarrow> v) + d) m"

text \<open>Subtract from a present entry, dropping it when it reaches zero.\<close>

definition tag_sub :: "collection_tag \<Rightarrow> u64 \<Rightarrow> (collection_tag, u64) omap \<Rightarrow> (collection_tag, u64) omap" where
  "tag_sub t d m =
     (case omap_find t m of
        None \<Rightarrow> m
      | Some v \<Rightarrow> if v - d = 0 then omap_erase t m else omap_set t (v - d) m)"

definition block_footprint :: "u64 \<Rightarrow> nat" where
  "block_footprint bytes = (let needed = unat (round_up bytes) in if needed = 0 then kAlignment else needed)"

definition allocate :: "allocator \<Rightarrow> u64 \<Rightarrow> collection_tag \<Rightarrow> block result \<times> allocator" where
  "allocate a bytes tag =
     (let needed = block_footprint bytes in
      case first_fit needed (al_free a) of
        None \<Rightarrow> (Inl AllocationFailure, a)
      | Some (offset, span_size) \<Rightarrow>
          let free' = omap_erase offset (al_free a);
              free'' = (if needed < span_size
                        then omap_emplace (offset + needed) (span_size - needed) free' else free')
          in (Inr \<lparr>blk_data = ArenaPtr offset, blk_size = unat bytes\<rparr>,
              a\<lparr>al_free := free'',
                al_live := (offset, \<lparr>ar_offset = offset, ar_rounded = needed,
                                     ar_requested = bytes, ar_tag = tag\<rparr>) # al_live a,
                al_total := al_total a + bytes,
                al_blocks := al_blocks a + 1,
                al_tag_bytes := tag_add tag bytes (al_tag_bytes a),
                al_tag_blocks := tag_add tag 1 (al_tag_blocks a)\<rparr>))"

definition release :: "allocator \<Rightarrow> block \<Rightarrow> allocator" where
  "release a b =
     (case blk_data b of
        NullPtr \<Rightarrow> a
      | MapPtr _ \<Rightarrow> a
      | ArenaPtr offset \<Rightarrow>
          if al_capacity a = 0 \<or> al_capacity a \<le> offset then a
          else case omap_find offset (al_live a) of
                 None \<Rightarrow> a
               | Some rec \<Rightarrow>
                   a\<lparr>al_total := al_total a - ar_requested rec,
                     al_blocks := al_blocks a - 1,
                     al_tag_bytes := tag_sub (ar_tag rec) (ar_requested rec) (al_tag_bytes a),
                     al_tag_blocks := tag_sub (ar_tag rec) 1 (al_tag_blocks a),
                     al_live := omap_erase offset (al_live a),
                     al_free := free_span (ar_offset rec) (ar_rounded rec) (al_free a)\<rparr>)"

text \<open>
  The loop of \<open>release_all\<close> over the live blocks; the order of an unordered map is the order of
  the list.
\<close>

fun release_all_loop :: "collection_tag \<Rightarrow> (nat \<times> alloc_record) list \<Rightarrow> allocator \<Rightarrow> allocator" where
  "release_all_loop tag [] a = a"
| "release_all_loop tag ((off, rec) # es) a =
     release_all_loop tag es
       (if ar_tag rec = tag
        then a\<lparr>al_total := al_total a - ar_requested rec,
               al_blocks := al_blocks a - 1,
               al_free := free_span (ar_offset rec) (ar_rounded rec) (al_free a),
               al_live := omap_erase off (al_live a)\<rparr>
        else a)"

definition release_all :: "allocator \<Rightarrow> collection_tag \<Rightarrow> allocator" where
  "release_all a tag =
     (let a' = release_all_loop tag (al_live a) a in
      a'\<lparr>al_tag_bytes := omap_erase tag (al_tag_bytes a'),
         al_tag_blocks := omap_erase tag (al_tag_blocks a')\<rparr>)"

definition stats :: "allocator \<Rightarrow> alloc_stats" where
  "stats a = \<lparr>st_total_bytes = al_total a, st_live_blocks = al_blocks a\<rparr>"

definition stats_of_tag :: "allocator \<Rightarrow> collection_tag \<Rightarrow> alloc_stats" where
  "stats_of_tag a tag =
     \<lparr>st_total_bytes = (case omap_find tag (al_tag_bytes a) of Some v \<Rightarrow> v | None \<Rightarrow> 0),
      st_live_blocks = (case omap_find tag (al_tag_blocks a) of Some v \<Rightarrow> v | None \<Rightarrow> 0)\<rparr>"

text \<open>Component access through a pointer into the arena.\<close>

definition write_vec :: "(nat \<Rightarrow> f32) \<Rightarrow> nat \<Rightarrow> f32 list \<Rightarrow> nat \<Rightarrow> f32" where
  "write_vec mem off vec =
     (\<lambda>p. if off \<le> p \<and> p < off + 4 * length vec \<and> (p - off) mod 4 = 0
          then vec ! ((p - off) div 4) else mem p)"

definition read_vec :: "(nat \<Rightarrow> f32) \<Rightarrow> nat \<Rightarrow> nat \<Rightarrow> f32 list" where
  "read_vec mem off n = map (\<lambda>i. mem (off + 4 * i)) [0..<n]"


section \<open>Well-formedness\<close>

definition live_spans :: "allocator \<Rightarrow> (nat \<times> nat) list" where
  "live_spans a = map (\<lambda>(off, rec). (off, ar_rounded rec)) (al_live a)"

definition live_ok :: "(nat \<times> alloc_record) list \<Rightarrow> bool" where
  "live_ok l \<longleftrightarrow> distinct (map fst l) \<and> (\<forall>(off, rec) \<in> set l. ar_offset rec = off
      \<and> aligned_span (off, ar_rounded rec) \<and> unat (ar_requested rec) \<le> ar_rounded rec)"

definition tiled :: "allocator \<Rightarrow> bool" where
  "tiled a \<longleftrightarrow> (\<forall>p. cov p (al_free a) + cov p (live_spans a) = (if p < al_capacity a then 1 else 0))"

definition tag_live :: "collection_tag \<Rightarrow> allocator \<Rightarrow> (nat \<times> alloc_record) list" where
  "tag_live t a = filter (\<lambda>(_, rec). ar_tag rec = t) (al_live a)"

definition requested_sum :: "(nat \<times> alloc_record) list \<Rightarrow> nat" where
  "requested_sum l = (\<Sum>(_, rec)\<leftarrow>l. unat (ar_requested rec))"

definition rounded_sum :: "(nat \<times> alloc_record) list \<Rightarrow> nat" where
  "rounded_sum l = (\<Sum>(_, rec)\<leftarrow>l. ar_rounded rec)"

definition arena_ok :: "allocator \<Rightarrow> bool" where
  "arena_ok a \<longleftrightarrow> al_capacity a mod kAlignment = 0 \<and> al_capacity a < 2 ^ 64 \<and>
     free_ok (al_free a) \<and> live_ok (al_live a) \<and> tiled a \<and>
     unat (al_total a) = requested_sum (al_live a) \<and> unat (al_blocks a) = length (al_live a)"

text \<open>The tag tables report exactly the live blocks of each tag.\<close>

definition tag_count :: "collection_tag \<Rightarrow> (collection_tag, u64) omap \<Rightarrow> u64" where
  "tag_count t m = (case omap_find t m of Some v \<Rightarrow> v | None \<Rightarrow> 0)"

definition tags_ok :: "allocator \<Rightarrow> bool" where
  "tags_ok a \<longleftrightarrow> omap_ok (al_tag_bytes a) \<and> omap_ok (al_tag_blocks a) \<and>
     (\<forall>t. unat (tag_count t (al_tag_bytes a)) = requested_sum (tag_live t a) \<and>
          unat (tag_count t (al_tag_blocks a)) = length (tag_live t a))"

definition alloc_inv :: "allocator \<Rightarrow> bool" where
  "alloc_inv a \<longleftrightarrow> arena_ok a \<and> tags_ok a"


section \<open>The invariant is kept\<close>

lemma requested_sum_simps [simp]:
  "requested_sum [] = 0"
  "requested_sum ((off, rec) # l) = unat (ar_requested rec) + requested_sum l"
  by (simp_all add: requested_sum_def)

lemma rounded_sum_simps [simp]:
  "rounded_sum [] = 0" "rounded_sum ((off, rec) # l) = ar_rounded rec + rounded_sum l"
  by (simp_all add: rounded_sum_def)

lemma live_spans_cong: "al_live a = al_live b \<Longrightarrow> live_spans a = live_spans b"
  by (simp add: live_spans_def)

lemma alloc_inv_new: "alloc_inv (new_allocator cap)"
proof -
  let ?a = "new_allocator cap"
  define c where "c = unat cap - unat cap mod kAlignment"
  have c: "al_capacity ?a = c" "al_free ?a = (if 0 < c then [(0, c)] else [])" "al_live ?a = []"
      "al_total ?a = 0" "al_blocks ?a = 0" "al_tag_bytes ?a = []" "al_tag_blocks ?a = []"
    by (simp_all add: new_allocator_def Let_def c_def)
  have m: "c mod kAlignment = 0" unfolding c_def by (simp add: minus_mod_eq_mult_div)
  have "unat cap < 2 ^ 64" using unsigned_less [of cap, where 'a = nat] by simp
  then have "c < 2 ^ 64" unfolding c_def by linarith
  moreover have "free_ok (al_free ?a)" using m by (simp add: c free_ok_def aligned_span_def kAlignment_def)
  moreover have "live_ok (al_live ?a)" by (simp add: c live_ok_def)
  moreover have "tiled ?a" by (simp add: tiled_def c live_spans_def cov_Cons)
  moreover have "tags_ok ?a"
    by (simp add: tags_ok_def c tag_count_def tag_live_def requested_sum_def)
  ultimately show ?thesis using m by (simp add: alloc_inv_def arena_ok_def c requested_sum_def)
qed

text \<open>Bytes are conserved: free and live spans together make up the arena.\<close>

lemma span_within:
  assumes "tiled a" "(off, s) \<in> set (al_free a) \<union> set (live_spans a)" "0 < s"
  shows "off + s \<le> al_capacity a"
proof (rule ccontr)
  assume "\<not> off + s \<le> al_capacity a"
  then have out: "\<not> off + s - 1 < al_capacity a" and q: "off \<le> off + s - 1" "off + s - 1 < off + s"
    using assms(3) by linarith+
  consider "(off, s) \<in> set (al_free a)" | "(off, s) \<in> set (live_spans a)" using assms(2) by blast
  then have "cov (off + s - 1) (al_free a) + cov (off + s - 1) (live_spans a) \<noteq> 0"
    using cov_pos [OF _ q] by cases simp_all
  moreover have "cov (off + s - 1) (al_free a) + cov (off + s - 1) (live_spans a) = 0"
    using assms(1) out unfolding tiled_def by presburger
  ultimately show False by simp
qed

lemma live_spans_sum: "(\<Sum>(_, s)\<leftarrow>live_spans a. s) = rounded_sum (al_live a)"
proof -
  have "(\<Sum>(_, s)\<leftarrow>map (\<lambda>(off, rec). (off, ar_rounded rec)) l. s) = rounded_sum l" for l
    by (induction l) auto
  then show ?thesis by (simp only: live_spans_def)
qed

lemma conservation_parts:
  assumes "tiled a" "free_ok (al_free a)" "live_ok (al_live a)"
  shows "(\<Sum>(_, s)\<leftarrow>al_free a. s) + rounded_sum (al_live a) = al_capacity a"
proof -
  have pos: "0 < s" if "(off, s) \<in> set (al_free a) \<union> set (live_spans a)" for off s
    using that assms by (auto simp: free_ok_def live_ok_def aligned_span_def live_spans_def)
  have "(\<Sum>p<al_capacity a. cov p (al_free a)) + (\<Sum>p<al_capacity a. cov p (live_spans a))
      = (\<Sum>p<al_capacity a. 1)"
    using assms(1) by (simp add: tiled_def flip: sum.distrib)
  moreover have "(\<Sum>p<al_capacity a. cov p (al_free a)) = (\<Sum>(_, s)\<leftarrow>al_free a. s)"
    using span_within [OF assms(1)] pos by (intro cov_total) auto
  moreover have "(\<Sum>p<al_capacity a. cov p (live_spans a)) = (\<Sum>(_, s)\<leftarrow>live_spans a. s)"
    using span_within [OF assms(1)] pos by (intro cov_total) auto
  ultimately show ?thesis by (simp add: live_spans_sum)
qed

text \<open>So the requested bytes and the block count stay below the capacity, and no total wraps.\<close>

lemma live_sums:
  assumes "live_ok l"
  shows "requested_sum l \<le> rounded_sum l" and "length l \<le> rounded_sum l"
proof -
  have "\<forall>(off, rec) \<in> set l. unat (ar_requested rec) \<le> ar_rounded rec \<and> 0 < ar_rounded rec"
    using assms by (auto simp: live_ok_def aligned_span_def)
  then show "requested_sum l \<le> rounded_sum l" and "length l \<le> rounded_sum l"
    by (induction l) auto
qed

lemma requested_sum_filter: "requested_sum (filter P l) \<le> requested_sum l"
  by (induction l) auto

lemma round_up_unat: "unat (round_up b) = unat (b + 63) - unat (b + 63) mod 64"
proof -
  have "x AND NOT 63 = push_bit 6 (drop_bit 6 x)" for x :: u64
  proof -
    have "(63 :: u64) = mask 6" by (simp add: mask_eq_exp_minus_1)
    moreover have "x AND NOT (mask 6) = push_bit 6 (drop_bit 6 x)"
      by (rule bit_eqI) (auto simp: bit_simps)
    ultimately show ?thesis by simp
  qed
  then have "round_up b + take_bit 6 (b + 63) = b + 63"
    using bits_ident [of 6 "b + 63"] by (simp add: round_up_def)
  then have "round_up b = (b + 63) - take_bit 6 (b + 63)" by (simp add: eq_diff_eq)
  moreover have t: "unat (take_bit 6 (b + 63)) = unat (b + 63) mod 64"
    unfolding unsigned_take_bit_eq by (simp add: take_bit_eq_mod)
  moreover have "take_bit 6 (b + 63) \<le> b + 63"
    by (simp add: word_le_nat_alt t)
  ultimately show ?thesis by (simp add: unat_sub)
qed

lemma round_up_aligned: "unat (round_up b) mod 64 = 0"
  by (simp add: round_up_unat minus_mod_eq_mult_div)

lemma round_up_upper:
  assumes "unat b \<le> 2 ^ 64 - 64"
  shows "unat b \<le> unat (round_up b) \<and> unat (round_up b) < unat b + 64"
proof -
  have "unat (b + 63) = unat b + 63"
    using assms by (simp add: unat_word_ariths)
  moreover obtain r where "r = unat (b + 63) mod 64" "r < 64" by simp
  ultimately show ?thesis unfolding round_up_unat by linarith
qed

lemma block_footprint_aligned: "0 < block_footprint b \<and> block_footprint b mod kAlignment = 0"
  using round_up_aligned [of b] by (simp add: block_footprint_def Let_def kAlignment_def)

lemma block_footprint_covers: "unat b \<le> 2 ^ 64 - 64 \<Longrightarrow> unat b \<le> block_footprint b"
  using round_up_upper [of b] by (simp add: block_footprint_def Let_def)


section \<open>Allocation\<close>

lemma first_fit_Some:
  "first_fit n m = Some (off, s) \<Longrightarrow>
   \<exists>lo hi. m = lo @ (off, s) # hi \<and> n \<le> s \<and> (\<forall>(o', s') \<in> set lo. s' < n)"
proof (induction m)
  case (Cons e m)
  show ?case
  proof (cases "n \<le> snd e")
    case True
    then have "e = (off, s)" using Cons.prems by (cases e) (simp add: first_fit_def)
    with True show ?thesis by (intro exI [of _ "[]"] exI [of _ m]) simp
  next
    case False
    then have "first_fit n m = Some (off, s)"
      using Cons.prems by (cases e) (simp add: first_fit_def)
    then obtain lo hi where "m = lo @ (off, s) # hi" "n \<le> s" "\<forall>(o', s') \<in> set lo. s' < n"
      using Cons.IH by blast
    moreover have "\<forall>(o', s') \<in> set (e # lo). s' < n" using False calculation(3) by (cases e) simp
    ultimately show ?thesis by (metis append_Cons)
  qed
qed (simp add: first_fit_def)

lemma first_fit_None: "first_fit n m = None \<longleftrightarrow> (\<forall>(o', s') \<in> set m. s' < n)"
  by (force simp: first_fit_def find_None_iff not_le)

lemma aligned_split:
  "aligned_span (off, s) \<Longrightarrow> n < s \<Longrightarrow> n mod kAlignment = 0 \<Longrightarrow> aligned_span (off + n, s - n)"
  by (simp add: aligned_span_def dvd_eq_mod_eq_0 [symmetric])

lemma carve:
  assumes m: "m = lo @ (off, s) # hi" and ok: "free_ok m" and n: "0 < n" "n \<le> s" "n mod kAlignment = 0"
    and r: "r = (if n < s then omap_emplace (off + n) (s - n) (omap_erase off m) else omap_erase off m)"
  shows "free_ok r \<and> cov p r + cov p [(off, n)] = cov p m"
proof -
  have lo: "\<forall>e \<in> set lo. fst e + snd e < off" and hi: "\<forall>e \<in> set hi. off + s < fst e"
    and parts: "sorted_wrt gap lo" "sorted_wrt gap hi" "\<forall>e \<in> set lo. \<forall>f \<in> set hi. gap e f"
    and al: "\<forall>e \<in> set lo \<union> set hi. aligned_span e" "aligned_span (off, s)"
    using ok m by (auto simp: free_ok_def sorted_wrt_append gap_def)
  have "off \<notin> omap_keys lo" using lo by fastforce
  then have er: "omap_erase off m = lo @ hi" using m by (simp add: omap_erase_at)
  show ?thesis
  proof (cases "n < s")
    case True
    have below: "\<forall>j \<in> omap_keys lo. j < off + n" using lo by fastforce
    have above: "\<forall>j \<in> omap_keys hi. off + n < j" using hi True by fastforce
    have "off + n \<notin> omap_keys (lo @ hi)" using below above by force
    then have req: "r = lo @ (off + n, s - n) # hi"
      using True r er below above by (simp add: omap_emplace_absent omap_set_mid)
    have "aligned_span (off + n, s - n)" using aligned_split [OF al(2) True n(3)] .
    moreover have "\<forall>e \<in> set lo. gap e (off + n, s - n)" using lo by (auto simp: gap_def)
    moreover have "\<forall>e \<in> set hi. gap (off + n, s - n) e" using hi True by (auto simp: gap_def)
    ultimately have "free_ok r" using parts al by (auto simp: req free_ok_def sorted_wrt_append)
    moreover have "cov p [(off, s)] = cov p [(off, n)] + cov p [(off + n, s - n)]"
      using cov_split [of p off n "s - n"] True by simp
    ultimately show ?thesis by (simp only: req m cov_mid) simp
  next
    case False
    then have "n = s" "r = lo @ hi" using n r er by auto
    moreover have "free_ok (lo @ hi)" using parts al by (auto simp: free_ok_def sorted_wrt_append)
    moreover have "cov p (lo @ hi) + cov p [(off, s)] = cov p (lo @ (off, s) # hi)"
      by (simp only: cov_mid cov_append [of p lo hi] ac_simps)
    ultimately show ?thesis by (simp only: m)
  qed
qed

text \<open>Linking and unlinking one live block, the state change of every operation.\<close>

definition link :: "nat \<Rightarrow> alloc_record \<Rightarrow> (nat, nat) omap \<Rightarrow> allocator \<Rightarrow> allocator" where
  "link off rec free a =
     a\<lparr>al_free := free, al_live := (off, rec) # al_live a,
       al_total := al_total a + ar_requested rec, al_blocks := al_blocks a + 1\<rparr>"

definition unlink :: "nat \<Rightarrow> alloc_record \<Rightarrow> allocator \<Rightarrow> allocator" where
  "unlink off rec a =
     a\<lparr>al_total := al_total a - ar_requested rec, al_blocks := al_blocks a - 1,
       al_free := free_span (ar_offset rec) (ar_rounded rec) (al_free a),
       al_live := omap_erase off (al_live a)\<rparr>"

lemma unlink_sel [simp]:
  "al_capacity (unlink off rec a) = al_capacity a" "al_live (unlink off rec a) = omap_erase off (al_live a)"
  "al_free (unlink off rec a) = free_span (ar_offset rec) (ar_rounded rec) (al_free a)"
  "al_tag_bytes (unlink off rec a) = al_tag_bytes a" "al_tag_blocks (unlink off rec a) = al_tag_blocks a"
  "al_mem (unlink off rec a) = al_mem a" "al_total (unlink off rec a) = al_total a - ar_requested rec"
  "al_blocks (unlink off rec a) = al_blocks a - 1"
  by (simp_all add: unlink_def)

lemma link_sel [simp]:
  "al_capacity (link off rec f a) = al_capacity a" "al_live (link off rec f a) = (off, rec) # al_live a"
  "al_free (link off rec f a) = f" "al_total (link off rec f a) = al_total a + ar_requested rec"
  "al_blocks (link off rec f a) = al_blocks a + 1"
  by (simp_all add: link_def)

lemma live_spans_Cons:
  "al_live b = (off, rec) # al_live a \<Longrightarrow> cov p (live_spans b) = cov p [(off, ar_rounded rec)] + cov p (live_spans a)"
  by (simp add: live_spans_def cov_Cons)

lemma live_erase:
  assumes "omap_find off l = Some rec"
  shows "cov p (map (\<lambda>(off, rec). (off, ar_rounded rec)) l)
           = cov p [(off, ar_rounded rec)] + cov p (map (\<lambda>(off, rec). (off, ar_rounded rec)) (omap_erase off l))"
    and "requested_sum l = unat (ar_requested rec) + requested_sum (omap_erase off l)"
    and "length l = Suc (length (omap_erase off l))"
    and "requested_sum (filter (\<lambda>(_, rec). ar_tag rec = t) l) =
           (if ar_tag rec = t then unat (ar_requested rec) else 0)
           + requested_sum (filter (\<lambda>(_, rec). ar_tag rec = t) (omap_erase off l))"
    and "length (filter (\<lambda>(_, rec). ar_tag rec = t) l) =
           (if ar_tag rec = t then 1 else 0) + length (filter (\<lambda>(_, rec). ar_tag rec = t) (omap_erase off l))"
proof -
  show "cov p (map (\<lambda>(off, rec). (off, ar_rounded rec)) l)
           = cov p [(off, ar_rounded rec)] + cov p (map (\<lambda>(off, rec). (off, ar_rounded rec)) (omap_erase off l))"
    using assms
  proof (induction l)
    case (Cons e l)
    then show ?case
      by (cases e; cases "fst e = off") (simp_all add: cov_Cons)
  qed simp
  show "requested_sum l = unat (ar_requested rec) + requested_sum (omap_erase off l)"
    using assms
  proof (induction l)
    case (Cons e l)
    then show ?case by (cases e; cases "fst e = off") simp_all
  qed simp
  show "length l = Suc (length (omap_erase off l))"
    using assms
  proof (induction l)
    case (Cons e l)
    then show ?case by (cases e; cases "fst e = off") simp_all
  qed simp
  show "requested_sum (filter (\<lambda>(_, rec). ar_tag rec = t) l) =
           (if ar_tag rec = t then unat (ar_requested rec) else 0)
           + requested_sum (filter (\<lambda>(_, rec). ar_tag rec = t) (omap_erase off l))"
    using assms
  proof (induction l)
    case (Cons e l)
    then show ?case by (cases e; cases "fst e = off") simp_all
  qed simp
  show "length (filter (\<lambda>(_, rec). ar_tag rec = t) l) =
           (if ar_tag rec = t then 1 else 0) + length (filter (\<lambda>(_, rec). ar_tag rec = t) (omap_erase off l))"
    using assms
  proof (induction l)
    case (Cons e l)
    then show ?case by (cases e; cases "fst e = off") simp_all
  qed simp
qed

lemma link_ok:
  assumes ok: "arena_ok a" and r: "aligned_span (off, ar_rounded rec)" "ar_offset rec = off"
      "unat (ar_requested rec) \<le> ar_rounded rec"
    and f: "free_ok f" "\<And>p. cov p f + cov p [(off, ar_rounded rec)] = cov p (al_free a)"
  shows "arena_ok (link off rec f a)"
proof -
  let ?b = "link off rec f a"
  have t: "tiled ?b"
    unfolding tiled_def
  proof
    fix p
    have "cov p (al_free a) + cov p (live_spans a) = (if p < al_capacity a then 1 else 0)"
      using ok by (simp add: arena_ok_def tiled_def)
    then show "cov p (al_free ?b) + cov p (live_spans ?b) = (if p < al_capacity ?b then 1 else 0)"
      using f(2) [of p] live_spans_Cons [of ?b off rec a p] by simp
  qed
  have "off \<notin> fst ` set (al_live a)"
  proof
    assume "off \<in> fst ` set (al_live a)"
    then obtain rec' where e: "(off, rec') \<in> set (al_live a)" by auto
    then have "0 < ar_rounded rec'" using ok by (auto simp: arena_ok_def live_ok_def aligned_span_def)
    then have "0 < cov off (live_spans a)"
      using e by (intro cov_pos [of off "ar_rounded rec'"]) (force simp: live_spans_def)+
    moreover have "0 < cov off [(off, ar_rounded rec)]" using r(1) by (simp add: cov_Cons aligned_span_def)
    moreover have "cov off (al_free a) + cov off (live_spans a) \<le> 1"
      using ok by (simp add: arena_ok_def tiled_def)
    ultimately show False using f(2) [of off] by linarith
  qed
  then have l: "live_ok (al_live ?b)" using ok r by (auto simp: arena_ok_def live_ok_def)
  have "rounded_sum (al_live ?b) < 2 ^ 64"
    using conservation_parts [OF t _ l] f(1) ok by (simp add: arena_ok_def)
  then have "requested_sum (al_live ?b) < 2 ^ 64" "length (al_live ?b) < 2 ^ 64"
    using live_sums [OF l] by linarith+
  then have "unat (al_total a + ar_requested rec) = requested_sum (al_live ?b)"
    "unat (al_blocks a + 1) = length (al_live ?b)"
    using ok by (simp_all add: arena_ok_def unat_word_ariths)
  then show ?thesis using ok t l f(1) by (simp add: arena_ok_def)
qed

lemma unlink_ok:
  assumes ok: "arena_ok a" and found: "omap_find off (al_live a) = Some rec"
  shows "arena_ok (unlink off rec a)"
proof -
  have e: "(off, rec) \<in> set (al_live a)" using omap_find_SomeD [OF found] .
  then have r: "aligned_span (off, ar_rounded rec)" "ar_offset rec = off"
    using ok by (auto simp: arena_ok_def live_ok_def)
  have sp: "cov p (live_spans a) = cov p [(off, ar_rounded rec)] + cov p (live_spans (unlink off rec a))" for p
    using live_erase(1) [OF found] by (simp add: live_spans_def)
  have til: "cov p (al_free a) + cov p (live_spans a) = (if p < al_capacity a then 1 else 0)" for p
    using ok by (simp add: arena_ok_def tiled_def)
  have "disjoint_from off (ar_rounded rec) (al_free a)"
  proof (rule disjoint_from_cov)
    show "\<forall>p. cov p (al_free a) + cov p [(off, ar_rounded rec)] \<le> 1"
    proof
      fix p show "cov p (al_free a) + cov p [(off, ar_rounded rec)] \<le> 1"
        using til [of p] sp [of p] by (simp split: if_splits)
    qed
  qed (use ok r in \<open>auto simp: arena_ok_def free_ok_def aligned_span_def\<close>)
  then have fs: "free_ok (al_free (unlink off rec a))"
      "cov p (al_free (unlink off rec a)) = cov p [(off, ar_rounded rec)] + cov p (al_free a)" for p
    using free_span_ok [OF _ r(1)] ok r(2) by (auto simp: arena_ok_def)
  have t: "tiled (unlink off rec a)"
    unfolding tiled_def
  proof
    fix p show "cov p (al_free (unlink off rec a)) + cov p (live_spans (unlink off rec a))
        = (if p < al_capacity (unlink off rec a) then 1 else 0)"
      using fs(2) [of p] til [of p] sp [of p] by simp
  qed
  have l: "live_ok (omap_erase off (al_live a))"
    using ok set_omap_erase_subset [of off "al_live a"]
    by (auto simp: arena_ok_def live_ok_def distinct_omap_erase)
  have "unat (al_total a) = unat (ar_requested rec) + requested_sum (omap_erase off (al_live a))"
    "unat (al_blocks a) = Suc (length (omap_erase off (al_live a)))"
    using ok live_erase(2,3) [OF found] by (simp_all add: arena_ok_def)
  moreover from this have "ar_requested rec \<le> al_total a" "1 \<le> al_blocks a"
    by (simp_all add: word_le_nat_alt)
  ultimately have "unat (al_total a - ar_requested rec) = requested_sum (omap_erase off (al_live a))"
    "unat (al_blocks a - 1) = length (omap_erase off (al_live a))"
    by (simp_all add: unat_sub)
  then show ?thesis using ok fs(1) t l by (simp add: arena_ok_def)
qed


section \<open>Tag tables\<close>

lemma tag_add_ok: "omap_ok m \<Longrightarrow> omap_ok (tag_add t d m)"
  by (simp add: tag_add_def map_keys)

lemma tag_sub_ok: "omap_ok m \<Longrightarrow> omap_ok (tag_sub t d m)"
  by (simp add: tag_sub_def map_keys split: option.split)

lemma tag_count_add: "tag_count t (tag_add t' d m) = tag_count t m + (if t = t' then d else 0)"
  by (simp add: tag_add_def tag_count_def map_lookup)

lemma tag_count_sub:
  assumes "omap_ok m" "d \<le> tag_count t' m"
  shows "tag_count t (tag_sub t' d m) = tag_count t m - (if t = t' then d else 0)"
proof (cases "omap_find t' m")
  case None
  then have "d = 0" using assms(2) by (simp add: tag_count_def word_le_nat_alt unat_eq_0)
  with None show ?thesis by (simp add: tag_sub_def)
next
  case (Some v)
  then show ?thesis
    using omap_ok_distinct [OF assms(1)] by (simp add: tag_sub_def tag_count_def map_lookup)
qed

lemma tag_count_erase:
  "omap_ok m \<Longrightarrow> tag_count t (omap_erase t' m) = (if t = t' then 0 else tag_count t m)"
  by (simp add: tag_count_def map_lookup omap_ok_distinct)

lemma stats_of_tag_count:
  "stats_of_tag a t = \<lparr>st_total_bytes = tag_count t (al_tag_bytes a), st_live_blocks = tag_count t (al_tag_blocks a)\<rparr>"
  by (simp add: stats_of_tag_def tag_count_def)

lemma arena_ok_tags [simp]:
  "arena_ok (a\<lparr>al_tag_bytes := x, al_tag_blocks := y\<rparr>) = arena_ok a"
  by (simp add: arena_ok_def tiled_def live_spans_def)

lemma alloc_inv_mem [simp]: "alloc_inv (a\<lparr>al_mem := m\<rparr>) = alloc_inv a"
  by (simp add: alloc_inv_def arena_ok_def tiled_def live_spans_def tags_ok_def tag_live_def)


section \<open>Every operation keeps the invariant\<close>

text \<open>The result of a successful allocation, and what first fit chose.\<close>

lemma allocate_success:
  assumes "allocate a bytes tag = (Inr b, a')"
  obtains lo off s hi f where
    "al_free a = lo @ (off, s) # hi" "block_footprint bytes \<le> s"
    "\<forall>(o', s') \<in> set lo. s' < block_footprint bytes"
    "b = \<lparr>blk_data = ArenaPtr off, blk_size = unat bytes\<rparr>"
    "f = (if block_footprint bytes < s
          then omap_emplace (off + block_footprint bytes) (s - block_footprint bytes) (omap_erase off (al_free a))
          else omap_erase off (al_free a))"
    "a' = (link off \<lparr>ar_offset = off, ar_rounded = block_footprint bytes, ar_requested = bytes, ar_tag = tag\<rparr> f a)
            \<lparr>al_tag_bytes := tag_add tag bytes (al_tag_bytes a), al_tag_blocks := tag_add tag 1 (al_tag_blocks a)\<rparr>"
proof -
  obtain off s where ff: "first_fit (block_footprint bytes) (al_free a) = Some (off, s)"
    using assms by (auto simp: allocate_def Let_def split: option.splits)
  show ?thesis
    using first_fit_Some [OF ff] assms ff by (auto simp: allocate_def Let_def link_def intro: that)
qed

lemma allocate_failure:
  "allocate a bytes tag = (Inl e, a') \<Longrightarrow>
   e = AllocationFailure \<and> a' = a \<and> (\<forall>(o', s') \<in> set (al_free a). s' < block_footprint bytes)"
  by (auto simp: allocate_def Let_def first_fit_None [symmetric] split: option.splits prod.splits)

lemma allocate_carve:
  assumes "alloc_inv a" "al_free a = lo @ (off, s) # hi" "block_footprint bytes \<le> s"
    "f = (if block_footprint bytes < s
          then omap_emplace (off + block_footprint bytes) (s - block_footprint bytes) (omap_erase off (al_free a))
          else omap_erase off (al_free a))"
  shows "free_ok f \<and> cov p f + cov p [(off, block_footprint bytes)] = cov p (al_free a)
      \<and> aligned_span (off, block_footprint bytes)"
proof -
  have ok: "free_ok (al_free a)" using assms(1) by (simp add: alloc_inv_def arena_ok_def)
  then have "aligned_span (off, block_footprint bytes)"
    using assms(2) block_footprint_aligned [of bytes] by (simp add: free_ok_def aligned_span_def)
  then show ?thesis
    using carve [OF assms(2) ok conjunct1 [OF block_footprint_aligned] assms(3)
        conjunct2 [OF block_footprint_aligned] assms(4)] by simp
qed

lemma allocate_inv:
  assumes inv: "alloc_inv a" and bytes: "unat bytes \<le> 2 ^ 64 - 64"
  shows "alloc_inv (snd (allocate a bytes tag))"
proof (cases "allocate a bytes tag")
  case (Pair r a')
  show ?thesis
  proof (cases r)
    case (Inl e)
    then show ?thesis using allocate_failure Pair inv by fastforce
  next
    case (Inr b)
    then obtain lo off s hi f where r:
      "al_free a = lo @ (off, s) # hi" "block_footprint bytes \<le> s"
      and f: "f = (if block_footprint bytes < s
          then omap_emplace (off + block_footprint bytes) (s - block_footprint bytes) (omap_erase off (al_free a))
          else omap_erase off (al_free a))"
      and a': "a' = (link off \<lparr>ar_offset = off, ar_rounded = block_footprint bytes, ar_requested = bytes, ar_tag = tag\<rparr> f a)
            \<lparr>al_tag_bytes := tag_add tag bytes (al_tag_bytes a), al_tag_blocks := tag_add tag 1 (al_tag_blocks a)\<rparr>"
      using allocate_success [of a bytes tag b a'] Pair by metis
    let ?l = "link off \<lparr>ar_offset = off, ar_rounded = block_footprint bytes, ar_requested = bytes, ar_tag = tag\<rparr> f a"
    have ok: "arena_ok ?l"
      using allocate_carve [OF inv r f] inv block_footprint_covers [OF bytes]
      by (intro link_ok) (auto simp: alloc_inv_def)
    have small: "requested_sum (al_live ?l) < 2 ^ 64" "length (al_live ?l) < 2 ^ 64"
      using ok unsigned_less [of "al_total ?l", where 'a = nat] unsigned_less [of "al_blocks ?l", where 'a = nat]
      unfolding arena_ok_def by simp_all
    have tags: "unat (tag_count t (al_tag_bytes a)) = requested_sum (tag_live t a)"
      "unat (tag_count t (al_tag_blocks a)) = length (tag_live t a)" for t
      using inv by (simp_all add: alloc_inv_def tags_ok_def)
    have le: "requested_sum (tag_live t a) \<le> requested_sum (al_live a)" "length (tag_live t a) \<le> length (al_live a)" for t
      by (simp_all add: tag_live_def requested_sum_filter)
    have "tags_ok a'"
      unfolding tags_ok_def
    proof (intro conjI allI)
      fix t
      show "unat (tag_count t (al_tag_bytes a')) = requested_sum (tag_live t a')"
        using tags(1) [of t] le(1) [of t] small(1) by (simp add: a' tag_count_add tag_live_def unat_word_ariths)
      show "unat (tag_count t (al_tag_blocks a')) = length (tag_live t a')"
      proof -
        have "length (tag_live t a) + 1 < 2 ^ 64" using le(2) [of t] small(2) by (simp del: length_filter_le)
        then show ?thesis
          using tags(2) [of t] by (auto simp: a' tag_count_add tag_live_def unat_word_ariths)
      qed
    qed (use inv in \<open>simp_all add: a' alloc_inv_def tags_ok_def tag_add_ok\<close>)
    then show ?thesis using ok Pair by (simp add: a' alloc_inv_def)
  qed
qed

lemma release_cases:
  assumes "alloc_inv a"
  obtains (ignored) "release a b = a"
  | (released) off rec where "blk_data b = ArenaPtr off" "omap_find off (al_live a) = Some rec"
      "release a b = (unlink off rec a)
         \<lparr>al_tag_bytes := tag_sub (ar_tag rec) (ar_requested rec) (al_tag_bytes a),
          al_tag_blocks := tag_sub (ar_tag rec) 1 (al_tag_blocks a)\<rparr>"
  unfolding release_def unlink_def
  by (cases "blk_data b"; force split: option.splits if_splits)

lemma release_inv:
  assumes inv: "alloc_inv a"
  shows "alloc_inv (release a b)"
  using inv
proof (cases rule: release_cases [where b = b])
  case (released off rec)
  have ok: "arena_ok (unlink off rec a)"
    using inv released unlink_ok by (simp add: alloc_inv_def)
  have tags: "unat (tag_count t (al_tag_bytes a)) = requested_sum (tag_live t a)"
    "unat (tag_count t (al_tag_blocks a)) = length (tag_live t a)" for t
    using inv by (simp_all add: alloc_inv_def tags_ok_def)
  have om: "omap_ok (al_tag_bytes a)" "omap_ok (al_tag_blocks a)"
    using inv by (simp_all add: alloc_inv_def tags_ok_def)
  note er = live_erase(4,5) [OF released(2)]
  have le: "ar_requested rec \<le> tag_count (ar_tag rec) (al_tag_bytes a)" "1 \<le> tag_count (ar_tag rec) (al_tag_blocks a)"
    using tags [of "ar_tag rec"] er [of "ar_tag rec"] by (simp_all add: word_le_nat_alt tag_live_def)
  have "tags_ok (release a b)"
    unfolding tags_ok_def
  proof (intro conjI allI)
    fix t
    show "unat (tag_count t (al_tag_bytes (release a b))) = requested_sum (tag_live t (release a b))"
      using tags(1) [of t] er(1) [of t] le(1)
      by (cases "t = ar_tag rec") (simp_all add: released(3) tag_count_sub om tag_live_def unat_sub)
    show "unat (tag_count t (al_tag_blocks (release a b))) = length (tag_live t (release a b))"
      using tags(2) [of t] er(2) [of t] le(2)
      by (cases "t = ar_tag rec") (simp_all add: released(3) tag_count_sub om tag_live_def unat_sub)
  qed (use om in \<open>simp_all add: released(3) tag_sub_ok\<close>)
  then show ?thesis using ok by (simp add: alloc_inv_def released(3))
qed (use inv in simp)

text \<open>The loop of \<open>release_all\<close> unlinks the tag's blocks one by one.\<close>

lemma release_all_loop_unlink:
  "release_all_loop tag ((off, rec) # es) a =
     release_all_loop tag es (if ar_tag rec = tag then unlink off rec a else a)"
  by (simp add: unlink_def)

lemma release_all_loop_ok:
  assumes "arena_ok a" "distinct (map fst es)" "set es \<subseteq> set (al_live a)"
  shows "arena_ok (release_all_loop tag es a) \<and>
    al_live (release_all_loop tag es a) = filter (\<lambda>e. e \<notin> set es \<or> ar_tag (snd e) \<noteq> tag) (al_live a) \<and>
    al_tag_bytes (release_all_loop tag es a) = al_tag_bytes a \<and>
    al_tag_blocks (release_all_loop tag es a) = al_tag_blocks a \<and>
    al_mem (release_all_loop tag es a) = al_mem a \<and>
    al_capacity (release_all_loop tag es a) = al_capacity a"
  using assms
proof (induction es arbitrary: a)
  case (Cons e es)
  obtain off rec where e: "e = (off, rec)" by (cases e)
  have dist: "distinct (map fst (al_live a))" using Cons.prems by (simp add: arena_ok_def live_ok_def)
  show ?case
  proof (cases "ar_tag rec = tag")
    case True
    have found: "omap_find off (al_live a) = Some rec"
      using Cons.prems dist e by (simp add: omap_find_Some_iff)
    have er: "omap_erase off l = filter (\<lambda>x. x \<noteq> (off, rec)) l"
      if "distinct (map fst l)" "omap_find off l = Some rec" for l
      using that
    proof (induction l)
      case (Cons x l)
      show ?case
      proof (cases "fst x = off")
        case True
        then have "x = (off, rec)" using Cons.prems by (cases x) simp
        moreover have "\<forall>y \<in> set l. y \<noteq> (off, rec)" using Cons.prems \<open>x = (off, rec)\<close> by force
        ultimately show ?thesis by (simp add: filter_id_conv [THEN iffD2])
      next
        case False
        then show ?thesis using Cons by (cases x) auto
      qed
    qed simp
    have "arena_ok (unlink off rec a)" using unlink_ok [OF Cons.prems(1) found] .
    moreover have "set es \<subseteq> set (al_live (unlink off rec a))"
      using Cons.prems e dist by (auto simp: set_omap_erase)
    moreover have "filter (\<lambda>x. x \<notin> set es \<or> ar_tag (snd x) \<noteq> tag) (omap_erase off (al_live a))
        = filter (\<lambda>x. x \<notin> set (e # es) \<or> ar_tag (snd x) \<noteq> tag) (al_live a)"
      unfolding er [OF dist found] filter_filter using True e by (intro filter_cong) auto
    ultimately show ?thesis
      using Cons.IH [of "unlink off rec a"] Cons.prems(2) True
      unfolding e release_all_loop_unlink by simp
  next
    case False
    moreover have "filter (\<lambda>x. x \<notin> set es \<or> ar_tag (snd x) \<noteq> tag) (al_live a)
        = filter (\<lambda>x. x \<notin> set (e # es) \<or> ar_tag (snd x) \<noteq> tag) (al_live a)"
      using False e by (intro filter_cong) auto
    ultimately show ?thesis
      using Cons.IH [of a] Cons.prems unfolding e release_all_loop_unlink by simp
  qed
qed simp

lemma release_all_effect:
  assumes inv: "alloc_inv a"
  shows "al_live (release_all a tag) = filter (\<lambda>e. ar_tag (snd e) \<noteq> tag) (al_live a)"
    and "arena_ok (release_all a tag)" and "al_mem (release_all a tag) = al_mem a"
    and "al_capacity (release_all a tag) = al_capacity a"
    and "al_tag_bytes (release_all a tag) = omap_erase tag (al_tag_bytes a)"
    and "al_tag_blocks (release_all a tag) = omap_erase tag (al_tag_blocks a)"
proof -
  have "arena_ok a" "distinct (map fst (al_live a))"
    using inv by (auto simp: alloc_inv_def arena_ok_def live_ok_def)
  note loop = release_all_loop_ok [OF this subset_refl, of tag]
  show "al_live (release_all a tag) = filter (\<lambda>e. ar_tag (snd e) \<noteq> tag) (al_live a)"
    using loop by (simp add: release_all_def Let_def cong: filter_cong)
  show "arena_ok (release_all a tag)" "al_mem (release_all a tag) = al_mem a"
      "al_capacity (release_all a tag) = al_capacity a"
      "al_tag_bytes (release_all a tag) = omap_erase tag (al_tag_bytes a)"
      "al_tag_blocks (release_all a tag) = omap_erase tag (al_tag_blocks a)"
    using loop by (simp_all add: release_all_def Let_def)
qed

lemma release_all_inv:
  assumes inv: "alloc_inv a"
  shows "alloc_inv (release_all a tag)"
proof -
  have om: "omap_ok (al_tag_bytes a)" "omap_ok (al_tag_blocks a)"
    using inv by (simp_all add: alloc_inv_def tags_ok_def)
  have live: "tag_live t (release_all a tag) = (if t = tag then [] else tag_live t a)" for t
    unfolding tag_live_def release_all_effect(1) [OF inv] filter_filter
    by (auto simp: filter_empty_conv intro: filter_cong)
  have "tags_ok (release_all a tag)"
    using inv om
    by (simp add: alloc_inv_def tags_ok_def release_all_effect [OF inv] live tag_count_erase map_keys)
  then show ?thesis using release_all_effect(2) [OF inv] by (simp add: alloc_inv_def)
qed


section \<open>Memory\<close>

lemma length_read_vec [simp]: "length (read_vec mem off n) = n"
  by (simp add: read_vec_def)

lemma read_write_same: "read_vec (write_vec mem off v) off (length v) = v"
  by (rule nth_equalityI) (simp_all add: read_vec_def write_vec_def)

lemma read_write_disjoint:
  "off + 4 * length v \<le> off' \<or> off' + 4 * n \<le> off \<Longrightarrow>
   read_vec (write_vec mem off v) off' n = read_vec mem off' n"
  by (rule nth_equalityI) (auto simp: read_vec_def write_vec_def)

text \<open>The blocks a caller holds, and the component store they form.\<close>

definition live_block :: "nat \<times> alloc_record \<Rightarrow> block" where
  "live_block e = \<lparr>blk_data = ArenaPtr (fst e), blk_size = unat (ar_requested (snd e))\<rparr>"

definition live_blocks :: "allocator \<Rightarrow> block set" where
  "live_blocks a = live_block ` set (al_live a)"

definition put_components :: "allocator \<Rightarrow> ptr \<Rightarrow> f32 list \<Rightarrow> allocator" where
  "put_components a p v =
     (case p of ArenaPtr off \<Rightarrow> a\<lparr>al_mem := write_vec (al_mem a) off v\<rparr> | _ \<Rightarrow> a)"

definition get_components :: "allocator \<Rightarrow> ptr \<Rightarrow> nat \<Rightarrow> f32 list" where
  "get_components a p n = (case p of ArenaPtr off \<Rightarrow> read_vec (al_mem a) off n | _ \<Rightarrow> [])"

text \<open>Two live blocks never share a byte.\<close>

lemma live_disjoint:
  assumes ok: "arena_ok a" and e: "(o1, r1) \<in> set (al_live a)" "(o2, r2) \<in> set (al_live a)" "o1 \<noteq> o2"
  shows "o1 + ar_rounded r1 \<le> o2 \<or> o2 + ar_rounded r2 \<le> o1"
proof (rule ccontr)
  assume "\<not> ?thesis"
  then have ov: "o1 \<le> max o1 o2" "max o1 o2 < o1 + ar_rounded r1" "o2 \<le> max o1 o2" "max o1 o2 < o2 + ar_rounded r2"
    using ok e(1,2) by (auto simp: arena_ok_def live_ok_def aligned_span_def)
  have dist: "distinct (map fst (al_live a))" using ok by (simp add: arena_ok_def live_ok_def)
  then have f: "omap_find o1 (al_live a) = Some r1" using e(1) by (simp add: omap_find_Some_iff)
  have "(o2, r2) \<in> set (omap_erase o1 (al_live a))" using e dist by (simp add: set_omap_erase)
  then have "0 < cov (max o1 o2) (map (\<lambda>(off, rec). (off, ar_rounded rec)) (omap_erase o1 (al_live a)))"
    using ov by (intro cov_pos [of o2 "ar_rounded r2"]) (force simp: image_iff)+
  moreover have "cov (max o1 o2) [(o1, ar_rounded r1)] = 1" using ov by (simp add: cov_Cons)
  ultimately have "1 < cov (max o1 o2) (live_spans a)"
    using live_erase(1) [OF f] by (simp add: live_spans_def)
  moreover have "cov (max o1 o2) (live_spans a) \<le> 1"
  proof -
    have "cov p (al_free a) + cov p (live_spans a) \<le> 1" for p
      using ok by (simp add: arena_ok_def tiled_def)
    then show ?thesis by (rule le_trans [OF le_add2])
  qed
  ultimately show False by simp
qed

lemma release_live:
  assumes inv: "alloc_inv a" and b: "b \<in> live_blocks a"
  shows "live_blocks (release a b) = live_blocks a - {b} \<and> al_mem (release a b) = al_mem a"
proof -
  obtain off rec where e: "(off, rec) \<in> set (al_live a)" "b = live_block (off, rec)"
    using b by (auto simp: live_blocks_def)
  have dist: "distinct (map fst (al_live a))" using inv by (simp add: alloc_inv_def arena_ok_def live_ok_def)
  have r: "aligned_span (off, ar_rounded rec)" using inv e by (auto simp: alloc_inv_def arena_ok_def live_ok_def)
  have "(off, ar_rounded rec) \<in> set (live_spans a)" using e by (force simp: live_spans_def)
  then have "off + ar_rounded rec \<le> al_capacity a"
    using span_within [of a off "ar_rounded rec"] inv r by (simp add: alloc_inv_def arena_ok_def aligned_span_def)
  then have inside: "off < al_capacity a" using r by (simp add: aligned_span_def)
  have found: "omap_find off (al_live a) = Some rec" using e dist by (simp add: omap_find_Some_iff)
  have "al_live (release a b) = omap_erase off (al_live a)" "al_mem (release a b) = al_mem a"
    using inside found e by (simp_all add: release_def live_block_def)
  moreover have "live_block ` {x \<in> set (al_live a). fst x \<noteq> off} = live_blocks a - {b}"
  proof -
    have iff: "(live_block x = b) = (fst x = off)" if "x \<in> set (al_live a)" for x
    proof (cases "fst x = off")
      case True
      then have "(off, snd x) \<in> set (al_live a)" using that by (cases x) simp
      then have "snd x = rec" using eq_key_imp_eq_value [OF dist _ e(1)] by blast
      then have "x = (off, rec)" using True by (cases x) simp
      then show ?thesis using e(2) True by simp
    next
      case False
      then show ?thesis using e(2) by (simp add: live_block_def)
    qed
    have "live_block ` {x \<in> set (al_live a). fst x \<noteq> off} = live_block ` {x \<in> set (al_live a). live_block x \<noteq> b}"
      by (simp add: iff cong: conj_cong)
    also have "\<dots> = live_block ` set (al_live a) - {b}" by auto
    finally show ?thesis by (simp only: live_blocks_def)
  qed
  ultimately show ?thesis using dist by (simp add: live_blocks_def set_omap_erase)
qed

text \<open>
  What the collection relies on when it keeps vectors in allocator blocks: fresh blocks that
  disturb nothing, private component storage, and disposal that frees one block.
\<close>

locale block_store =
  fixes inv :: "'s \<Rightarrow> bool"
    and blocks :: "'s \<Rightarrow> block set"
    and acquire :: "'s \<Rightarrow> u64 \<Rightarrow> collection_tag \<Rightarrow> block result \<times> 's"
    and put :: "'s \<Rightarrow> ptr \<Rightarrow> f32 list \<Rightarrow> 's"
    and fetch :: "'s \<Rightarrow> ptr \<Rightarrow> nat \<Rightarrow> f32 list"
    and dispose :: "'s \<Rightarrow> block \<Rightarrow> 's"
  assumes acquire_ok: "inv s \<Longrightarrow> unat n \<le> 2 ^ 64 - 64 \<Longrightarrow> acquire s n t = (Inr b, s') \<Longrightarrow>
      inv s' \<and> b \<notin> blocks s \<and> blocks s' = insert b (blocks s) \<and> blk_size b = unat n
      \<and> blk_data b \<notin> blk_data ` blocks s \<and> (\<forall>p k. fetch s' p k = fetch s p k)"
    and acquire_fail: "acquire s n t = (Inl e, s') \<Longrightarrow> s' = s \<and> e = AllocationFailure"
    and put_ok: "inv s \<Longrightarrow> b \<in> blocks s \<Longrightarrow> 4 * length v \<le> blk_size b \<Longrightarrow>
      inv (put s (blk_data b) v) \<and> blocks (put s (blk_data b) v) = blocks s
      \<and> fetch (put s (blk_data b) v) (blk_data b) (length v) = v
      \<and> (\<forall>b' k. b' \<in> blocks s \<longrightarrow> b' \<noteq> b \<longrightarrow> 4 * k \<le> blk_size b' \<longrightarrow>
           fetch (put s (blk_data b) v) (blk_data b') k = fetch s (blk_data b') k)"
    and dispose_ok: "inv s \<Longrightarrow> b \<in> blocks s \<Longrightarrow>
      inv (dispose s b) \<and> blocks (dispose s b) = blocks s - {b}
      \<and> (\<forall>p k. fetch (dispose s b) p k = fetch s p k)"
begin

text \<open>Storing a vector in a fresh block: it reads back, and every older block reads as before.\<close>

lemma store_fresh:
  assumes "inv s" "unat n \<le> 2 ^ 64 - 64" "acquire s n t = (Inr b, s')" "4 * length v \<le> unat n"
  shows "inv (put s' (blk_data b) v)" and "blocks (put s' (blk_data b) v) = insert b (blocks s)"
    and "fetch (put s' (blk_data b) v) (blk_data b) (length v) = v"
    and "b' \<in> blocks s \<Longrightarrow> 4 * k \<le> blk_size b' \<Longrightarrow>
         fetch (put s' (blk_data b) v) (blk_data b') k = fetch s (blk_data b') k"
proof -
  note a = acquire_ok [OF assms(1-3)]
  have p: "inv (put s' (blk_data b) v) \<and> blocks (put s' (blk_data b) v) = blocks s'
      \<and> fetch (put s' (blk_data b) v) (blk_data b) (length v) = v
      \<and> (\<forall>b' k. b' \<in> blocks s' \<longrightarrow> b' \<noteq> b \<longrightarrow> 4 * k \<le> blk_size b' \<longrightarrow>
           fetch (put s' (blk_data b) v) (blk_data b') k = fetch s' (blk_data b') k)"
    using a assms(4) by (intro put_ok) auto
  show "inv (put s' (blk_data b) v)" "blocks (put s' (blk_data b) v) = insert b (blocks s)"
    "fetch (put s' (blk_data b) v) (blk_data b) (length v) = v"
    using p a by auto
  show "b' \<in> blocks s \<Longrightarrow> 4 * k \<le> blk_size b' \<Longrightarrow>
         fetch (put s' (blk_data b) v) (blk_data b') k = fetch s (blk_data b') k"
    using p a by (metis insertCI)
qed

end

lemma allocate_live:
  assumes inv: "alloc_inv a" and n: "unat n \<le> 2 ^ 64 - 64" and r: "allocate a n t = (Inr b, a')"
  shows "alloc_inv a' \<and> b \<notin> live_blocks a \<and> live_blocks a' = insert b (live_blocks a) \<and> blk_size b = unat n
      \<and> blk_data b \<notin> blk_data ` live_blocks a \<and> al_mem a' = al_mem a"
proof -
  obtain off f where b: "b = \<lparr>blk_data = ArenaPtr off, blk_size = unat n\<rparr>"
    and a': "a' = (link off \<lparr>ar_offset = off, ar_rounded = block_footprint n, ar_requested = n, ar_tag = t\<rparr> f a)
            \<lparr>al_tag_bytes := tag_add t n (al_tag_bytes a), al_tag_blocks := tag_add t 1 (al_tag_blocks a)\<rparr>"
    using allocate_success [OF r] by metis
  have inv': "alloc_inv a'" using allocate_inv [OF inv n, of t] r by simp
  then have "off \<notin> fst ` set (al_live a)"
    by (simp add: a' alloc_inv_def arena_ok_def live_ok_def)
  then have "blk_data b \<notin> blk_data ` live_blocks a"
    by (force simp: b live_blocks_def live_block_def)
  moreover have "live_blocks a' = insert b (live_blocks a)"
    by (simp add: a' b live_blocks_def live_block_def)
  moreover have "al_mem a' = al_mem a" by (simp add: a' link_def)
  ultimately show ?thesis using inv' b by (metis block.select_convs(2) imageI)
qed

lemma put_components_ok:
  assumes inv: "alloc_inv a" and b: "b \<in> live_blocks a" and v: "4 * length v \<le> blk_size b"
  shows "alloc_inv (put_components a (blk_data b) v) \<and>
      live_blocks (put_components a (blk_data b) v) = live_blocks a
      \<and> get_components (put_components a (blk_data b) v) (blk_data b) (length v) = v
      \<and> (\<forall>b' k. b' \<in> live_blocks a \<longrightarrow> b' \<noteq> b \<longrightarrow> 4 * k \<le> blk_size b' \<longrightarrow>
           get_components (put_components a (blk_data b) v) (blk_data b') k = get_components a (blk_data b') k)"
proof -
  obtain off rec where e: "(off, rec) \<in> set (al_live a)" "b = live_block (off, rec)"
    using b by (auto simp: live_blocks_def)
  have fits: "unat (ar_requested r) \<le> ar_rounded r" if "(o', r) \<in> set (al_live a)" for o' r
    using inv that by (auto simp: alloc_inv_def arena_ok_def live_ok_def)
  have "get_components (put_components a (blk_data b) v) (blk_data b') k = get_components a (blk_data b') k"
    if b': "b' \<in> live_blocks a" "b' \<noteq> b" and k: "4 * k \<le> blk_size b'" for b' k
  proof -
    obtain off' rec' where e': "(off', rec') \<in> set (al_live a)" "b' = live_block (off', rec')"
      using b' by (auto simp: live_blocks_def)
    have "distinct (map fst (al_live a))" using inv by (simp add: alloc_inv_def arena_ok_def live_ok_def)
    then have "off' \<noteq> off" using b'(2) e e' by (metis eq_key_imp_eq_value)
    then have "off' + ar_rounded rec' \<le> off \<or> off + ar_rounded rec \<le> off'"
      using inv e e' by (auto dest: live_disjoint simp: alloc_inv_def)
    then show ?thesis
      using fits [OF e(1)] fits [OF e'(1)] v k e(2) e'(2)
      by (simp add: put_components_def get_components_def live_block_def)
        (rule read_write_disjoint, linarith)
  qed
  then show ?thesis
    using inv e(2) by (simp add: put_components_def get_components_def live_block_def
        read_write_same live_blocks_def)
qed

lemma get_components_mem: "al_mem a = al_mem b \<Longrightarrow> get_components a p k = get_components b p k"
  by (simp add: get_components_def split: ptr.split)

interpretation arena: block_store alloc_inv live_blocks allocate put_components get_components release
proof (unfold_locales, goal_cases)
  case (1 s n t b s')
  then show ?case using allocate_live get_components_mem by metis
next
  case 2
  then show ?case using allocate_failure by blast
next
  case 3
  then show ?case by (rule put_components_ok)
next
  case 4
  then show ?case using release_live release_inv get_components_mem by metis
qed



section \<open>Properties\<close>

text \<open>The allocators a program can reach from a new arena by requests below the wrap-around bound.\<close>

inductive alloc_reach :: "u64 \<Rightarrow> allocator \<Rightarrow> bool" for cap :: u64 where
  fresh: "alloc_reach cap (new_allocator cap)"
| allocated: "alloc_reach cap a \<Longrightarrow> unat bytes \<le> 2 ^ 64 - 64 \<Longrightarrow> alloc_reach cap (snd (allocate a bytes tag))"
| released: "alloc_reach cap a \<Longrightarrow> alloc_reach cap (release a b)"
| all_released: "alloc_reach cap a \<Longrightarrow> alloc_reach cap (release_all a tag)"
| written: "alloc_reach cap a \<Longrightarrow> alloc_reach cap (a\<lparr>al_mem := mem\<rparr>)"

text \<open>
  C4: in every reachable state of the allocator the free list is sorted, aligned and fully
  coalesced, live blocks and free spans partition the arena, no counter has wrapped: the total is
  the sum of the requested sizes, per tag and overall, and free bytes plus block footprints make
  up the capacity.
\<close>

theorem allocator_reachable_invariant:
  assumes "alloc_reach cap a"
  shows "alloc_inv a \<and> (\<Sum>(_, s)\<leftarrow>al_free a. s) + rounded_sum (al_live a) = al_capacity a"
proof -
  have "alloc_inv a"
    using assms by induction (simp_all add: alloc_inv_new allocate_inv release_inv release_all_inv)
  then show ?thesis using conservation_parts [of a] by (simp add: alloc_inv_def arena_ok_def)
qed

theorem allocator_reachable_invariant_witness:
  "let a = snd (allocate (new_allocator 256) 100 (CollectionTag 7))
   in alloc_inv a \<and> (\<Sum>(_, s)\<leftarrow>al_free a. s) + rounded_sum (al_live a) = 256"
proof -
  let ?a = "snd (allocate (new_allocator 256) 100 (CollectionTag 7))"
  have "alloc_reach 256 ?a" by (intro alloc_reach.intros) simp
  note inv = allocator_reachable_invariant [OF this]
  have "al_capacity ?a = 256" by code_simp
  with inv show ?thesis by (simp only: Let_def)
qed

text \<open>
  C21: an allocation takes the lowest-addressed free span that is large enough.  It fails, and
  then changes nothing, exactly when no span is; on success the block is 64-byte aligned, lies
  in the arena, holds the requested bytes, shares no byte with a live block, and the component
  memory is untouched.
\<close>

theorem allocate_first_fit:
  assumes "alloc_inv a" "unat bytes \<le> 2 ^ 64 - 64"
  shows "case allocate a bytes tag of
      (Inl e, a') \<Rightarrow> e = AllocationFailure \<and> a' = a \<and> (\<forall>(o', s') \<in> set (al_free a). s' < block_footprint bytes)
    | (Inr b, a') \<Rightarrow> \<exists>off s. b = \<lparr>blk_data = ArenaPtr off, blk_size = unat bytes\<rparr>
        \<and> (off, s) \<in> set (al_free a) \<and> block_footprint bytes \<le> s
        \<and> (\<forall>(o', s') \<in> set (al_free a). block_footprint bytes \<le> s' \<longrightarrow> off \<le> o')
        \<and> off mod 64 = 0 \<and> unat bytes \<le> block_footprint bytes \<and> off + block_footprint bytes \<le> al_capacity a
        \<and> (\<forall>(o', rec) \<in> set (al_live a). o' + ar_rounded rec \<le> off \<or> off + block_footprint bytes \<le> o')
        \<and> live_blocks a' = insert b (live_blocks a) \<and> al_mem a' = al_mem a"
proof (cases "allocate a bytes tag")
  case (Pair r a')
  show ?thesis
  proof (cases r)
    case (Inl e)
    then show ?thesis using allocate_failure [of a bytes tag e a'] Pair by simp
  next
    case (Inr b)
    obtain lo off s hi f where fr: "al_free a = lo @ (off, s) # hi" and s: "block_footprint bytes \<le> s"
      and lo: "\<forall>(o', s') \<in> set lo. s' < block_footprint bytes"
      and b: "b = \<lparr>blk_data = ArenaPtr off, blk_size = unat bytes\<rparr>"
      and a': "a' = (link off \<lparr>ar_offset = off, ar_rounded = block_footprint bytes, ar_requested = bytes, ar_tag = tag\<rparr> f a)
            \<lparr>al_tag_bytes := tag_add tag bytes (al_tag_bytes a), al_tag_blocks := tag_add tag 1 (al_tag_blocks a)\<rparr>"
      using allocate_success [of a bytes tag b a'] Pair Inr by metis
    have live: "alloc_inv a' \<and> live_blocks a' = insert b (live_blocks a) \<and> al_mem a' = al_mem a"
      using allocate_live [OF assms] Pair Inr by blast
    have ok: "free_ok (al_free a)" "tiled a" using assms(1) by (simp_all add: alloc_inv_def arena_ok_def)
    then have al: "aligned_span (off, s)" using fr by (simp add: free_ok_def)
    have first: "\<forall>(o', s') \<in> set (al_free a). block_footprint bytes \<le> s' \<longrightarrow> off \<le> o'"
      using ok lo unfolding fr free_ok_def by (fastforce simp: sorted_wrt_append gap_def)
    have within: "off + block_footprint bytes \<le> al_capacity a"
      using span_within [OF ok(2), of off s] fr al s by (simp add: aligned_span_def)
    have "off \<notin> fst ` set (al_live a)"
      using live by (simp add: a' alloc_inv_def arena_ok_def live_ok_def)
    then have "\<forall>(o', rec) \<in> set (al_live a). o' + ar_rounded rec \<le> off \<or> off + block_footprint bytes \<le> o'"
      using live_disjoint [of a' off] live by (force simp: a' alloc_inv_def)
    then show ?thesis
      using Pair Inr b fr s first within live al block_footprint_covers [OF assms(2)]
      by (auto simp: aligned_span_def kAlignment_def)
  qed
qed

theorem allocate_first_fit_witness:
  "\<exists>off. fst (allocate (new_allocator 256) 100 (CollectionTag 7)) = Inr \<lparr>blk_data = ArenaPtr off, blk_size = 100\<rparr>
     \<and> off mod 64 = 0 \<and> off + block_footprint 100 \<le> 256"
proof -
  have "is_ok (fst (allocate (new_allocator 256) 100 (CollectionTag 7)))" by code_simp
  moreover have "al_capacity (new_allocator 256) = 256" by code_simp
  ultimately show ?thesis
    using allocate_first_fit [OF alloc_inv_new [of 256], of 100 "CollectionTag 7"]
    by (cases "allocate (new_allocator 256) 100 (CollectionTag 7)") (auto split: sum.splits)
qed



text \<open>
  Releasing the block just allocated restores the allocator: free list, live table, totals
  and every tag's statistics are what they were.
\<close>

theorem release_undoes_allocate:
  assumes inv: "alloc_inv a" and n: "unat bytes \<le> 2 ^ 64 - 64" and r: "allocate a bytes tag = (Inr b, a')"
  shows "al_free (release a' b) = al_free a \<and> al_live (release a' b) = al_live a
      \<and> stats (release a' b) = stats a \<and> (\<forall>t. stats_of_tag (release a' b) t = stats_of_tag a t)"
proof -
  have live': "alloc_inv a'" "b \<in> live_blocks a'" using allocate_live [OF inv n r] by auto
  obtain off f where b: "b = \<lparr>blk_data = ArenaPtr off, blk_size = unat bytes\<rparr>"
    and a': "a' = (link off \<lparr>ar_offset = off, ar_rounded = block_footprint bytes, ar_requested = bytes, ar_tag = tag\<rparr> f a)
            \<lparr>al_tag_bytes := tag_add tag bytes (al_tag_bytes a), al_tag_blocks := tag_add tag 1 (al_tag_blocks a)\<rparr>"
    using allocate_success [OF r] by metis
  have "(off, block_footprint bytes) \<in> set (live_spans a')" by (simp add: live_spans_def a')
  then have "off < al_capacity a'"
    using span_within [of a' off "block_footprint bytes"] live'(1) block_footprint_aligned [of bytes]
    by (simp add: alloc_inv_def arena_ok_def)
  then have rel: "al_live (release a' b) = al_live a" "al_capacity (release a' b) = al_capacity a"
    "al_total (release a' b) = al_total a" "al_blocks (release a' b) = al_blocks a"
    by (simp_all add: release_def b a')
  have inv': "alloc_inv (release a' b)" using release_inv live'(1) by blast
  have "al_free (release a' b) = al_free a"
  proof (rule free_canonical)
    show "free_ok (al_free (release a' b))" "free_ok (al_free a)"
      using inv inv' by (simp_all add: alloc_inv_def arena_ok_def)
    fix p
    have "cov p (al_free (release a' b)) + cov p (live_spans a) = cov p (al_free a) + cov p (live_spans a)"
      using inv inv' rel live_spans_cong [OF rel(1)]
      by (simp add: alloc_inv_def arena_ok_def tiled_def)
    then show "cov p (al_free (release a' b)) = cov p (al_free a)" by simp
  qed
  moreover have "tag_count t (al_tag_bytes (release a' b)) = tag_count t (al_tag_bytes a)
      \<and> tag_count t (al_tag_blocks (release a' b)) = tag_count t (al_tag_blocks a)" for t
    using inv inv' rel(1) unfolding alloc_inv_def tags_ok_def tag_live_def
    by (metis unsigned_word_eqI)
  ultimately show ?thesis using rel by (simp add: stats_def stats_of_tag_count)
qed

theorem release_undoes_allocate_witness:
  "let a = snd (allocate (new_allocator 256) 100 (CollectionTag 7)); (r, a') = allocate a 10 (CollectionTag 8)
   in case r of Inl _ \<Rightarrow> False
      | Inr b \<Rightarrow> al_free (release a' b) = al_free a \<and> stats (release a' b) = stats a"
proof -
  let ?a = "snd (allocate (new_allocator 256) 100 (CollectionTag 7))"
  have inv: "alloc_inv ?a" by (intro allocate_inv alloc_inv_new) simp
  have "\<not> isl (fst (allocate ?a 10 (CollectionTag 8)))" by code_simp
  then obtain b a' where r: "allocate ?a 10 (CollectionTag 8) = (Inr b, a')"
    by (cases "allocate ?a 10 (CollectionTag 8)"; cases "fst (allocate ?a 10 (CollectionTag 8))") auto
  show ?thesis using release_undoes_allocate [OF inv _ r] r by (simp add: Let_def)
qed

text \<open>
  C23: \<open>release_all\<close> frees exactly the blocks of one tag: its statistics drop to zero, the other
  tags' statistics, blocks and the component memory are unchanged, and the totals lose what the
  tag held.
\<close>

theorem release_all_exact:
  assumes inv: "alloc_inv a"
  shows "stats_of_tag (release_all a tag) tag = \<lparr>st_total_bytes = 0, st_live_blocks = 0\<rparr>
      \<and> (\<forall>t. t \<noteq> tag \<longrightarrow> stats_of_tag (release_all a tag) t = stats_of_tag a t)
      \<and> live_blocks (release_all a tag) = live_block ` {e \<in> set (al_live a). ar_tag (snd e) \<noteq> tag}
      \<and> al_mem (release_all a tag) = al_mem a
      \<and> unat (st_live_blocks (stats (release_all a tag))) + unat (st_live_blocks (stats_of_tag a tag))
          = unat (st_live_blocks (stats a))"
proof -
  have om: "omap_ok (al_tag_bytes a)" "omap_ok (al_tag_blocks a)"
    and tags: "unat (tag_count tag (al_tag_blocks a)) = length (tag_live tag a)"
    using inv by (simp_all add: alloc_inv_def tags_ok_def)
  note eff = release_all_effect [OF inv, of tag]
  have "unat (al_blocks (release_all a tag)) = length (filter (\<lambda>e. ar_tag (snd e) \<noteq> tag) (al_live a))"
    using eff(1,2) by (simp add: arena_ok_def)
  moreover have "unat (al_blocks a) = length (al_live a)"
    using inv by (simp add: alloc_inv_def arena_ok_def)
  moreover have "length (filter (\<lambda>e. ar_tag (snd e) \<noteq> tag) l) + length (filter (\<lambda>(_, rec). ar_tag rec = tag) l)
      = length l" for l :: "(nat \<times> alloc_record) list"
    by (induction l) auto
  ultimately have "unat (al_blocks (release_all a tag)) + length (tag_live tag a) = unat (al_blocks a)"
    by (simp add: tag_live_def)
  then show ?thesis
    using tags om eff by (simp add: stats_def stats_of_tag_count tag_count_erase live_blocks_def)
qed

theorem release_all_exact_witness:
  "let a = snd (allocate (snd (allocate (new_allocator 256) 100 (CollectionTag 7))) 10 (CollectionTag 8))
   in stats_of_tag (release_all a (CollectionTag 7)) (CollectionTag 7) = \<lparr>st_total_bytes = 0, st_live_blocks = 0\<rparr>
     \<and> stats_of_tag (release_all a (CollectionTag 7)) (CollectionTag 8) = stats_of_tag a (CollectionTag 8)"
proof -
  let ?a = "snd (allocate (snd (allocate (new_allocator 256) 100 (CollectionTag 7))) 10 (CollectionTag 8))"
  have "alloc_inv ?a" by (intro allocate_inv alloc_inv_new) simp_all
  from release_all_exact [OF this, of "CollectionTag 7"] show ?thesis by (simp add: Let_def)
qed

text \<open>
  Rounding a request up to the alignment wraps within 64 bytes of the largest \<open>std::size_t\<close>:
  every such request rounds to zero bytes, and an arena of one 64-byte span then grants it, as a
  block that claims the requested size.
\<close>

theorem allocate_wraps_near_max:
  assumes "2 ^ 64 - 64 < unat bytes"
  shows "round_up bytes = 0 \<and>
    fst (allocate (new_allocator 64) bytes tag) = Inr \<lparr>blk_data = ArenaPtr 0, blk_size = unat bytes\<rparr>"
proof -
  have "unat bytes < 2 ^ 64" using unsigned_less [of bytes, where 'a = nat] by simp
  then have "(unat bytes + 63) mod 2 ^ 64 < 64" using assms by (simp add: le_mod_geq)
  then have "unat (bytes + 63) < 64" by (simp add: unat_word_ariths)
  then have "unat (round_up bytes) = 0" by (simp add: round_up_unat)
  then have "round_up bytes = 0" by (simp add: unat_eq_0)
  moreover have "al_free (new_allocator 64) = [(0, 64)]" by code_simp
  ultimately show ?thesis
    by (simp add: allocate_def block_footprint_def kAlignment_def first_fit_def)
qed

theorem allocate_wraps_near_max_witness:
  "fst (allocate (new_allocator 64) 18446744073709551615 (CollectionTag 7))
     = Inr \<lparr>blk_data = ArenaPtr 0, blk_size = 18446744073709551615\<rparr>"
  using allocate_wraps_near_max [of 18446744073709551615 "CollectionTag 7"] by simp

end
