(* ===== verification/Tagged_Store.thy ===== *)
theory Tagged_Store
  imports Allocator
begin

text \<open>
  The allocator as several owners share it: the blocks held under each tag, and what every
  operation does to them.  A collection owns one tag; the engine frees a collection by its tag.
\<close>

definition held_blocks :: "allocator \<Rightarrow> collection_tag \<Rightarrow> block set" where
  "held_blocks a t = live_block ` set (tag_live t a)"

lemma held_live: "held_blocks a t \<subseteq> live_blocks a"
  by (auto simp: held_blocks_def live_blocks_def tag_live_def)

lemma live_keys:
  assumes "alloc_inv a" "x \<in> set (al_live a)" "y \<in> set (al_live a)" "blk_data (live_block x) = blk_data (live_block y)"
  shows "x = y"
proof -
  have "distinct (map fst (al_live a))" using assms(1) by (simp add: alloc_inv_def arena_ok_def live_ok_def)
  moreover have "fst x = fst y" using assms(4) by (simp add: live_block_def)
  ultimately show ?thesis using assms(2,3) by (metis eq_key_imp_eq_value prod.collapse)
qed

lemma live_data_inj: "alloc_inv a \<Longrightarrow> inj_on blk_data (live_blocks a)"
  unfolding inj_on_def live_blocks_def using live_keys by blast

lemma held_disjoint: "alloc_inv a \<Longrightarrow> t \<noteq> t' \<Longrightarrow> blk_data ` held_blocks a t \<inter> blk_data ` held_blocks a t' = {}"
proof -
  assume inv: "alloc_inv a" and t: "t \<noteq> t'"
  have False if x: "x \<in> set (tag_live t a)" and y: "y \<in> set (tag_live t' a)"
    and eq: "blk_data (live_block x) = blk_data (live_block y)" for x y
  proof -
    have "x = y" using live_keys [OF inv _ _ eq] x y by (auto simp: tag_live_def)
    then show False using x y t by (auto simp: tag_live_def)
  qed
  then show ?thesis by (auto simp: held_blocks_def)
qed

lemma allocate_held:
  assumes "allocate a n t = (Inr b, a')"
  shows "held_blocks a' t' = (if t' = t then insert b (held_blocks a t) else held_blocks a t')"
proof -
  obtain off f where b: "b = \<lparr>blk_data = ArenaPtr off, blk_size = unat n\<rparr>"
    and a': "a' = (link off \<lparr>ar_offset = off, ar_rounded = block_footprint n, ar_requested = n, ar_tag = t\<rparr> f a)
            \<lparr>al_tag_bytes := tag_add t n (al_tag_bytes a), al_tag_blocks := tag_add t 1 (al_tag_blocks a)\<rparr>"
    using allocate_success [OF assms] by metis
  show ?thesis by (simp add: held_blocks_def tag_live_def a' b live_block_def)
qed

lemma put_held: "held_blocks (put_components a p v) t = held_blocks a t"
  by (simp add: held_blocks_def tag_live_def put_components_def split: ptr.split)

lemma release_held:
  assumes inv: "alloc_inv a" and b: "b \<in> live_blocks a"
  shows "held_blocks (release a b) t = held_blocks a t - {b}"
proof -
  obtain off rec where e: "(off, rec) \<in> set (al_live a)" "b = live_block (off, rec)"
    using b by (auto simp: live_blocks_def)
  have dist: "distinct (map fst (al_live a))" using inv by (simp add: alloc_inv_def arena_ok_def live_ok_def)
  have sub: "live_blocks (release a b) = live_blocks a - {b}" using release_live [OF inv b] by simp
  have "al_live (release a b) = al_live a \<or> al_live (release a b) = omap_erase off (al_live a)"
    using e by (auto simp: release_def live_block_def split: option.split)
  moreover have "al_live (release a b) \<noteq> al_live a" using sub b by (auto simp: live_blocks_def)
  ultimately have "set (al_live (release a b)) = {x \<in> set (al_live a). fst x \<noteq> off}"
    using dist by (auto simp: set_omap_erase)
  moreover have "(fst x \<noteq> off) = (live_block x \<noteq> b)" if "x \<in> set (al_live a)" for x
  proof -
    have "x = (off, rec)" if "fst x = off"
      using live_keys [OF inv \<open>x \<in> set (al_live a)\<close> e(1)] that by (simp add: live_block_def)
    moreover have "fst x = off" if "live_block x = b" using that e(2) by (simp add: live_block_def)
    ultimately show ?thesis unfolding e(2) by metis
  qed
  ultimately have "set (tag_live t (release a b)) = {x \<in> set (tag_live t a). live_block x \<noteq> b}"
    by (auto simp: tag_live_def)
  then show ?thesis by (auto simp: held_blocks_def)
qed

lemma release_all_held:
  "alloc_inv a \<Longrightarrow> held_blocks (release_all a t) t' = (if t' = t then {} else held_blocks a t')"
  by (auto simp: held_blocks_def tag_live_def release_all_effect(1))

lemma release_foreign: "\<forall>off. blk_data b \<noteq> ArenaPtr off \<Longrightarrow> release a b = a"
  by (simp add: release_def split: ptr.split)

locale tagged_store = block_store +
  fixes held :: "'a \<Rightarrow> collection_tag \<Rightarrow> block set"
    and dispose_all :: "'a \<Rightarrow> collection_tag \<Rightarrow> 'a"
  assumes held_blocks_sub: "held s t \<subseteq> blocks s"
    and data_inj: "inv s \<Longrightarrow> inj_on blk_data (blocks s)"
    and held_apart: "inv s \<Longrightarrow> t \<noteq> t' \<Longrightarrow> blk_data ` held s t \<inter> blk_data ` held s t' = {}"
    and acquire_held: "acquire s n t = (Inr b, s') \<Longrightarrow>
      held s' t' = (if t' = t then insert b (held s t) else held s t')"
    and put_held: "held (put s p v) t = held s t"
    and dispose_held: "inv s \<Longrightarrow> b \<in> blocks s \<Longrightarrow> held (dispose s b) t = held s t - {b}"
    and dispose_all_ok: "inv s \<Longrightarrow> inv (dispose_all s t)
      \<and> held (dispose_all s t) t' = (if t' = t then {} else held s t') \<and> (\<forall>p k. fetch (dispose_all s t) p k = fetch s p k)"
begin

text \<open>A vector stored in a fresh block of one tag: the tag gains the block, nothing else changes.\<close>

lemma store_tagged:
  assumes "inv s" "unat n \<le> 2 ^ 64 - 64" "acquire s n t = (Inr b, s')" "4 * length v \<le> unat n"
  defines "s'' \<equiv> put s' (blk_data b) v"
  shows "inv s''" and "held s'' t' = (if t' = t then insert b (held s t) else held s t')"
    and "fetch s'' (blk_data b) (length v) = v" and "blk_data b \<notin> blk_data ` held s t'" and "blk_size b = unat n"
    and "b' \<in> held s t' \<Longrightarrow> 4 * k \<le> blk_size b' \<Longrightarrow> fetch s'' (blk_data b') k = fetch s (blk_data b') k"
proof -
  note f = store_fresh [OF assms(1-4)] and a = acquire_ok [OF assms(1-3)]
  show "inv s''" "fetch s'' (blk_data b) (length v) = v" unfolding s''_def by (rule f(1), rule f(3))
  show "held s'' t' = (if t' = t then insert b (held s t) else held s t')"
    unfolding s''_def put_held by (rule acquire_held [OF assms(3)])
  show "blk_data b \<notin> blk_data ` held s t'" "blk_size b = unat n" using a held_blocks_sub by blast+
  show "b' \<in> held s t' \<Longrightarrow> 4 * k \<le> blk_size b' \<Longrightarrow> fetch s'' (blk_data b') k = fetch s (blk_data b') k"
    unfolding s''_def using f(4) held_blocks_sub by blast
qed

lemma dispose_tagged:
  assumes "inv s" "b \<in> held s t"
  shows "inv (dispose s b)" and "held (dispose s b) t' = (if t' = t then held s t - {b} else held s t')"
    and "fetch (dispose s b) p k = fetch s p k"
proof -
  have b: "b \<in> blocks s" using assms(2) held_blocks_sub by blast
  show "inv (dispose s b)" "fetch (dispose s b) p k = fetch s p k" using dispose_ok [OF assms(1) b] by blast+
  have "b \<notin> held s t'" if "t' \<noteq> t" using held_apart [OF assms(1) that] assms(2) by blast
  then show "held (dispose s b) t' = (if t' = t then held s t - {b} else held s t')"
    using dispose_held [OF assms(1) b, of t'] by auto
qed

end

interpretation tagged: tagged_store alloc_inv live_blocks allocate put_components get_components release
  held_blocks release_all
proof (unfold_locales, goal_cases)
  case 1
  show ?case by (rule held_live)
next
  case 2
  then show ?case by (rule live_data_inj)
next
  case 3
  then show ?case by (rule held_disjoint)
next
  case 4
  then show ?case by (rule allocate_held)
next
  case 5
  show ?case by (rule put_held)
next
  case 6
  then show ?case by (rule release_held)
next
  case (7 s t t')
  then show ?case using release_all_inv release_all_held release_all_effect(3) get_components_mem by blast
qed

end
