(* ===== verification/Collection.thy ===== *)
theory Collection
  imports Index Tagged_Store
begin

text \<open>
  \<open>collection.hpp\<close> and \<open>collection.cpp\<close>: a collection over the shared allocator.  The operations
  take the collection and the allocator and return both; \<open>None\<close> is undefined behaviour (a null or
  dangling component pointer, or one inside an index or a sort), which the invariant rules out.
  The readers-writer lock makes each operation atomic.  Components are read through the block's
  pointer: from the arena, or, in a collection loaded from a snapshot, from the mapped file.
\<close>

section \<open>State\<close>

record collection =
  co_config :: collection_config
  co_tag :: collection_tag
  co_records :: "(record_id, record_slot) omap"
  co_record_count :: u64
  co_index :: "any_index option"
  co_index_type :: index_type
  co_mapped :: "u8 list option"

definition new_collection :: "collection_config \<Rightarrow> collection_tag \<Rightarrow> collection" where
  "new_collection config tag =
     \<lparr>co_config = config, co_tag = tag, co_records = [], co_record_count = 0, co_index = None,
      co_index_type = NoIndex, co_mapped = None\<rparr>"

abbreviation co_dim :: "collection \<Rightarrow> nat" where
  "co_dim c \<equiv> unat (cfg_dim (co_config c))"

definition coll_count :: "collection \<Rightarrow> u64" where "coll_count c = co_record_count c"

definition coll_info :: "collection \<Rightarrow> collection_info" where
  "coll_info c =
     \<lparr>info_name = cfg_name (co_config c), info_dim = cfg_dim (co_config c),
      info_metric = cfg_metric (co_config c), info_count = co_record_count c\<rparr>"

definition coll_index_type :: "collection \<Rightarrow> index_type" where "coll_index_type c = co_index_type c"


section \<open>Components\<close>

text \<open>\<open>n\<close> little-endian floats of a mapped file.\<close>

definition mapped_floats :: "u8 list \<Rightarrow> nat \<Rightarrow> nat \<Rightarrow> f32 list option" where
  "mapped_floats bs off n =
     (if off + 4 * n \<le> length bs
      then Some (map (\<lambda>i. from_le32 (\<lambda>j. bs ! (off + 4 * i + j))) [0..<n]) else undefined_behaviour)"

definition slot_components :: "collection \<Rightarrow> allocator \<Rightarrow> record_slot \<Rightarrow> f32 list option" where
  "slot_components c a slot =
     (case blk_data (vector_block slot) of
        NullPtr \<Rightarrow> undefined_behaviour
      | ArenaPtr off \<Rightarrow> Some (get_components a (ArenaPtr off) (co_dim c))
      | MapPtr off \<Rightarrow>
          (case co_mapped c of None \<Rightarrow> undefined_behaviour | Some bs \<Rightarrow> mapped_floats bs off (co_dim c)))"

definition store_components :: "allocator \<Rightarrow> block \<Rightarrow> f32 list \<Rightarrow> allocator" where
  "store_components a b vec = put_components a (blk_data b) vec"


section \<open>Validation\<close>

definition is_valid_id :: "record_id \<Rightarrow> bool" where "is_valid_id rid \<longleftrightarrow> rid \<noteq> []"

fun first_non_finite :: "f32 list \<Rightarrow> nat" where
  "first_non_finite [] = 0"
| "first_non_finite (x # xs) = (if f32_isfinite x then Suc (first_non_finite xs) else 0)"

definition check_record :: "collection \<Rightarrow> record_id \<Rightarrow> f32 list \<Rightarrow> error_category option" where
  "check_record c rid vec =
     (if \<not> is_valid_id rid then Some InvalidIdentifier
      else if length vec \<noteq> co_dim c then Some DimensionMismatch
      else if first_non_finite vec \<noteq> length vec then Some InvalidValue
      else None)"

definition kMaxBatchSize :: nat where "kMaxBatchSize = 10000"


section \<open>Insertion\<close>

definition vector_bytes :: "collection \<Rightarrow> u64" where
  "vector_bytes c = ucast (cfg_dim (co_config c)) * 4"

definition index_record :: "host \<Rightarrow> collection \<Rightarrow> record_id \<Rightarrow> f32 list \<Rightarrow> collection option" where
  "index_record h c rid vec =
     (case co_index c of
        None \<Rightarrow> Some c
      | Some ix \<Rightarrow> map_option (\<lambda>(_, ix'). c\<lparr>co_index := Some ix'\<rparr>) (index_add h ix rid vec))"

text \<open>Storing a record whose block is filled: overwrite and release the old block, or emplace.\<close>

definition commit_record ::
  "host \<Rightarrow> record_id \<Rightarrow> f32 list \<Rightarrow> metadata option \<Rightarrow> block \<Rightarrow> collection \<times> allocator \<Rightarrow> (collection \<times> allocator) option"
where
  "commit_record h rid vec meta b st =
     (case st of (c, a) \<Rightarrow>
      case omap_find rid (co_records c) of
        Some slot \<Rightarrow>
          map_option (\<lambda>c'. (c', release a (vector_block slot)))
            (index_record h
              (c\<lparr>co_records := omap_set rid (slot\<lparr>vector_block := b, slot_meta := meta\<rparr>) (co_records c)\<rparr>) rid vec)
      | None \<Rightarrow>
          map_option (\<lambda>c'. (c', a))
            (index_record h
              (c\<lparr>co_records := omap_set rid \<lparr>vector_block = b, slot_meta = meta\<rparr> (co_records c),
                 co_record_count := co_record_count c + 1\<rparr>) rid vec))"

definition coll_insert ::
  "host \<Rightarrow> collection \<Rightarrow> allocator \<Rightarrow> record_id \<Rightarrow> f32 list \<Rightarrow> metadata option \<Rightarrow> (status \<times> collection \<times> allocator) option"
where
  "coll_insert h c a rid vec meta =
     (case check_record c rid vec of
        Some e \<Rightarrow> Some (Inl e, c, a)
      | None \<Rightarrow>
          (case allocate a (vector_bytes c) (co_tag c) of
             (Inl e, a1) \<Rightarrow> Some (Inl e, c, a1)
           | (Inr b, a1) \<Rightarrow> map_option (Pair (Inr ())) (commit_record h rid vec meta b (c, store_components a1 b vec))))"

text \<open>The error of the first invalid record of a batch.\<close>

fun first_error :: "collection \<Rightarrow> record_input list \<Rightarrow> error_category option" where
  "first_error c [] = None"
| "first_error c (r # rs) =
     (case check_record c (in_id r) (in_vector r) of Some e \<Rightarrow> Some e | None \<Rightarrow> first_error c rs)"

text \<open>Phase 2: one filled block per record, or everything released again.\<close>

fun stage_blocks :: "collection \<Rightarrow> record_input list \<Rightarrow> allocator \<Rightarrow> block list \<Rightarrow> block list result \<times> allocator" where
  "stage_blocks c [] a staged = (Inr staged, a)"
| "stage_blocks c (r # rs) a staged =
     (case allocate a (vector_bytes c) (co_tag c) of
        (Inl e, a1) \<Rightarrow> (Inl e, foldl release a1 staged)
      | (Inr b, a1) \<Rightarrow> stage_blocks c rs (store_components a1 b (in_vector r)) (staged @ [b]))"

definition coll_insert_batch ::
  "host \<Rightarrow> collection \<Rightarrow> allocator \<Rightarrow> record_input list \<Rightarrow> (status \<times> collection \<times> allocator) option"
where
  "coll_insert_batch h c a rs =
     (if rs = [] \<or> kMaxBatchSize < length rs then Some (Inl InvalidArgument, c, a)
      else case first_error c rs of
        Some e \<Rightarrow> Some (Inl e, c, a)
      | None \<Rightarrow>
          (case stage_blocks c rs a [] of
             (Inl e, a1) \<Rightarrow> Some (Inl e, c, a1)
           | (Inr staged, a1) \<Rightarrow>
               map_option (Pair (Inr ()))
                 (ofold (\<lambda>(r, b). commit_record h (in_id r) (in_vector r) (in_meta r) b) (zip rs staged) (c, a1))))"


section \<open>Lookup and removal\<close>

definition coll_get :: "collection \<Rightarrow> allocator \<Rightarrow> record_id \<Rightarrow> record_view result option" where
  "coll_get c a rid =
     (case omap_find rid (co_records c) of
        None \<Rightarrow> Some (Inl NotFound)
      | Some slot \<Rightarrow>
          map_option (\<lambda>v. Inr \<lparr>view_vector = v, view_meta = slot_meta slot\<rparr>) (slot_components c a slot))"

definition coll_remove :: "collection \<Rightarrow> allocator \<Rightarrow> record_id \<Rightarrow> status \<times> collection \<times> allocator" where
  "coll_remove c a rid =
     (case omap_find rid (co_records c) of
        None \<Rightarrow> (Inl NotFound, c, a)
      | Some slot \<Rightarrow>
          (Inr (), c\<lparr>co_records := omap_erase rid (co_records c), co_record_count := co_record_count c - 1,
                     co_index := map_option (\<lambda>ix. snd (index_remove ix rid)) (co_index c)\<rparr>,
           release a (vector_block slot)))"


section \<open>Building an index\<close>

definition index_param_error :: "index_type \<Rightarrow> index_params \<Rightarrow> u64 \<Rightarrow> error_category option" where
  "index_param_error type params n =
     (case type of
        HNSW \<Rightarrow> if ip_m params < 2 then Some InvalidParameter
                else if ip_ef_construction params < 1 then Some InvalidParameter else None
      | IVF \<Rightarrow> if ip_nlist params \<noteq> 0 \<and> n < ucast (ip_nlist params) then Some InvalidParameter else None
      | _ \<Rightarrow> Some InvalidArgument)"

fun populate_index ::
  "host \<Rightarrow> collection \<Rightarrow> allocator \<Rightarrow> (record_id \<times> record_slot) list \<Rightarrow> any_index \<Rightarrow> any_index result option" where
  "populate_index h c a [] ix = Some (Inr ix)"
| "populate_index h c a ((rid, slot) # rs) ix =
     (case slot_components c a slot of
        None \<Rightarrow> None
      | Some v \<Rightarrow>
          (case index_add h ix rid v of
             None \<Rightarrow> None
           | Some (Inl e, _) \<Rightarrow> Some (Inl e)
           | Some (Inr _, ix') \<Rightarrow> populate_index h c a rs ix'))"

definition coll_build_index ::
  "host \<Rightarrow> collection \<Rightarrow> allocator \<Rightarrow> index_type \<Rightarrow> index_params \<Rightarrow> (status \<times> collection) option" where
  "coll_build_index h c a type params =
     (case index_param_error type params (co_record_count c) of
        Some e \<Rightarrow> Some (Inl e, c)
      | None \<Rightarrow>
          map_option (\<lambda>r. case r of
              Inl e \<Rightarrow> (Inl e, c)
            | Inr ix \<Rightarrow> (Inr (), c\<lparr>co_index := Some ix, co_index_type := type\<rparr>))
            (populate_index h c a (co_records c)
              (make_index h type (cfg_dim (co_config c)) (cfg_metric (co_config c)) params)))"


section \<open>Queries\<close>

definition exact_distance :: "host \<Rightarrow> collection \<Rightarrow> allocator \<Rightarrow> f32 list \<Rightarrow> record_slot \<Rightarrow> f32 option" where
  "exact_distance h c a q slot =
     map_option (distance_or_inf (h_calculator h) (cfg_metric (co_config c)) q) (slot_components c a slot)"

definition brute_force :: "host \<Rightarrow> collection \<Rightarrow> allocator \<Rightarrow> f32 list \<Rightarrow> neighbor list option" where
  "brute_force h c a q =
     ofold (\<lambda>(rid, slot) out. map_option (\<lambda>d. out @ [(rid, d)]) (exact_distance h c a q slot)) (co_records c) []"

text \<open>The candidates of an index, re-ranked: stale and repeated identifiers are dropped.\<close>

definition rerank :: "host \<Rightarrow> collection \<Rightarrow> allocator \<Rightarrow> f32 list \<Rightarrow> candidate list \<Rightarrow> neighbor list option" where
  "rerank h c a q cands =
     map_option snd (ofold (\<lambda>(rid, _) (seen, out).
        case omap_find rid (co_records c) of
          None \<Rightarrow> Some (seen, out)
        | Some slot \<Rightarrow>
            if rid \<in> set seen then Some (seen, out)
            else map_option (\<lambda>d. (rid # seen, out @ [(rid, d)])) (exact_distance h c a q slot)) cands ([], []))"

definition index_results ::
  "host \<Rightarrow> collection \<Rightarrow> allocator \<Rightarrow> f32 list \<Rightarrow> u32 \<Rightarrow> query_params \<Rightarrow> any_index \<Rightarrow> (neighbor list \<times> any_index) option"
where
  "index_results h c a q k params ix =
     (case index_search h ix q k params of
        None \<Rightarrow> None
      | Some (cands, ix') \<Rightarrow>
          (case rerank h c a q cands of
             None \<Rightarrow> None
           | Some rs \<Rightarrow>
               if length rs < min (unat k) (unat (co_record_count c))
               then map_option (\<lambda>rs. (rs, ix')) (brute_force h c a q) else Some (rs, ix')))"

definition query_results ::
  "host \<Rightarrow> collection \<Rightarrow> allocator \<Rightarrow> f32 list \<Rightarrow> u32 \<Rightarrow> query_params \<Rightarrow> (neighbor list \<times> collection) option" where
  "query_results h c a q k params =
     (case co_index c of
        Some ix \<Rightarrow>
          if co_index_type c \<noteq> NoIndex \<and> unat k < unat (co_record_count c)
          then map_option (\<lambda>(rs, ix'). (rs, c\<lparr>co_index := Some ix'\<rparr>)) (index_results h c a q k params ix)
          else map_option (\<lambda>rs. (rs, c)) (brute_force h c a q)
      | None \<Rightarrow> map_option (\<lambda>rs. (rs, c)) (brute_force h c a q))"

definition coll_query ::
  "host \<Rightarrow> collection \<Rightarrow> allocator \<Rightarrow> f32 list \<Rightarrow> u32 \<Rightarrow> query_params \<Rightarrow> (neighbor list result \<times> collection) option"
where
  "coll_query h c a q k params =
     (if k < 1 then Some (Inl InvalidArgument, c)
      else if length q \<noteq> co_dim c then Some (Inl DimensionMismatch, c)
      else if first_non_finite q \<noteq> length q then Some (Inl InvalidValue, c)
      else if co_record_count c = 0 then Some (Inr [], c)
      else case query_results h c a q k params of
        None \<Rightarrow> None
      | Some (rs, c') \<Rightarrow>
          map_option (\<lambda>sorted. (Inr (take (unat k) sorted), c')) (std_sort by_distance_then_id rs))"


section \<open>The view a snapshot takes\<close>

record snapshot_record =
  sr_id :: record_id
  sr_vector :: "f32 list"
  sr_meta :: "metadata option"

record snapshot_data =
  sd_config :: collection_config
  sd_index_type :: index_type
  sd_records :: "snapshot_record list"
  sd_index_blob :: "u8 list"

definition snapshot_records :: "collection \<Rightarrow> allocator \<Rightarrow> snapshot_record list option" where
  "snapshot_records c a =
     ofold (\<lambda>(rid, slot) out.
        map_option (\<lambda>v. out @ [\<lparr>sr_id = rid, sr_vector = v, sr_meta = slot_meta slot\<rparr>]) (slot_components c a slot))
       (co_records c) []"

definition coll_snapshot_data :: "collection \<Rightarrow> allocator \<Rightarrow> snapshot_data option" where
  "coll_snapshot_data c a =
     (case snapshot_records c a of
        None \<Rightarrow> None
      | Some rs \<Rightarrow>
          map_option (\<lambda>blob. \<lparr>sd_config = co_config c, sd_index_type = co_index_type c, sd_records = rs, sd_index_blob = blob\<rparr>)
            (case co_index c of
               Some ix \<Rightarrow> if co_index_type c \<noteq> NoIndex then index_serialize ix else Some []
             | None \<Rightarrow> Some []))"

end
