(* ===== verification/Snapshot.thy ===== *)
theory Snapshot
  imports Collection Crc64
begin

text \<open>
  \<open>persistence.cpp\<close> and the header of \<open>snapshot_format.hpp\<close>: encoding a collection view into the
  byte image of a snapshot, writing the image to a file system whose calls may fail, and loading a
  snapshot file.  Of \<open>load\<close>, \<open>None\<close> is undefined behaviour (a read outside the mapping), which the
  layout checks rule out.
\<close>

section \<open>The header\<close>

definition kMagic :: "u8 list" where "kMagic = string_bytes ''VVAULT01''"
definition kFormatVersion :: u32 where "kFormatVersion = 1"
definition kHeaderSize :: nat where "kHeaderSize = 76"

record header =
  hd_format_version :: u32
  hd_flags :: u32
  hd_dimensionality :: u32
  hd_metric :: u8
  hd_index_type :: u8
  hd_reserved0 :: u8
  hd_reserved1 :: u8
  hd_record_count :: u64
  hd_name_length :: u32
  hd_vector_off :: u64
  hd_vector_len :: u64
  hd_index_off :: u64
  hd_index_len :: u64
  hd_content_crc64 :: u64

definition write_header :: "header \<Rightarrow> byte_writer" where
  "write_header hdr =
     (let w1 = put_u32 (put_u32 (put_u32 (put_raw [] kMagic) (hd_format_version hdr)) (hd_flags hdr)) (hd_dimensionality hdr);
          w2 = put_u8 (put_u8 (put_u8 (put_u8 w1 (hd_metric hdr)) (hd_index_type hdr)) (hd_reserved0 hdr)) (hd_reserved1 hdr);
          w3 = put_u32 (put_u64 w2 (hd_record_count hdr)) (hd_name_length hdr);
          w4 = put_u64 (put_u64 w3 (hd_vector_off hdr)) (hd_vector_len hdr);
          w5 = put_u64 (put_u64 w4 (hd_index_off hdr)) (hd_index_len hdr)
      in put_u64 w5 (hd_content_crc64 hdr))"

text \<open>\<open>None\<close>: too short, or not the magic number.\<close>

definition read_header :: "u8 list \<Rightarrow> header option" where
  "read_header bs =
     (let (magic, r0) = get_raw (new_reader bs) 8 in
      if magic \<noteq> Some kMagic then None
      else let (version, r1) = get_u32 r0; (flags, r2) = get_u32 r1; (dm, r3) = get_u32 r2;
               (metric, r4) = get_u8 r3; (itype, r5) = get_u8 r4; (res0, r6) = get_u8 r5; (res1, r7) = get_u8 r6;
               (records, r8) = get_u64 r7; (name_len, r9) = get_u32 r8;
               (voff, r10) = get_u64 r9; (vlen, r11) = get_u64 r10; (ioff, r12) = get_u64 r11; (ilen, r13) = get_u64 r12;
               (crc, r14) = get_u64 r13 in
        if \<not> rd_ok r14 then None
        else Some \<lparr>hd_format_version = version, hd_flags = flags, hd_dimensionality = dm, hd_metric = metric,
                   hd_index_type = itype, hd_reserved0 = res0, hd_reserved1 = res1, hd_record_count = records,
                   hd_name_length = name_len, hd_vector_off = voff, hd_vector_len = vlen, hd_index_off = ioff,
                   hd_index_len = ilen, hd_content_crc64 = crc\<rparr>)"


section \<open>Encoding\<close>

definition encode_record :: "byte_writer \<Rightarrow> nat \<times> snapshot_record \<Rightarrow> byte_writer" where
  "encode_record w ir =
     (case ir of (i, rec) \<Rightarrow>
        let meta = write_metadata [] (sr_meta rec)
        in put_raw (put_u32 (put_u64 (put_string w (sr_id rec)) (word_of_nat i)) (word_of_nat (length meta))) meta)"

definition encode_directory :: "byte_writer \<Rightarrow> snapshot_record list \<Rightarrow> byte_writer" where
  "encode_directory w rs = foldl encode_record w (enumerate 0 rs)"

text \<open>The loop that pads the body until the file offset is a multiple of the alignment.\<close>

definition pad_body :: "byte_writer \<Rightarrow> byte_writer" where
  "pad_body w = w @ replicate (pad_length 64 (kHeaderSize + length w)) 0"

definition encode_vectors :: "nat \<Rightarrow> byte_writer \<Rightarrow> snapshot_record list \<Rightarrow> byte_writer" where
  "encode_vectors dm w rs = foldl (\<lambda>w rec. foldl (\<lambda>w c. put_f32 w (sr_vector rec ! c)) w [0..<dm]) w rs"

definition encode :: "snapshot_data \<Rightarrow> u8 list" where
  "encode data =
     (let dm = cfg_dim (sd_config data); record_count = word_of_nat (length (sd_records data)) :: u64;
          b1 = pad_body (encode_directory (put_raw [] (string_bytes (cfg_name (sd_config data)))) (sd_records data));
          voff = word_of_nat (kHeaderSize + length b1);
          b2 = encode_vectors (unat dm) b1 (sd_records data);
          vlen = record_count * ucast dm * 4;
          ioff = word_of_nat (kHeaderSize + length b2); ilen = word_of_nat (length (sd_index_blob data));
          body = (if sd_index_blob data = [] then b2 else put_raw b2 (sd_index_blob data));
          hdr = \<lparr>hd_format_version = kFormatVersion, hd_flags = 0, hd_dimensionality = dm,
                hd_metric = metric_u8 (cfg_metric (sd_config data)), hd_index_type = index_type_u8 (sd_index_type data),
                hd_reserved0 = 0, hd_reserved1 = 0, hd_record_count = record_count,
                hd_name_length = word_of_nat (length (cfg_name (sd_config data))), hd_vector_off = voff, hd_vector_len = vlen,
                hd_index_off = ioff, hd_index_len = ilen, hd_content_crc64 = crc64_ecma body 0\<rparr>
      in write_header hdr @ body)"


section \<open>The file system\<close>

text \<open>
  A regular file has its bytes and a flag: they have reached stable storage.  Other nodes are
  directories and the like.  A path without a parent lies in the current directory.
\<close>

datatype fs_node = RegularFile "u8 list" bool | OtherNode

type_synonym file_path = "string \<times> string"
type_synonym file_system = "file_path \<Rightarrow> fs_node option"

definition locate :: "file_path \<Rightarrow> file_path" where
  "locate p = (if fst p = [] then ''.'' else fst p, snd p)"

fun decimal :: "nat \<Rightarrow> string" where
  "decimal n = (if n < 10 then [char_of (48 + n)] else decimal (n div 10) @ [char_of (48 + n mod 10)])"

text \<open>The clock reading \<open>now\<close> and the value \<open>n\<close> of the call counter make the name unique.\<close>

definition make_temp_path :: "file_path \<Rightarrow> nat \<Rightarrow> nat \<Rightarrow> file_path" where
  "make_temp_path target now n =
     (if fst target = [] then ''.'' else fst target,
      snd target @ ''.vvtmp-'' @ decimal now @ ''-'' @ decimal n)"

text \<open>What the calls of one save return: the environment's choice.\<close>

record io_results =
  io_open :: bool
  io_written :: nat
  io_flush :: bool
  io_sync :: bool
  io_close :: bool
  io_remove :: bool
  io_rename :: bool

text \<open>Each function returns the states the file system passes through, the last one first.\<close>

definition remove_file :: "bool \<Rightarrow> file_path \<Rightarrow> file_system list \<Rightarrow> file_system list" where
  "remove_file ok p states = (if ok then (hd states)(locate p := None) # states else states)"

definition write_temp_durably :: "io_results \<Rightarrow> file_path \<Rightarrow> u8 list \<Rightarrow> file_system \<Rightarrow> bool \<times> file_system list" where
  "write_temp_durably io temp bytes fs =
     (if \<not> io_open io then (False, [fs])
      else let opened = fs(locate temp := Some (RegularFile [] False)) # [fs];
               ok1 = (bytes = [] \<or> io_written io = length bytes);
               content = take (io_written io) bytes;
               written = (if bytes = [] then opened else fs(locate temp := Some (RegularFile content False)) # opened);
               ok2 = (ok1 \<and> io_flush io);
               ok3 = (ok2 \<and> io_sync io);
               synced = (if ok3 then fs(locate temp := Some (RegularFile content True)) # written else written);
               ok4 = (ok3 \<and> io_close io)
           in if ok4 then (True, synced) else (False, remove_file (io_remove io) temp synced))"

definition atomic_rename :: "bool \<Rightarrow> file_path \<Rightarrow> file_path \<Rightarrow> file_system list \<Rightarrow> bool \<times> file_system list" where
  "atomic_rename ok temp target states =
     (if \<not> ok then (False, states)
      else (True, (hd states)(locate temp := None, locate target := hd states (locate temp)) # states))"

definition save_image :: "io_results \<Rightarrow> file_path \<Rightarrow> file_path \<Rightarrow> u8 list \<Rightarrow> file_system \<Rightarrow> status \<times> file_system list" where
  "save_image io temp path img fs =
     (case write_temp_durably io temp img fs of
        (False, states) \<Rightarrow> (Inl WriteFailure, states)
      | (True, states) \<Rightarrow>
          (case atomic_rename (io_rename io) temp path states of
             (False, states') \<Rightarrow> (Inl WriteFailure, remove_file (io_remove io) temp states')
           | (True, states') \<Rightarrow> (Inr (), states')))"

definition save_collection ::
  "io_results \<Rightarrow> nat \<Rightarrow> nat \<Rightarrow> collection \<Rightarrow> allocator \<Rightarrow> file_path \<Rightarrow> file_system \<Rightarrow> (status \<times> file_system list) option" where
  "save_collection io now n c a path fs =
     map_option (\<lambda>data. save_image io (make_temp_path path now n) path (encode data) fs) (coll_snapshot_data c a)"


section \<open>Loading\<close>

text \<open>The checks on the parsed header; \<open>file_size\<close> is the file size.  Any failure is a corrupt snapshot.\<close>

definition header_ok :: "header \<Rightarrow> nat \<Rightarrow> bool" where
  "header_ok hdr file_size \<longleftrightarrow>
     1 \<le> hd_dimensionality hdr \<and> hd_dimensionality hdr \<le> 65536 \<and>
     hd_metric hdr \<le> metric_u8 DotProduct \<and> hd_index_type hdr \<le> index_type_u8 IVF \<and>
     unat (hd_record_count hdr) \<le> file_size \<and> unat (hd_name_length hdr) \<le> file_size - kHeaderSize \<and>
     kHeaderSize \<le> unat (hd_vector_off hdr) \<and> unat (hd_vector_off hdr) \<le> file_size \<and>
     unat (hd_vector_len hdr) \<le> file_size - unat (hd_vector_off hdr) \<and>
     hd_vector_len hdr = hd_record_count hdr * (ucast (hd_dimensionality hdr) * 4) \<and>
     unat (hd_index_off hdr) \<le> file_size \<and> unat (hd_index_len hdr) \<le> file_size - unat (hd_index_off hdr) \<and>
     ((index_type_of_u8 (hd_index_type hdr) = NoIndex) = (hd_index_len hdr = 0))"

definition read_name :: "header \<Rightarrow> byte_reader \<Rightarrow> (string \<times> byte_reader) option" where
  "read_name hdr r =
     (let (bytes, r1) = (if hd_name_length hdr = 0 then (Some [], r) else get_raw r (unat (hd_name_length hdr))) in
      case bytes of
        None \<Rightarrow> None
      | Some bs \<Rightarrow> if bs = [] \<or> 255 < length bs then None else Some (bytes_string bs, r1))"

text \<open>One entry of the record directory: the identifier, the pointer into the mapping, the metadata.\<close>

definition read_record :: "header \<Rightarrow> byte_reader \<Rightarrow> ((record_id \<times> nat \<times> metadata option) \<times> byte_reader) option" where
  "read_record hdr r =
     (let (rid, r1) = get_string r; (vector_index, r2) = get_u64 r1; (meta_length, r3) = get_u32 r2 in
      if \<not> rd_ok r3 then None
      else let (mr, r4) = sub_reader r3 (unat meta_length) in
        if \<not> rd_ok r4 then None
        else case read_metadata mr of
          (None, _) \<Rightarrow> None
        | (Some meta, mr') \<Rightarrow>
            if \<not> rd_ok mr' \<or> remaining mr' \<noteq> 0 \<or> rid = [] \<or> hd_record_count hdr \<le> vector_index then None
            else Some ((rid, unat (hd_vector_off hdr) + unat (vector_index * (ucast (hd_dimensionality hdr) * 4)), meta), r4))"

definition mapped_slot :: "header \<Rightarrow> nat \<Rightarrow> metadata option \<Rightarrow> record_slot" where
  "mapped_slot hdr off meta =
     \<lparr>vector_block = \<lparr>blk_data = MapPtr off, blk_size = unat (ucast (hd_dimensionality hdr) * 4 :: u64)\<rparr>, slot_meta = meta\<rparr>"

fun read_directory ::
  "nat \<Rightarrow> header \<Rightarrow> byte_reader \<Rightarrow> (record_id, record_slot) omap \<Rightarrow> (record_id \<times> nat) list \<Rightarrow>
   ((record_id, record_slot) omap \<times> (record_id \<times> nat) list \<times> byte_reader) option"
where
  "read_directory 0 hdr r records vec_by_id = Some (records, vec_by_id, r)"
| "read_directory (Suc n) hdr r records vec_by_id =
     (case read_record hdr r of
        None \<Rightarrow> None
      | Some ((rid, off, meta), r1) \<Rightarrow>
          if omap_find rid records \<noteq> None then None
          else read_directory n hdr r1 (omap_emplace rid (mapped_slot hdr off meta) records) ((rid, off) # vec_by_id))"

definition load_hnsw :: "host \<Rightarrow> header \<Rightarrow> u8 list \<Rightarrow> (record_id \<times> nat) list \<Rightarrow> u8 list \<Rightarrow> hnsw_index option" where
  "load_hnsw h hdr bs vec_by_id blob =
     hnsw_deserialize h (hd_dimensionality hdr) (metric_of_u8 (hd_metric hdr)) blob
       (\<lambda>rid. case omap_find rid vec_by_id of
                None \<Rightarrow> None
              | Some off \<Rightarrow> mapped_floats bs off (unat (hd_dimensionality hdr)))"

text \<open>Re-adding the records in directory order; the inner error is a corrupt snapshot.\<close>

fun rebuild_ivf :: "collection \<Rightarrow> allocator \<Rightarrow> (record_id \<times> record_slot) list \<Rightarrow> ivf_index \<Rightarrow> ivf_index result option" where
  "rebuild_ivf c a [] ix = Some (Inr ix)"
| "rebuild_ivf c a ((rid, slot) # rs) ix =
     (case slot_components c a slot of
        None \<Rightarrow> undefined_behaviour
      | Some v \<Rightarrow>
          (case ivf_add ix rid v of
             (Inl e, _) \<Rightarrow> Some (Inl Corruption)
           | (Inr _, ix') \<Rightarrow> rebuild_ivf c a rs ix'))"

definition load_ivf :: "header \<Rightarrow> collection \<Rightarrow> allocator \<Rightarrow> u8 list \<Rightarrow> ivf_index result option" where
  "load_ivf hdr c a blob =
     (let (nlist, r1) = get_u32 (new_reader blob); (seed, r2) = get_u64 r1 in
      if \<not> rd_ok r2 \<or> remaining r2 \<noteq> 0 then Some (Inl Corruption)
      else rebuild_ivf c a (co_records c)
        (new_ivf (hd_dimensionality hdr) (metric_of_u8 (hd_metric hdr)) (default_index_params\<lparr>ip_nlist := nlist, ip_seed := seed\<rparr>)))"

text \<open>\<open>c\<close> is the collection under construction, without its index.\<close>

definition load_index ::
  "host \<Rightarrow> header \<Rightarrow> u8 list \<Rightarrow> (record_id \<times> nat) list \<Rightarrow> collection \<Rightarrow> allocator \<Rightarrow> any_index option result option" where
  "load_index h hdr bs vec_by_id c a =
     (let blob = take (unat (hd_index_len hdr)) (drop (unat (hd_index_off hdr)) bs) in
      case index_type_of_u8 (hd_index_type hdr) of
        NoIndex \<Rightarrow> Some (Inr None)
      | HNSW \<Rightarrow> Some (case load_hnsw h hdr bs vec_by_id blob of None \<Rightarrow> Inl Corruption | Some ix \<Rightarrow> Inr (Some (HnswIx ix)))
      | _ \<Rightarrow> map_option (map_sum id (Some \<circ> IvfIx)) (load_ivf hdr c a blob))"

definition load_body :: "host \<Rightarrow> header \<Rightarrow> u8 list \<Rightarrow> allocator \<Rightarrow> collection_tag \<Rightarrow> collection result option" where
  "load_body h hdr bs a tag =
     (case read_name hdr (new_reader (drop kHeaderSize bs)) of
        None \<Rightarrow> Some (Inl Corruption)
      | Some (name, r1) \<Rightarrow>
          (case read_directory (unat (hd_record_count hdr)) hdr r1 [] [] of
             None \<Rightarrow> Some (Inl Corruption)
           | Some (records, vec_by_id, r2) \<Rightarrow>
               if unat (hd_vector_off hdr) - kHeaderSize < rd_pos r2 then Some (Inl Corruption)
               else let config = \<lparr>cfg_name = name, cfg_dim = hd_dimensionality hdr, cfg_metric = metric_of_u8 (hd_metric hdr)\<rparr>;
                        c = (new_collection config tag)\<lparr>co_records := records, co_record_count := word_of_nat (length records),
                              co_index_type := index_type_of_u8 (hd_index_type hdr), co_mapped := Some bs\<rparr> in
                 map_option (map_sum id (\<lambda>index. c\<lparr>co_index := index\<rparr>)) (load_index h hdr bs vec_by_id c a)))"

definition load_snapshot ::
  "host \<Rightarrow> bool \<Rightarrow> fs_node option \<Rightarrow> allocator \<Rightarrow> collection_tag \<Rightarrow> collection result option" where
  "load_snapshot h can_map node a tag =
     (case node of
        Some (RegularFile bs _) \<Rightarrow>
          if length bs < kHeaderSize \<or> \<not> can_map then Some (Inl SnapshotNotFound)
          else (case read_header bs of
            None \<Rightarrow> Some (Inl SnapshotNotFound)
          | Some hdr \<Rightarrow>
              if hd_format_version hdr \<noteq> kFormatVersion then Some (Inl UnsupportedVersion)
              else if crc64_ecma (drop kHeaderSize bs) 0 \<noteq> hd_content_crc64 hdr then Some (Inl Corruption)
              else if \<not> header_ok hdr (length bs) then Some (Inl Corruption)
              else load_body h hdr bs a tag)
      | _ \<Rightarrow> Some (Inl SnapshotNotFound))"

end
