(* ===== verification/Engine.thy ===== *)
theory Engine
  imports Snapshot
begin

text \<open>
  \<open>engine.cpp\<close>: the registry of collections over one allocator.  A handle is a pointer to a
  collection; the collection's tag, which is never reused, stands for it.  The registry lock makes
  every operation one step.
\<close>

record engine =
  en_allocator :: allocator
  en_collections :: "(string, collection) omap"
  en_next_tag :: u64

definition new_engine :: "u64 \<Rightarrow> engine" where
  "new_engine capacity = \<lparr>en_allocator = new_allocator capacity, en_collections = [], en_next_tag = 1\<rparr>"

definition is_valid_name :: "string \<Rightarrow> bool" where
  "is_valid_name name \<longleftrightarrow> name \<noteq> [] \<and> length name \<le> 255"

definition is_valid_dimensionality :: "u32 \<Rightarrow> bool" where
  "is_valid_dimensionality dm \<longleftrightarrow> 1 \<le> dm \<and> dm \<le> 65536"

fun is_valid_metric :: "distance_metric \<Rightarrow> bool" where
  "is_valid_metric Euclidean = True"
| "is_valid_metric Cosine = True"
| "is_valid_metric DotProduct = True"
| "is_valid_metric (MetricValue _) = False"


section \<open>Handles\<close>

type_synonym collection_handle = "collection_tag option"

definition handle_valid :: "collection_handle \<Rightarrow> bool" where
  "handle_valid handle \<longleftrightarrow> handle \<noteq> None"

text \<open>Dereferencing a null or dangling handle is undefined.\<close>

definition handle_get :: "engine \<Rightarrow> collection_handle \<Rightarrow> (string \<times> collection) option" where
  "handle_get e handle =
     (case handle of
        None \<Rightarrow> undefined_behaviour
      | Some t \<Rightarrow> find (\<lambda>(_, c). co_tag c = t) (en_collections e))"


section \<open>The registry\<close>

definition create_collection ::
  "engine \<Rightarrow> string \<Rightarrow> u32 \<Rightarrow> distance_metric \<Rightarrow> collection_handle result \<times> engine" where
  "create_collection e name dm metric =
     (if \<not> is_valid_name name then (Inl InvalidName, e)
      else if \<not> is_valid_dimensionality dm then (Inl InvalidDimensionality, e)
      else if \<not> is_valid_metric metric then (Inl InvalidMetric, e)
      else if omap_find name (en_collections e) \<noteq> None then (Inl NameConflict, e)
      else let tag = CollectionTag (en_next_tag e);
               c = new_collection \<lparr>cfg_name = name, cfg_dim = dm, cfg_metric = metric\<rparr> tag
           in (Inr (Some tag), e\<lparr>en_collections := omap_emplace name c (en_collections e), en_next_tag := en_next_tag e + 1\<rparr>))"

definition delete_collection :: "(string \<Rightarrow> bool) option \<Rightarrow> engine \<Rightarrow> string \<Rightarrow> status \<times> engine" where
  "delete_collection injector e name =
     (case omap_find name (en_collections e) of
        None \<Rightarrow> (Inl NotFound, e)
      | Some c \<Rightarrow>
          if (case injector of None \<Rightarrow> False | Some f \<Rightarrow> f name) then (Inl DeletionFailed, e)
          else (Inr (), e\<lparr>en_allocator := release_all (en_allocator e) (co_tag c),
                          en_collections := omap_erase name (en_collections e)\<rparr>))"

definition list_collections :: "engine \<Rightarrow> collection_info list" where
  "list_collections e = map (\<lambda>(_, c). coll_info c) (en_collections e)"

definition get_collection :: "engine \<Rightarrow> string \<Rightarrow> collection_handle result" where
  "get_collection e name =
     (case omap_find name (en_collections e) of None \<Rightarrow> Inl NotFound | Some c \<Rightarrow> Inr (Some (co_tag c)))"

definition engine_save ::
  "io_results \<Rightarrow> nat \<Rightarrow> nat \<Rightarrow> engine \<Rightarrow> string \<Rightarrow> file_path \<Rightarrow> file_system \<Rightarrow> (status \<times> file_system list) option" where
  "engine_save io now n e name path fs =
     (case omap_find name (en_collections e) of
        None \<Rightarrow> Some (Inl NotFound, [fs])
      | Some c \<Rightarrow> save_collection io now n c (en_allocator e) path fs)"

definition engine_load ::
  "host \<Rightarrow> bool \<Rightarrow> engine \<Rightarrow> file_path \<Rightarrow> file_system \<Rightarrow> (collection_handle result \<times> engine) option" where
  "engine_load h can_map e path fs =
     (let tag = CollectionTag (en_next_tag e); e1 = e\<lparr>en_next_tag := en_next_tag e + 1\<rparr> in
      map_option (\<lambda>r. case r of
          Inl err \<Rightarrow> (Inl err, e1)
        | Inr c \<Rightarrow>
            if omap_find (cfg_name (co_config c)) (en_collections e) \<noteq> None
            then (Inl NameConflict, e1\<lparr>en_allocator := release_all (en_allocator e) tag\<rparr>)
            else (Inr (Some tag), e1\<lparr>en_collections := omap_emplace (cfg_name (co_config c)) c (en_collections e)\<rparr>))
        (load_snapshot h can_map (fs (locate path)) (en_allocator e) tag))"

text \<open>What an operation through a handle leaves behind.\<close>

definition put_collection :: "engine \<Rightarrow> string \<Rightarrow> collection \<Rightarrow> allocator \<Rightarrow> engine" where
  "put_collection e name c a = e\<lparr>en_collections := omap_set name c (en_collections e), en_allocator := a\<rparr>"

end
