(* ===== verification/Hnsw_Roundtrip.thy ===== *)
theory Hnsw_Roundtrip
  imports Hnsw_Serial
begin

text \<open>
  The byte form of the graph determines it: reading back what \<open>serialize\<close> wrote gives a
  well-formed index with the same contents, whose own byte form is the same.
\<close>

section \<open>The byte form as a list\<close>

lemma foldl_appends: "(\<And>w x. f w x = w @ g x) \<Longrightarrow> foldl f w xs = w @ concat (map g xs)"
  by (induction xs arbitrary: w) simp_all

definition adj_bytes :: "nat list \<Rightarrow> u8 list" where
  "adj_bytes xs = le_bytes32 (word_of_nat (length xs)) @ concat (map (\<lambda>c. le_bytes32 (word_of_nat c)) xs)"

definition node_bytes :: "hnsw_node \<Rightarrow> u8 list" where
  "node_bytes node = str_bytes (hn_id node) @ le_bytes32 (word_of_int (hn_top_layer node))
     @ concat (map adj_bytes (hn_neighbors node))"

definition hnsw_bytes :: "hnsw_index \<Rightarrow> int \<times> u32 \<Rightarrow> hnsw_node list \<Rightarrow> u8 list" where
  "hnsw_bytes ix me nodes = le_bytes32 (hx_max_neighbors_upper ix) @ le_bytes32 (hx_ef_construction ix)
     @ le_bytes64 (hx_rng_seed ix) @ le_bytes32 (word_of_nat (length nodes))
     @ le_bytes32 (word_of_int (fst me)) @ le_bytes32 (snd me) @ concat (map node_bytes nodes)"

definition canon_layer :: "nat list \<Rightarrow> hnsw_node \<Rightarrow> nat \<Rightarrow> nat list" where
  "canon_layer live node l = (if l < length (hn_neighbors node) then remap live (hn_neighbors node ! l) else [])"

definition canon_node :: "nat list \<Rightarrow> hnsw_node \<Rightarrow> hnsw_node" where
  "canon_node live node = node\<lparr>hn_neighbors := map (canon_layer live node) [0..<nat (hn_top_layer node + 1)]\<rparr>"

definition canon_nodes :: "hnsw_index \<Rightarrow> nat list \<Rightarrow> hnsw_node list" where
  "canon_nodes ix live = map (\<lambda>n. canon_node live (hx_nodes ix ! n)) live"

lemma write_layer_appends: "write_layer live node w l = w @ adj_bytes (canon_layer live node l)"
proof -
  have "foldl (\<lambda>w cid. put_u32 w (word_of_nat cid)) w xs = w @ concat (map (\<lambda>c. le_bytes32 (word_of_nat c)) xs)" for w xs
    by (rule foldl_appends) (rule put_appends)
  then show ?thesis
    unfolding write_layer_def Let_def canon_layer_def [symmetric] by (simp add: put_appends adj_bytes_def)
qed

lemma write_node_appends: "write_node ix live w n = w @ node_bytes (canon_node live (hx_nodes ix ! n))"
proof -
  have "foldl (write_layer live node) w ls = w @ concat (map (\<lambda>l. adj_bytes (canon_layer live node l)) ls)" for node w ls
    by (rule foldl_appends) (rule write_layer_appends)
  then show ?thesis by (simp add: write_node_def Let_def put_appends node_bytes_def canon_node_def comp_def)
qed

lemma hnsw_serialize_bytes:
  "hnsw_serialize ix = map_option (\<lambda>live. hnsw_bytes ix (canonical_entry ix live) (canon_nodes ix live)) (live_by_id ix)"
proof -
  have "foldl (write_node ix live) w ns = w @ concat (map (\<lambda>n. node_bytes (canon_node live (hx_nodes ix ! n))) ns)" for live w ns
    by (rule foldl_appends) (rule write_node_appends)
  then show ?thesis
    unfolding hnsw_serialize_def
    by (intro arg_cong [where f = "\<lambda>f. map_option f _"] ext)
      (simp add: hnsw_bytes_def canon_nodes_def put_appends comp_def split: prod.split)
qed


section \<open>Reading the byte form\<close>

lemma read_adjacency_reads:
  "reads r (concat (map (\<lambda>c. le_bytes32 (word_of_nat c)) xs) @ rest) \<Longrightarrow> \<forall>x \<in> set xs. x < unat cnt \<Longrightarrow>
   \<exists>r'. read_adjacency (length xs) cnt r adj = Some (adj @ xs, r') \<and> reads r' rest"
proof (induction xs arbitrary: r adj)
  case (Cons x xs)
  have "reads r (le_bytes32 (word_of_nat x) @ concat (map (\<lambda>c. le_bytes32 (word_of_nat c)) xs) @ rest)"
    using Cons.prems(1) by simp
  then obtain r1 where r1: "get_u32 r = (word_of_nat x, r1)" "reads r1 (concat (map (\<lambda>c. le_bytes32 (word_of_nat c)) xs) @ rest)" "rd_ok r1"
    using u32.dec_step by blast
  have x: "x < unat cnt" using Cons.prems(2) by simp
  have "unat cnt < 2 ^ LENGTH(32)" by (rule unsigned_less)
  then have ux: "unat (word_of_nat x :: u32) = x" using x by (simp add: unat_of_nat)
  then have "\<not> cnt \<le> word_of_nat x" using x by (simp add: word_le_nat_alt)
  moreover obtain r' where "read_adjacency (length xs) cnt r1 (adj @ [x]) = Some ((adj @ [x]) @ xs, r')" "reads r' rest"
    using Cons.IH [OF r1(2), of "adj @ [x]"] Cons.prems(2) by auto
  ultimately show ?case using r1 ux by simp
qed simp

lemma read_layers_reads:
  "reads r (concat (map adj_bytes ls) @ rest) \<Longrightarrow> \<forall>xs \<in> set ls. length xs < 2 ^ 32 \<and> (\<forall>x \<in> set xs. x < unat cnt) \<Longrightarrow>
   \<exists>r'. read_layers (length ls) cnt r acc = Some (acc @ ls, r') \<and> reads r' rest"
proof (induction ls arbitrary: r acc)
  case (Cons xs ls)
  let ?adj = "concat (map (\<lambda>c. le_bytes32 (word_of_nat c)) xs)" and ?rest = "concat (map adj_bytes ls) @ rest"
  have "reads r (le_bytes32 (word_of_nat (length xs)) @ ?adj @ ?rest)"
    using Cons.prems(1) by (simp add: adj_bytes_def [of xs])
  then obtain r1 where r1: "get_u32 r = (word_of_nat (length xs), r1)" "reads r1 (?adj @ ?rest)" "rd_ok r1"
    using u32.dec_step by blast
  have xs: "length xs < 2 ^ 32" "\<forall>x \<in> set xs. x < unat cnt" using Cons.prems(2) by simp_all
  then have u: "unat (word_of_nat (length xs) :: u32) = length xs" by (simp add: unat_of_nat)
  obtain r2 where r2: "read_adjacency (length xs) cnt r1 [] = Some ([] @ xs, r2)" "reads r2 ?rest"
    using read_adjacency_reads [OF r1(2) xs(2)] by blast
  obtain r' where "read_layers (length ls) cnt r2 (acc @ [xs]) = Some ((acc @ [xs]) @ ls, r')" "reads r' rest"
    using Cons.IH [OF r2(2), of "acc @ [xs]"] Cons.prems(2) by auto
  then show ?case using r1 r2 u by simp
qed simp

text \<open>A node as it is stored: alive, its layers full, its edges within \<open>cnt\<close>.\<close>

definition stored_node :: "u32 \<Rightarrow> hnsw_node \<Rightarrow> bool" where
  "stored_node cnt node \<longleftrightarrow> length (hn_id node) < 2 ^ 32 \<and> 0 \<le> hn_top_layer node \<and> hn_top_layer node < 2 ^ 31 \<and>
     \<not> hn_deleted node \<and> length (hn_neighbors node) = nat (hn_top_layer node + 1) \<and>
     (\<forall>xs \<in> set (hn_neighbors node). length xs < 2 ^ 32 \<and> (\<forall>x \<in> set xs. x < unat cnt))"

lemma int_of_u32_level: "0 \<le> t \<Longrightarrow> t < 2 ^ 31 \<Longrightarrow> int_of_u32 (unat (word_of_int t :: u32)) = t"
proof -
  assume t: "0 \<le> t" "t < 2 ^ 31"
  then have u: "uint (word_of_int t :: u32) = t" by (simp add: uint_word_of_int)
  have "unat (word_of_int t :: u32) = nat t" unfolding unat_eq_nat_uint u ..
  then show ?thesis using t by (simp add: int_of_u32_def)
qed

lemma read_node_reads:
  assumes s: "stored_node cnt node" and v: "vector_for (hn_id node) = Some cs" "take (unat dm) cs = hn_vector node"
    and r: "reads r (node_bytes node @ rest)"
  shows "\<exists>r'. read_node dm cnt vector_for r = Some (node, r') \<and> reads r' rest"
proof -
  have n: "length (hn_id node) < 2 ^ 32" "0 \<le> hn_top_layer node" "hn_top_layer node < 2 ^ 31" "\<not> hn_deleted node"
    "length (hn_neighbors node) = nat (hn_top_layer node + 1)"
    "\<forall>xs \<in> set (hn_neighbors node). length xs < 2 ^ 32 \<and> (\<forall>x \<in> set xs. x < unat cnt)"
    using s by (simp_all add: stored_node_def)
  let ?ls = "concat (map adj_bytes (hn_neighbors node)) @ rest" and ?top = "le_bytes32 (word_of_int (hn_top_layer node))"
  have "reads r (str_bytes (hn_id node) @ ?top @ ?ls)" using r by (simp add: node_bytes_def)
  then obtain r1 where r1: "get_string r = (hn_id node, r1)" "reads r1 (?top @ ?ls)"
    using str.dec_step n(1) by metis
  then obtain r2 where r2: "get_u32 r1 = (word_of_int (hn_top_layer node), r2)" "reads r2 ?ls" "rd_ok r2"
    using u32.dec_step by blast
  have top: "int_of_u32 (unat (word_of_int (hn_top_layer node) :: u32)) = hn_top_layer node" by (rule int_of_u32_level [OF n(2,3)])
  obtain r3 where r3: "read_layers (length (hn_neighbors node)) cnt r2 [] = Some ([] @ hn_neighbors node, r3)" "reads r3 rest"
    using read_layers_reads [OF r2(2) n(6)] by blast
  have "\<lparr>hn_id = hn_id node, hn_vector = hn_vector node, hn_top_layer = hn_top_layer node, hn_deleted = False,
      hn_neighbors = hn_neighbors node\<rparr> = node"
    using n(4) by (cases node) simp
  then show ?thesis
    using r1(1) r2 r3 top n(2,5) v by (simp add: read_node_def)
qed

fun id_entries :: "nat \<Rightarrow> hnsw_node list \<Rightarrow> (record_id \<times> nat) list" where
  "id_entries c [] = []"
| "id_entries c (node # nodes) = id_entries (Suc c) nodes @ [(hn_id node, c)]"

lemma omap_find_append: "omap_find k (xs @ ys) = (case omap_find k xs of None \<Rightarrow> omap_find k ys | Some v \<Rightarrow> Some v)"
  by (induction xs) auto

lemma read_nodes_reads:
  assumes "reads r (concat (map node_bytes nodes) @ rest)"
    "\<forall>node \<in> set nodes. stored_node cnt node \<and> (\<exists>cs. vector_for (hn_id node) = Some cs \<and> take (unat (hx_dimensionality ix)) cs = hn_vector node)"
    "distinct (map hn_id nodes)" "\<forall>node \<in> set nodes. omap_find (hn_id node) (hx_id_to_internal ix) = None"
  shows "\<exists>r'. read_nodes (length nodes) c cnt vector_for r ix =
    Some (ix\<lparr>hx_id_to_internal := id_entries c nodes @ hx_id_to_internal ix, hx_nodes := hx_nodes ix @ nodes\<rparr>, r') \<and> reads r' rest"
  using assms
proof (induction nodes arbitrary: r c ix)
  case (Cons node nodes)
  have st: "stored_node cnt node" using Cons.prems(2) by simp
  obtain cs where cs: "vector_for (hn_id node) = Some cs" "take (unat (hx_dimensionality ix)) cs = hn_vector node"
    using Cons.prems(2) by auto
  have "reads r (node_bytes node @ concat (map node_bytes nodes) @ rest)" using Cons.prems(1) by simp
  then obtain r1 where r1: "read_node (hx_dimensionality ix) cnt vector_for r = Some (node, r1)" "reads r1 (concat (map node_bytes nodes) @ rest)"
    using read_node_reads [where vector_for = vector_for and dm = "hx_dimensionality ix", OF st cs] by blast
  let ?ix = "ix\<lparr>hx_id_to_internal := (hn_id node, c) # hx_id_to_internal ix, hx_nodes := hx_nodes ix @ [node]\<rparr>"
  have fresh: "omap_find (hn_id node) (hx_id_to_internal ix) = None" using Cons.prems(4) by simp
  have "\<exists>r'. read_nodes (length nodes) (Suc c) cnt vector_for r1 ?ix =
    Some (?ix\<lparr>hx_id_to_internal := id_entries (Suc c) nodes @ hx_id_to_internal ?ix, hx_nodes := hx_nodes ?ix @ nodes\<rparr>, r') \<and> reads r' rest"
    using Cons.prems by (intro Cons.IH [OF r1(2)]) auto
  then show ?case using r1(1) fresh by auto
qed simp


section \<open>The canonical order\<close>

abbreviation by_id :: "hnsw_index \<Rightarrow> nat \<Rightarrow> nat \<Rightarrow> bool" where
  "by_id ix \<equiv> (\<lambda>a b. hn_id (hx_nodes ix ! a) < hn_id (hx_nodes ix ! b))"

text \<open>The live nodes, in strictly ascending order of identifier.\<close>

definition canon_order :: "hnsw_index \<Rightarrow> nat list \<Rightarrow> bool" where
  "canon_order ix live \<longleftrightarrow> sorted_wrt (by_id ix) live \<and>
     set live = {n. n < length (hx_nodes ix) \<and> \<not> hn_deleted (hx_nodes ix ! n)}"

lemma by_id_strict: "strict_weak_on (by_id ix) xs"
  unfolding strict_weak_on_def by (auto intro: le_less_trans)


interpretation by_id: strict_weak "by_id ix" UNIV for ix
  by unfold_locales auto

lemma sorted_by_id: "sorted_wrt (by_id ix) xs \<Longrightarrow> sorted_by (by_id ix) xs"
  by (erule sorted_wrt_mono_rel [rotated]) auto

lemma live_by_id_order:
  assumes "distinct (map hn_id (hx_nodes ix))"
  shows "\<exists>live. live_by_id ix = Some live \<and> canon_order ix live \<and> distinct live \<and> length live = length (live_nodes ix)"
proof -
  let ?xs = "filter (\<lambda>i. \<not> hn_deleted (hx_nodes ix ! i)) [0..<length (hx_nodes ix)]"
  let ?live = "sort_by (by_id ix) ?xs"
  have set: "set ?live = {n. n < length (hx_nodes ix) \<and> \<not> hn_deleted (hx_nodes ix ! n)}" by auto
  have dist: "distinct ?live" by simp
  have "sorted_wrt (by_id ix) ?live"
  proof (rule sorted_wrt_mono_rel [where P = "\<lambda>a b. \<not> by_id ix b a \<and> a \<noteq> b"])
    fix a b assume "a \<in> set ?live" "b \<in> set ?live" and ab: "\<not> by_id ix b a \<and> a \<noteq> b"
    then have "a < length (hx_nodes ix)" "b < length (hx_nodes ix)" by auto
    then have "hn_id (hx_nodes ix ! a) \<noteq> hn_id (hx_nodes ix ! b)"
      using assms ab by (metis distinct_conv_nth length_map nth_map)
    then show "by_id ix a b" using ab by (metis linorder_neqE)
  next
    have "sorted_by (by_id ix) ?live" by (rule by_id.sort_by_sorted) simp
    then show "sorted_wrt (\<lambda>a b. \<not> by_id ix b a \<and> a \<noteq> b) ?live"
      using dist by (auto simp: sorted_wrt_iff_nth_less distinct_conv_nth)
  qed
  then have "canon_order ix ?live" using set by (simp add: canon_order_def)
  moreover have "live_nodes ix = map ((!) (hx_nodes ix)) ?xs"
    by (subst map_nth [symmetric]) (simp add: filter_map comp_def)
  then have "length ?live = length (live_nodes ix)" by simp
  ultimately show ?thesis using dist by (simp add: live_by_id_def by_id.std_sort_defined)
qed


lemma canonical_find:
  assumes "distinct live"
  shows "omap_find n (canonical live) = Some c \<longleftrightarrow> c < length live \<and> live ! c = n"
proof -
  have "map fst (canonical live) = live" by (simp add: canonical_def)
  then have "omap_find n (canonical live) = Some c \<longleftrightarrow> (n, c) \<in> set (canonical live)"
    using assms by (simp add: omap_find_Some_iff)
  also have "\<dots> \<longleftrightarrow> c < length live \<and> live ! c = n"
    by (auto simp: canonical_def in_set_zip)
  finally show ?thesis .
qed

lemma distinct_remdups_adj_sorted: "sorted xs \<Longrightarrow> distinct (remdups_adj xs)"
  for xs :: "nat list"
  by (induction xs rule: remdups_adj.induct) (auto simp: less_le)

lemma in_map_filter: "y \<in> set (List.map_filter f xs) \<longleftrightarrow> (\<exists>x \<in> set xs. f x = Some y)"
  by (induction xs) (auto simp: map_filter_simps split: option.split)

lemma remap_ok:
  assumes "distinct live"
  shows "set (remap live xs) = {c. c < length live \<and> live ! c \<in> set xs}" "sorted (remap live xs)" "distinct (remap live xs)"
    "length (remap live xs) \<le> length xs"
proof -
  let ?l = "List.map_filter (\<lambda>nb. omap_find nb (canonical live)) xs"
  show s: "set (remap live xs) = {c. c < length live \<and> live ! c \<in> set xs}"
    by (auto simp: remap_def in_map_filter canonical_find [OF assms])
  show "sorted (remap live xs)" by (simp add: remap_def)
  show d: "distinct (remap live xs)" unfolding remap_def by (rule distinct_remdups_adj_sorted) simp
  have "length (remap live xs) = card (set (remap live xs))" using distinct_card [OF d] by simp
  also have "\<dots> = card ((!) live ` set (remap live xs))"
    by (rule card_image [symmetric]) (use s in \<open>auto intro!: inj_on_nth [OF assms]\<close>)
  also have "\<dots> \<le> card (set xs)" by (rule card_mono) (use s in auto)
  also have "\<dots> \<le> length xs" by (rule card_length)
  finally show "length (remap live xs) \<le> length xs" .
qed

text \<open>A list that is already canonical is left alone.\<close>

lemma remap_id:
  assumes "sorted xs" "distinct xs" "\<forall>x \<in> set xs. x < n"
  shows "remap [0..<n] xs = xs"
proof (rule sorted_distinct_set_unique)
  show "set (remap [0..<n] xs) = set xs" using assms(3) by (auto simp: remap_ok(1))
qed (use assms remap_ok [of "[0..<n]"] in simp_all)


section \<open>The entry point\<close>

definition entry_of :: "int list \<Rightarrow> int \<times> u32" where
  "entry_of tops = foldl (\<lambda>(max_level, entry) c.
     if max_level < tops ! c then (tops ! c, word_of_nat c) else (max_level, entry)) (-1, 0xFFFFFFFF) [0..<length tops]"

lemma canonical_entry_of: "canonical_entry ix live = entry_of (map hn_top_layer (canon_nodes ix live))"
  unfolding canonical_entry_def entry_of_def
  by (rule foldl_cong) (auto simp: canon_nodes_def canon_node_def Let_def)

lemma entry_of_ok:
  assumes "tops \<noteq> []" "\<forall>t \<in> set tops. 0 \<le> t"
  shows "\<exists>e < length tops. entry_of tops = (tops ! e, word_of_nat e) \<and> (\<forall>t \<in> set tops. t \<le> tops ! e)"
proof -
  define F where "F m = foldl (\<lambda>(max_level, entry) c.
     if max_level < tops ! c then (tops ! c, word_of_nat c) else (max_level, entry)) (-1, 0xFFFFFFFF :: u32) [0..<m]" for m
  have "\<exists>e < Suc m. F (Suc m) = (tops ! e, word_of_nat e) \<and> (\<forall>c < Suc m. tops ! c \<le> tops ! e)" if "m < length tops" for m
    using that
  proof (induction m)
    case 0
    then have "0 \<le> tops ! 0" using assms(2) by simp
    then show ?case by (simp add: F_def)
  next
    case (Suc m)
    then obtain e where e: "e < Suc m" "F (Suc m) = (tops ! e, word_of_nat e)" "\<forall>c < Suc m. tops ! c \<le> tops ! e" by auto
    have step: "F (Suc (Suc m)) = (if tops ! e < tops ! Suc m then (tops ! Suc m, word_of_nat (Suc m)) else (tops ! e, word_of_nat e))"
      using e(2) by (simp add: F_def)
    show ?case
    proof (cases "tops ! e < tops ! Suc m")
      case True
      then have "\<forall>c < Suc (Suc m). tops ! c \<le> tops ! Suc m" using e(3) by (force simp: less_Suc_eq)
      then show ?thesis using step True by (intro exI [of _ "Suc m"]) simp
    next
      case False
      then have "\<forall>c < Suc (Suc m). tops ! c \<le> tops ! e" using e(3) by (force simp: less_Suc_eq)
      then show ?thesis using step False e(1) by (intro exI [of _ e]) simp
    qed
  qed
  from this [of "length tops - 1"] obtain e where "e < length tops" "F (length tops) = (tops ! e, word_of_nat e)"
    "\<forall>c < length tops. tops ! c \<le> tops ! e"
    using assms(1) by (cases tops) auto
  then show ?thesis by (intro exI [of _ e]) (auto simp: F_def entry_of_def in_set_conv_nth)
qed

lemma entry_of_Nil: "entry_of [] = (-1, 0xFFFFFFFF)"
  by (simp add: entry_of_def)


section \<open>The index that is read back\<close>

definition canon_index :: "host \<Rightarrow> hnsw_index \<Rightarrow> nat list \<Rightarrow> hnsw_index" where
  "canon_index h ix live =
     (new_hnsw h (hx_dimensionality ix) (hx_metric ix)
        (default_index_params\<lparr>ip_m := hx_max_neighbors_upper ix, ip_ef_construction := hx_ef_construction ix,
           ip_seed := hx_rng_seed ix\<rparr>))
     \<lparr>hx_id_to_internal := id_entries 0 (canon_nodes ix live), hx_nodes := canon_nodes ix live,
      hx_live_count := word_of_nat (length live), hx_max_level := fst (canonical_entry ix live),
      hx_entry_point := (if live = [] then -1 else int (unat (snd (canonical_entry ix live))))\<rparr>"

lemma canon_index_fields:
  assumes "hnsw_ok h ix"
  shows "hx_dimensionality (canon_index h ix live) = hx_dimensionality ix" "hx_metric (canon_index h ix live) = hx_metric ix"
    "hx_max_neighbors_upper (canon_index h ix live) = hx_max_neighbors_upper ix"
    "hx_max_neighbors_layer0 (canon_index h ix live) = hx_max_neighbors_layer0 ix"
    "hx_ef_construction (canon_index h ix live) = hx_ef_construction ix"
    "hx_level_scale (canon_index h ix live) = hx_level_scale ix" "hx_rng_seed (canon_index h ix live) = hx_rng_seed ix"
    "hx_nodes (canon_index h ix live) = canon_nodes ix live"
    "hx_id_to_internal (canon_index h ix live) = id_entries 0 (canon_nodes ix live)"
    "hx_live_count (canon_index h ix live) = word_of_nat (length live)"
    "hx_max_level (canon_index h ix live) = fst (canonical_entry ix live)"
    "hx_entry_point (canon_index h ix live) = (if live = [] then -1 else int (unat (snd (canonical_entry ix live))))"
proof -
  have p: "2 \<le> hx_max_neighbors_upper ix" "hx_max_neighbors_layer0 ix = hx_max_neighbors_upper ix * 2" "hx_ef_construction ix \<noteq> 0"
    "hx_level_scale ix = f64_div f64_one (h_log h (f64_of_nat (unat (hx_max_neighbors_upper ix))))"
    using hnsw_okD(9) [OF assms] by (simp_all add: params_ok_def)
  then have "\<not> hx_max_neighbors_upper ix < 2" "\<not> hx_ef_construction ix < 1" by (simp_all add: not_less word_less_1)
  then show "hx_dimensionality (canon_index h ix live) = hx_dimensionality ix" "hx_metric (canon_index h ix live) = hx_metric ix"
    "hx_max_neighbors_upper (canon_index h ix live) = hx_max_neighbors_upper ix"
    "hx_max_neighbors_layer0 (canon_index h ix live) = hx_max_neighbors_layer0 ix"
    "hx_ef_construction (canon_index h ix live) = hx_ef_construction ix"
    "hx_level_scale (canon_index h ix live) = hx_level_scale ix" "hx_rng_seed (canon_index h ix live) = hx_rng_seed ix"
    "hx_nodes (canon_index h ix live) = canon_nodes ix live"
    "hx_id_to_internal (canon_index h ix live) = id_entries 0 (canon_nodes ix live)"
    "hx_live_count (canon_index h ix live) = word_of_nat (length live)"
    "hx_max_level (canon_index h ix live) = fst (canonical_entry ix live)"
    "hx_entry_point (canon_index h ix live) = (if live = [] then -1 else int (unat (snd (canonical_entry ix live))))"
    using p(2,4) by (simp_all add: canon_index_def new_hnsw_def Let_def)
qed

lemma id_entries_find:
  assumes "distinct (map hn_id nodes)"
  shows "omap_find rid (id_entries c nodes) = Some s \<longleftrightarrow> (\<exists>i < length nodes. s = c + i \<and> hn_id (nodes ! i) = rid)"
  using assms
proof (induction nodes arbitrary: c s)
  case (Cons node nodes)
  have d: "distinct (map hn_id nodes)" using Cons.prems by simp
  note IH = Cons.IH [OF d, where c = "Suc c"]
  have ex: "(\<exists>i < length (node # nodes). s = c + i \<and> hn_id ((node # nodes) ! i) = rid) \<longleftrightarrow>
      s = c \<and> hn_id node = rid \<or> (\<exists>i < length nodes. s = Suc c + i \<and> hn_id (nodes ! i) = rid)"
    by (auto simp: less_Suc_eq_0_disj)
  have none: "omap_find rid (id_entries (Suc c) nodes) = None" if "hn_id node = rid"
  proof (rule ccontr)
    assume "omap_find rid (id_entries (Suc c) nodes) \<noteq> None"
    then obtain s' where "omap_find rid (id_entries (Suc c) nodes) = Some s'" by auto
    then obtain i where "i < length nodes" "hn_id (nodes ! i) = rid"
      using IH [of s'] by auto
    then have "hn_id node \<in> hn_id ` set nodes" using that by (metis image_eqI nth_mem)
    then show False using Cons.prems by simp
  qed
  show ?case
  proof (cases "omap_find rid (id_entries (Suc c) nodes)")
    case None
    then show ?thesis unfolding ex IH [of s, symmetric] by (auto simp: omap_find_append)
  next
    case (Some s')
    then have "hn_id node \<noteq> rid" using none by auto
    then show ?thesis unfolding ex IH [of s, symmetric] using Some by (simp add: omap_find_append)
  qed
qed simp


lemma canon_nodes_nth:
  "c < length live \<Longrightarrow> canon_nodes ix live ! c = canon_node live (hx_nodes ix ! (live ! c))"
  by (simp add: canon_nodes_def)

lemma length_canon_nodes [simp]: "length (canon_nodes ix live) = length live"
  by (simp add: canon_nodes_def)

lemma canon_node_simps [simp]:
  "hn_id (canon_node live node) = hn_id node" "hn_vector (canon_node live node) = hn_vector node"
  "hn_top_layer (canon_node live node) = hn_top_layer node" "hn_deleted (canon_node live node) = hn_deleted node"
  "length (hn_neighbors (canon_node live node)) = nat (hn_top_layer node + 1)"
  by (simp_all add: canon_node_def)

lemma live_in: "canon_order ix live \<Longrightarrow> c < length live \<Longrightarrow> live ! c < length (hx_nodes ix) \<and> \<not> hn_deleted (hx_nodes ix ! (live ! c))"
  using nth_mem [of c live] by (simp add: canon_order_def)

lemma live_node_ok: "hnsw_ok h ix \<Longrightarrow> canon_order ix live \<Longrightarrow> c < length live \<Longrightarrow> node_ok (hx_width ix) (hx_nodes ix ! (live ! c))"
  using live_in hnsw_okD(8) by simp

lemma canon_ids_sorted: "canon_order ix live \<Longrightarrow> sorted_wrt (<) (map hn_id (canon_nodes ix live))"
  by (simp add: canon_order_def canon_nodes_def sorted_wrt_map comp_def)

lemma canon_ids_distinct: "canon_order ix live \<Longrightarrow> distinct (map hn_id (canon_nodes ix live))"
  using canon_ids_sorted strict_sorted_iff by blast

lemma canon_nbs:
  assumes ok: "hnsw_ok h ix" and order: "canon_order ix live" and c: "c < length live" and l: "l < nat (hn_top_layer (hx_nodes ix ! (live ! c)) + 1)"
  shows "nbs (canon_index h ix live) c l = remap live (nbs ix (live ! c) l)"
proof -
  have "l < length (hn_neighbors (hx_nodes ix ! (live ! c)))"
    using live_node_ok [OF ok order c] assms(4) by (simp add: node_ok_def)
  then show ?thesis
    using assms(3,4) by (simp add: canon_index_fields [OF ok] canon_nodes_nth canon_node_def canon_layer_def)
qed

lemma canon_has_layer:
  assumes ok: "hnsw_ok h ix" and order: "canon_order ix live"
  shows "has_layer (canon_index h ix live) l c \<longleftrightarrow> c < length live \<and> has_layer ix l (live ! c)"
proof (cases "c < length live")
  case True
  then show ?thesis
    using live_in [OF order True] live_node_ok [OF ok order True]
    by (simp add: has_layer_def canon_index_fields [OF ok] canon_nodes_nth node_ok_def)
qed (simp add: has_layer_def canon_index_fields [OF ok])

lemma canon_graph_ok:
  assumes ok: "hnsw_ok h ix" and order: "canon_order ix live" and dist: "distinct live"
  shows "graph_ok (canon_index h ix live)"
proof -
  let ?ix = "canon_index h ix live"
  have edge: "set (nbs ?ix c l) = {c'. c' < length live \<and> live ! c' \<in> set (nbs ix (live ! c) l)}"
    "length (nbs ?ix c l) \<le> length (nbs ix (live ! c) l)" "distinct (nbs ?ix c l)" "c < length live" "has_layer ix l (live ! c)"
    if hl: "has_layer ?ix l c" for l c
  proof -
    have c: "c < length live" "has_layer ix l (live ! c)" using hl canon_has_layer [OF ok order] by blast+
    then have l: "l < nat (hn_top_layer (hx_nodes ix ! (live ! c)) + 1)"
      using live_node_ok [OF ok order c(1)] c(2) by (simp add: has_layer_def node_ok_def)
    show "set (nbs ?ix c l) = {c'. c' < length live \<and> live ! c' \<in> set (nbs ix (live ! c) l)}"
      "length (nbs ?ix c l) \<le> length (nbs ix (live ! c) l)" "distinct (nbs ?ix c l)"
      unfolding canon_nbs [OF ok order c(1) l] by (rule remap_ok [OF dist])+
    show "c < length live" "has_layer ix l (live ! c)" by (rule c)+
  qed
  have g: "graph_ok ix" using hnsw_okD(2) [OF ok] .
  have lim: "max_neighbors_for_layer ?ix l = max_neighbors_for_layer ix l" for l
    by (simp add: max_neighbors_for_layer_def canon_index_fields [OF ok])
  have "graph_closed ?ix"
    unfolding graph_closed_def
  proof (intro allI impI ballI)
    fix l c c' assume hl: "has_layer ?ix l c" and c': "c' \<in> set (nbs ?ix c l)"
    then have "c' < length live" "live ! c' \<in> set (nbs ix (live ! c) l)" using edge(1) by auto
    then show "has_layer ?ix l c'" using graph_okD(1) [OF g edge(5) [OF hl]] canon_has_layer [OF ok order] by blast
  qed
  moreover have "degrees_ok ?ix"
    unfolding degrees_ok_def lim
  proof (intro allI impI conjI)
    fix l c assume hl: "has_layer ?ix l c"
    note old = graph_okD(2,3) [OF g edge(5) [OF hl]]
    show "length (nbs ?ix c l) \<le> unat (max_neighbors_for_layer ix l)" using old(1) edge(2) [OF hl] by linarith
    have "c \<notin> set (nbs ?ix c l)" using old(2) edge(1) [OF hl] by simp
    then show "distinct (c # nbs ?ix c l)" using edge(3) [OF hl] by simp
  qed
  ultimately show ?thesis by (simp add: graph_ok_def)
qed


lemma canon_tops:
  assumes ok: "hnsw_ok h ix" and order: "canon_order ix live"
  shows "\<forall>t \<in> set (map hn_top_layer (canon_nodes ix live)). 0 \<le> t \<and> t < 2 ^ 31"
proof
  fix t assume "t \<in> set (map hn_top_layer (canon_nodes ix live))"
  then obtain c where c: "c < length live" "t = hn_top_layer (hx_nodes ix ! (live ! c))"
    by (auto simp: in_set_conv_nth canon_nodes_nth)
  then show "0 \<le> t \<and> t < 2 ^ 31" using live_node_ok [OF ok order c(1)] by (simp add: node_ok_def)
qed

lemma canon_entry_ok:
  assumes ok: "hnsw_ok h ix" and order: "canon_order ix live" and small: "length live < 2 ^ 31"
  shows "entry_point_ok (canon_index h ix live)"
proof (cases "live = []")
  case True
  then show ?thesis
    by (simp add: entry_point_ok_def canon_index_fields [OF ok] canonical_entry_of canon_nodes_def entry_of_Nil)
next
  case False
  let ?tops = "map hn_top_layer (canon_nodes ix live)"
  have "?tops \<noteq> []" using False by (simp add: canon_nodes_def)
  then obtain e where e: "e < length ?tops" "entry_of ?tops = (?tops ! e, word_of_nat e)" "\<forall>t \<in> set ?tops. t \<le> ?tops ! e"
    using entry_of_ok canon_tops [OF ok order] by metis
  have "unat (word_of_nat e :: u32) = e" using e(1) small by (simp add: unat_of_nat)
  then show ?thesis
    using e False by (auto simp: entry_point_ok_def canon_index_fields [OF ok] canonical_entry_of canon_nodes_def)
qed

lemma canon_contents:
  assumes ok: "hnsw_ok h ix" and order: "canon_order ix live"
  shows "hnsw_contents (canon_index h ix live) = hnsw_contents ix"
proof
  fix rid
  let ?ix = "canon_index h ix live"
  have new: "hnsw_contents ?ix rid = Some v \<longleftrightarrow> (\<exists>c < length live. hn_id (hx_nodes ix ! (live ! c)) = rid \<and> hn_vector (hx_nodes ix ! (live ! c)) = v)" for v
  proof -
    have find: "omap_find rid (hx_id_to_internal ?ix) = Some c \<longleftrightarrow> c < length live \<and> hn_id (hx_nodes ix ! (live ! c)) = rid" for c
      by (simp add: canon_index_fields [OF ok] id_entries_find [OF canon_ids_distinct [OF order]] canon_nodes_nth cong: conj_cong)
    have vec: "live_vector ?ix c = Some (hn_vector (hx_nodes ix ! (live ! c)))" if "c < length live" for c
      using live_in [OF order that] that by (simp add: live_vector_def canon_index_fields [OF ok] canon_nodes_nth)
    have "hnsw_contents ?ix rid = Some v \<longleftrightarrow> (\<exists>c. omap_find rid (hx_id_to_internal ?ix) = Some c \<and> live_vector ?ix c = Some v)"
      by (simp add: hnsw_contents_def split: option.split)
    then show ?thesis unfolding find by (simp add: vec cong: conj_cong)
  qed
  have old: "hnsw_contents ix rid = Some v \<longleftrightarrow> (\<exists>c < length live. hn_id (hx_nodes ix ! (live ! c)) = rid \<and> hn_vector (hx_nodes ix ! (live ! c)) = v)" for v
  proof -
    have find: "omap_find rid (hx_id_to_internal ix) = Some n \<longleftrightarrow> n < length (hx_nodes ix) \<and> hn_id (hx_nodes ix ! n) = rid" for n
      using id_tableD [OF hnsw_okD(1) [OF ok], of rid] by (simp cong: conj_cong)
    have vec: "n < length (hx_nodes ix) \<and> live_vector ix n = Some v \<longleftrightarrow> n \<in> set live \<and> hn_vector (hx_nodes ix ! n) = v" for n
    proof -
      have "n \<in> set live \<longleftrightarrow> n < length (hx_nodes ix) \<and> \<not> hn_deleted (hx_nodes ix ! n)"
        using order unfolding canon_order_def by (elim conjE) simp
      then show ?thesis by (cases "n < length (hx_nodes ix)") (simp_all add: live_vector_def)
    qed
    have "hnsw_contents ix rid = Some v \<longleftrightarrow> (\<exists>n. omap_find rid (hx_id_to_internal ix) = Some n \<and> live_vector ix n = Some v)"
      by (simp add: hnsw_contents_def split: option.split)
    also have "\<dots> \<longleftrightarrow> (\<exists>n \<in> set live. hn_id (hx_nodes ix ! n) = rid \<and> hn_vector (hx_nodes ix ! n) = v)"
      unfolding find Bex_def using vec by metis
    also have "\<dots> \<longleftrightarrow> (\<exists>c < length live. hn_id (hx_nodes ix ! (live ! c)) = rid \<and> hn_vector (hx_nodes ix ! (live ! c)) = v)"
      unfolding set_conv_nth by blast
    finally show ?thesis .
  qed
  show "hnsw_contents ?ix rid = hnsw_contents ix rid"
    using new old by (metis not_None_eq)
qed

lemma canon_index_ok:
  assumes ok: "hnsw_ok h ix" and order: "canon_order ix live" and dist: "distinct live" and small: "length live < 2 ^ 31"
  shows "hnsw_ok h (canon_index h ix live)"
proof -
  let ?ix = "canon_index h ix live"
  note f = canon_index_fields [OF ok]
  have "id_table (hx_id_to_internal ?ix) (map hn_id (hx_nodes ?ix))"
    using id_entries_find [OF canon_ids_distinct [OF order], where c = 0] by (auto simp: id_table_def f)
  moreover have "\<forall>node \<in> set (hx_nodes ?ix). node_ok (hx_width ?ix) node"
  proof
    fix node assume "node \<in> set (hx_nodes ?ix)"
    then obtain c where c: "c < length live" "node = canon_node live (hx_nodes ix ! (live ! c))"
      by (auto simp: f in_set_conv_nth canon_nodes_nth)
    then show "node_ok (hx_width ?ix) node" using live_node_ok [OF ok order c(1)] by (simp add: node_ok_def f)
  qed
  moreover have "live_nodes ?ix = hx_nodes ?ix"
    using live_in [OF order] by (intro filter_True) (auto simp: f in_set_conv_nth canon_nodes_nth)
  moreover have "params_ok h ?ix" using hnsw_okD(9) [OF ok] by (simp add: params_ok_def f)
  ultimately show ?thesis
    using canon_graph_ok [OF ok order dist] canon_entry_ok [OF ok order small] hnsw_okD(5,6) [OF ok]
    by (simp add: hnsw_ok_def f)
qed

text \<open>The canonical index is its own canonical form.\<close>

lemma canon_index_again:
  assumes ok: "hnsw_ok h ix" and order: "canon_order ix live" and dist: "distinct live"
  defines "ix' \<equiv> canon_index h ix live"
  shows "live_by_id ix' = Some [0..<length live]" "canon_nodes ix' [0..<length live] = canon_nodes ix live"
    "canonical_entry ix' [0..<length live] = canonical_entry ix live"
proof -
  note f = canon_index_fields [OF ok]
  have len: "length (hx_nodes ix') = length live" by (simp add: ix'_def f)
  have ids: "hn_id (hx_nodes ix' ! a) < hn_id (hx_nodes ix' ! b)" if "a < b" "b < length live" for a b
    using canon_ids_sorted [OF order] that by (simp add: ix'_def f sorted_wrt_iff_nth_less)
  have alive: "filter (\<lambda>i. \<not> hn_deleted (hx_nodes ix' ! i)) [0..<length (hx_nodes ix')] = [0..<length live]"
    unfolding len using live_in [OF order] by (intro filter_True) (auto simp: ix'_def f canon_nodes_nth)
  have "sorted_wrt (by_id ix') [0..<length live]"
    using ids by (auto simp: sorted_wrt_iff_nth_less)
  then have "sort_by (by_id ix') [0..<length live] = [0..<length live]"
  proof (intro by_id.sorted_unique_on [OF subset_UNIV mset_sort_by by_id.sort_by_sorted [OF subset_UNIV] sorted_by_id])
    fix x y assume "x \<in> set (sort_by (by_id ix') [0..<length live])" "y \<in> set (sort_by (by_id ix') [0..<length live])"
      "\<not> by_id ix' x y" "\<not> by_id ix' y x"
    then have xy: "x < length live" "y < length live" "\<not> by_id ix' x y" "\<not> by_id ix' y x" by simp_all
    show "x = y"
    proof (rule ccontr)
      assume "x \<noteq> y"
      then consider "x < y" | "y < x" by linarith
      then show False using ids xy by cases blast+
    qed
  qed
  then show "live_by_id ix' = Some [0..<length live]"
    unfolding live_by_id_def alive by (simp add: by_id.std_sort_defined)
  show nodes: "canon_nodes ix' [0..<length live] = canon_nodes ix live"
  proof (rule nth_equalityI)
    fix c assume "c < length (canon_nodes ix' [0..<length live])"
    then have c: "c < length live" by simp
    let ?node = "hx_nodes ix ! (live ! c)"
    have l: "length (hn_neighbors ?node) = nat (hn_top_layer ?node + 1)"
      using live_node_ok [OF ok order c] by (simp add: node_ok_def)
    have "canon_layer [0..<length live] (canon_node live ?node) l = canon_layer live ?node l" if "l < nat (hn_top_layer ?node + 1)" for l
    proof -
      have "canon_layer [0..<length live] (canon_node live ?node) l = remap [0..<length live] (remap live (hn_neighbors ?node ! l))"
        using that \<open>length (hn_neighbors ?node) = _\<close> by (simp add: canon_layer_def canon_node_def)
      also have "\<dots> = remap live (hn_neighbors ?node ! l)"
        using remap_ok [OF dist] by (intro remap_id) auto
      finally show ?thesis using that l by (simp add: canon_layer_def)
    qed
    then have "canon_node [0..<length live] (canon_node live ?node) = canon_node live ?node"
      by (simp add: canon_node_def [of "[0..<length live]"]) (simp add: canon_node_def)
    then show "canon_nodes ix' [0..<length live] ! c = canon_nodes ix live ! c"
      using c by (simp add: canon_nodes_nth) (simp add: ix'_def f canon_nodes_nth)
  qed simp
  show "canonical_entry ix' [0..<length live] = canonical_entry ix live"
    unfolding canonical_entry_of nodes ..
qed



section \<open>The round trip\<close>

text \<open>What fits the 32-bit length prefixes.\<close>

definition ids_fit :: "hnsw_index \<Rightarrow> bool" where
  "ids_fit ix \<longleftrightarrow> (\<forall>node \<in> set (hx_nodes ix). length (hn_id node) < 2 ^ 32)"

lemma canon_stored:
  assumes ok: "hnsw_ok h ix" and order: "canon_order ix live" and dist: "distinct live" and small: "length live < 2 ^ 31"
    and fit: "ids_fit ix" and node: "node \<in> set (canon_nodes ix live)"
  shows "stored_node (word_of_nat (length live)) node"
proof -
  obtain c where c: "c < length live" "node = canon_node live (hx_nodes ix ! (live ! c))"
    using node by (auto simp: in_set_conv_nth canon_nodes_nth)
  have cnt: "unat (word_of_nat (length live) :: u32) = length live" using small by (simp add: unat_of_nat)
  have "length xs < 2 ^ 32 \<and> (\<forall>x \<in> set xs. x < length live)" if xs: "xs \<in> set (hn_neighbors node)" for xs
  proof -
    obtain l where "xs = canon_layer live (hx_nodes ix ! (live ! c)) l" using xs c by (auto simp: canon_node_def)
    then consider "xs = []" | ys where "xs = remap live ys" by (auto simp: canon_layer_def split: if_splits)
    then show ?thesis
    proof cases
      case 2
      have sub: "\<forall>x \<in> set xs. x < length live" using remap_ok(1) [OF dist] 2 by simp
      have "length xs = card (set xs)" using remap_ok(3) [OF dist] 2 distinct_card by metis
      also have "\<dots> \<le> card {..<length live}" by (rule card_mono) (use sub in auto)
      finally show ?thesis using sub small by simp
    qed simp
  qed
  then show ?thesis
    using c live_node_ok [OF ok order c(1)] live_in [OF order c(1)] fit cnt
    by (auto simp: stored_node_def node_ok_def ids_fit_def)
qed

definition int_of_level :: "u32 \<Rightarrow> int" where
  "int_of_level w = (if w = 0xFFFFFFFF then -1 else int_of_u32 (unat w))"

lemma canon_entry_fields:
  assumes ok: "hnsw_ok h ix" and order: "canon_order ix live" and small: "length live < 2 ^ 31"
  shows "int_of_level (word_of_int (fst (canonical_entry ix live))) = fst (canonical_entry ix live) \<and>
    (live \<noteq> [] \<longrightarrow> unat (snd (canonical_entry ix live)) < length live)"
proof (cases "live = []")
  case True
  then show ?thesis by (simp add: canonical_entry_of canon_nodes_def entry_of_Nil int_of_level_def)
next
  case False
  let ?tops = "map hn_top_layer (canon_nodes ix live)"
  have ne: "?tops \<noteq> []" using False by (simp add: canon_nodes_def)
  have tops: "\<forall>t \<in> set ?tops. 0 \<le> t" using canon_tops [OF ok order] by blast
  obtain e where e: "e < length ?tops" "entry_of ?tops = (?tops ! e, word_of_nat e)"
    using entry_of_ok [OF ne tops] by (elim exE conjE)
  have t: "0 \<le> ?tops ! e" "?tops ! e < 2 ^ 31" using canon_tops [OF ok order] nth_mem [OF e(1)] by blast+
  note lvl = int_of_u32_level [OF t]
  have "word_of_int (?tops ! e) \<noteq> (0xFFFFFFFF :: u32)"
  proof
    assume "word_of_int (?tops ! e) = (0xFFFFFFFF :: u32)"
    then show False using lvl t by (simp add: int_of_u32_def)
  qed
  moreover have "unat (word_of_nat e :: u32) = e" using e(1) small by (simp add: unat_of_nat)
  ultimately show ?thesis using e lvl by (simp add: canonical_entry_of int_of_level_def)
qed

text \<open>Reading back any nodes that can be stored, graph or not.\<close>

abbreviation stored_params :: "hnsw_index \<Rightarrow> index_params" where
  "stored_params ix \<equiv> default_index_params\<lparr>ip_m := hx_max_neighbors_upper ix,
     ip_ef_construction := hx_ef_construction ix, ip_seed := hx_rng_seed ix\<rparr>"

lemma deserialize_stored:
  assumes nodes: "\<forall>node \<in> set nodes. stored_node (word_of_nat (length nodes)) node \<and>
      (\<exists>cs. vector_for (hn_id node) = Some cs \<and> take (unat dm) cs = hn_vector node)"
    and dist: "distinct (map hn_id nodes)" and small: "length nodes < 2 ^ 32"
    and len: "length (hnsw_bytes ix me nodes) < 2 ^ 64"
  shows "hnsw_deserialize h dm metric (hnsw_bytes ix me nodes) vector_for =
    (let ix' = (new_hnsw h dm metric (stored_params ix))\<lparr>hx_id_to_internal := id_entries 0 nodes, hx_nodes := nodes,
          hx_live_count := word_of_nat (length nodes), hx_max_level := int_of_level (word_of_int (fst me))\<rparr> in
     if nodes = [] then Some (ix'\<lparr>hx_entry_point := -1\<rparr>)
     else if snd me = 0xFFFFFFFF \<or> length nodes \<le> unat (snd me) then None
     else Some (ix'\<lparr>hx_entry_point := int_of_u32 (unat (snd me))\<rparr>))"
proof -
  let ?cnt = "word_of_nat (length nodes) :: u32" and ?data = "hnsw_bytes ix me nodes"
    and ?body = "concat (map node_bytes nodes) @ []"
  let ?b6 = "le_bytes32 (snd me) @ ?body"
  let ?b5 = "le_bytes32 (word_of_int (fst me)) @ ?b6"
  let ?b4 = "le_bytes32 ?cnt @ ?b5"
  let ?b3 = "le_bytes64 (hx_rng_seed ix) @ ?b4"
  let ?b2 = "le_bytes32 (hx_ef_construction ix) @ ?b3"
  have "reads (new_reader ?data) (le_bytes32 (hx_max_neighbors_upper ix) @ ?b2)"
    using reads_new [OF len] by (simp add: hnsw_bytes_def)
  then obtain r1 where r1: "get_u32 (new_reader ?data) = (hx_max_neighbors_upper ix, r1)" "reads r1 ?b2" using u32.dec_step by blast
  obtain r2 where r2: "get_u32 r1 = (hx_ef_construction ix, r2)" "reads r2 ?b3" using u32.dec_step r1(2) by blast
  obtain r3 where r3: "get_u64 r2 = (hx_rng_seed ix, r3)" "reads r3 ?b4" using u64.dec_step r2(2) by blast
  obtain r4 where r4: "get_u32 r3 = (?cnt, r4)" "reads r4 ?b5" using u32.dec_step r3(2) by blast
  obtain r5 where r5: "get_u32 r4 = (word_of_int (fst me), r5)" "reads r5 ?b6" using u32.dec_step r4(2) by blast
  obtain r6 where r6: "get_u32 r5 = (snd me, r6)" "reads r6 ?body" "rd_ok r6" using u32.dec_step r5(2) by blast
  let ?new = "new_hnsw h dm metric (stored_params ix)"
  have new: "hx_dimensionality ?new = dm" "hx_id_to_internal ?new = []" "hx_nodes ?new = []"
    by (simp_all add: new_hnsw_def Let_def)
  obtain r7 where r7: "read_nodes (length nodes) 0 ?cnt vector_for r6 ?new =
      Some (?new\<lparr>hx_id_to_internal := id_entries 0 nodes @ hx_id_to_internal ?new, hx_nodes := hx_nodes ?new @ nodes\<rparr>, r7)"
    "reads r7 []"
    using read_nodes_reads [OF r6(2), of ?cnt vector_for ?new 0] nodes dist new(1,2) by auto
  have cnt: "unat ?cnt = length nodes" using small by (simp add: unat_of_nat)
  have end_ok: "rd_ok r7" "remaining r7 = 0" using r7(2) reads_remaining by (force simp: reads_def)+
  have ucast: "ucast ?cnt = (word_of_nat (length nodes) :: u64)"
    using small by (simp add: word_unat_eq_iff unsigned_ucast_eq unat_of_nat take_bit_nat_eq_self)
  have zero: "?cnt = 0 \<longleftrightarrow> nodes = []" using cnt by (metis length_0_conv unat_eq_0)
  have le: "?cnt \<le> snd me \<longleftrightarrow> length nodes \<le> unat (snd me)" using cnt by (simp add: word_le_nat_alt)
  show ?thesis
    using r1(1) r2(1) r3(1) r4(1) r5(1) r6(1,3) r7(1) end_ok cnt new(2,3)
    unfolding hnsw_deserialize_def Let_def zero le int_of_level_def ucast by (simp add: zero le ucast)
qed

lemma hnsw_deserialize_bytes:
  assumes ok: "hnsw_ok h ix" and order: "canon_order ix live" and dist: "distinct live" and small: "length live < 2 ^ 31"
    and fit: "ids_fit ix"
    and vec: "\<forall>rid v. hnsw_contents ix rid = Some v \<longrightarrow> (\<exists>cs. vector_for rid = Some cs \<and> take (hx_width ix) cs = v)"
    and len: "length (hnsw_bytes ix (canonical_entry ix live) (canon_nodes ix live)) < 2 ^ 64"
  shows "hnsw_deserialize h (hx_dimensionality ix) (hx_metric ix) (hnsw_bytes ix (canonical_entry ix live) (canon_nodes ix live)) vector_for
    = Some (canon_index h ix live)"
proof -
  let ?me = "canonical_entry ix live" and ?nodes = "canon_nodes ix live"
  have nodes: "\<forall>node \<in> set ?nodes. stored_node (word_of_nat (length ?nodes)) node \<and>
      (\<exists>cs. vector_for (hn_id node) = Some cs \<and> take (hx_width ix) cs = hn_vector node)"
  proof
    fix node assume node: "node \<in> set ?nodes"
    then obtain c where c: "c < length live" "node = canon_node live (hx_nodes ix ! (live ! c))"
      by (auto simp: in_set_conv_nth canon_nodes_nth)
    have "omap_find (hn_id node) (hx_id_to_internal ix) = Some (live ! c)"
      using id_tableD [OF hnsw_okD(1) [OF ok]] live_in [OF order c(1)] c(2) by simp
    then have "hnsw_contents ix (hn_id node) = Some (hn_vector node)"
      using live_in [OF order c(1)] c(2) by (simp add: hnsw_contents_def live_vector_def)
    then show "stored_node (word_of_nat (length ?nodes)) node \<and>
        (\<exists>cs. vector_for (hn_id node) = Some cs \<and> take (hx_width ix) cs = hn_vector node)"
      using vec canon_stored [OF ok order dist small fit node] by simp
  qed
  have n: "length ?nodes < 2 ^ 32" using small by simp
  note run = deserialize_stored [OF nodes canon_ids_distinct [OF order] n len, of h "hx_metric ix"]
  have fields: "int_of_level (word_of_int (fst ?me)) = fst ?me" "live \<noteq> [] \<Longrightarrow> unat (snd ?me) < length live"
    using canon_entry_fields [OF ok order small] by blast+
  show ?thesis
  proof (cases "live = []")
    case True
    then show ?thesis unfolding run fields(1) by (simp add: canon_index_def canon_nodes_def)
  next
    case False
    have e: "unat (snd ?me) < length live" by (rule fields(2) [OF False])
    then have "\<not> length ?nodes \<le> unat (snd ?me)" "snd ?me \<noteq> 0xFFFFFFFF" "?nodes \<noteq> []"
      using small False by (auto simp: canon_nodes_def)
    then show ?thesis
      unfolding run Let_def fields(1) using False e small by (simp add: canon_index_def int_of_u32_def)
  qed
qed

text \<open>Reading back the byte form of a well-formed index.\<close>

lemma hnsw_serialize_ok:
  assumes ok: "hnsw_ok h ix" and small: "hnsw_slots ix < 2 ^ 31"
  obtains live where "hnsw_serialize ix = Some (hnsw_bytes ix (canonical_entry ix live) (canon_nodes ix live))"
    "canon_order ix live" "distinct live" "length live < 2 ^ 31" "length live \<le> hnsw_slots ix"
proof -
  obtain live where l: "live_by_id ix = Some live" "canon_order ix live" "distinct live" "length live = length (live_nodes ix)"
    using live_by_id_order id_table_distinct [OF hnsw_okD(1) [OF ok]] by blast
  have "length (live_nodes ix) \<le> hnsw_slots ix" by (rule length_filter_le)
  then show ?thesis using that l small by (simp add: hnsw_serialize_bytes)
qed

lemma hnsw_roundtrip:
  assumes ok: "hnsw_ok h ix" and small: "hnsw_slots ix < 2 ^ 31" and fit: "ids_fit ix"
    and vec: "\<forall>rid v. hnsw_contents ix rid = Some v \<longrightarrow> (\<exists>cs. vector_for rid = Some cs \<and> take (hx_width ix) cs = v)"
    and data: "hnsw_serialize ix = Some bs" and len: "length bs < 2 ^ 64"
  shows "\<exists>ix'. hnsw_deserialize h (hx_dimensionality ix) (hx_metric ix) bs vector_for = Some ix' \<and> hnsw_ok h ix'
    \<and> hnsw_contents ix' = hnsw_contents ix \<and> hnsw_serialize ix' = Some bs \<and> hnsw_slots ix' \<le> hnsw_slots ix
    \<and> hx_dimensionality ix' = hx_dimensionality ix \<and> hx_metric ix' = hx_metric ix \<and> ids_fit ix'"
proof -
  obtain live where l: "bs = hnsw_bytes ix (canonical_entry ix live) (canon_nodes ix live)"
    "canon_order ix live" "distinct live" "length live < 2 ^ 31" "length live \<le> hnsw_slots ix"
    using hnsw_serialize_ok [OF ok small] data by (metis option.inject)
  let ?ix = "canon_index h ix live"
  note f = canon_index_fields [OF ok] and again = canon_index_again [OF ok l(2,3)]
  have des: "hnsw_deserialize h (hx_dimensionality ix) (hx_metric ix) bs vector_for = Some ?ix"
    using hnsw_deserialize_bytes [OF ok l(2-4) fit vec] len unfolding l(1) by blast
  have "hnsw_serialize ?ix = Some (hnsw_bytes ?ix (canonical_entry ix live) (canon_nodes ix live))"
    unfolding hnsw_serialize_bytes again by (simp add: again)
  then have ser: "hnsw_serialize ?ix = Some bs" by (simp add: l(1) hnsw_bytes_def f)
  have "ids_fit ?ix"
    using canon_stored [OF ok l(2-4) fit] by (simp add: ids_fit_def f stored_node_def)
  then show ?thesis
    using des ser canon_index_ok [OF ok l(2-4)] canon_contents [OF ok l(2)] l(5) by (simp add: f)
qed



section \<open>Properties\<close>

text \<open>A graph of one node, for the example.\<close>

definition one_node :: hnsw_index where
  "one_node = (new_hnsw plain_host 1 Euclidean demo_params)
     \<lparr>hx_nodes := [\<lparr>hn_id = ''a'', hn_vector = [f32_one], hn_top_layer = 0, hn_deleted = False, hn_neighbors = [[]]\<rparr>],
      hx_id_to_internal := [(''a'', 0)], hx_live_count := 1, hx_draws := 1, hx_entry_point := 0, hx_max_level := 0\<rparr>"

lemma one_node_ok: "hnsw_ok plain_host one_node"
proof -
  let ?new = "new_hnsw plain_host 1 Euclidean demo_params"
  have f: "hx_dimensionality ?new = 1" "hx_id_to_internal ?new = []" "hx_draws ?new = 0" "hx_nodes ?new = []" "hx_entry_point ?new = -1"
    "hx_live_count ?new = 0" "hx_rng_seed ?new = 7" "hx_metric ?new = Euclidean"
    by (simp_all add: new_hnsw_def demo_params_def Let_def)
  have "level_of_draw plain_host f64_one f64_one = Some 0"
    by (simp add: level_of_draw_def plain_arithmetic plain_casts) (simp add: plain_host_def plain_arithmetic plain_casts)
  then have "random_top_layer plain_host ?new = Some (0, ?new\<lparr>hx_draws := 1\<rparr>)"
    unfolding random_top_layer_def plain_scale f by (simp add: plain_host_def)
  then have add: "hnsw_add plain_host ?new ''a'' [f32_one] = Some (Inr (), one_node)"
    by (simp add: hnsw_add_def f link_node_def append_node_def one_node_def int_of_u32_def)
  have nan: "nan_free plain_host Euclidean (unat (1::u32))" by (rule nan_free_scalar) (simp_all add: plain_host_def)
  have lvl: "levels_ok plain_host (hx_level_scale ?new) (ip_seed demo_params)" unfolding plain_scale by (rule plain_levels)
  note new = new_hnsw_ok [OF nan lvl]
  have "finite_vec [f32_one]" by (simp, code_simp)
  then show ?thesis using hnsw.add_ok [OF new(1), of "''a''" "[f32_one]"] add new(3,4) by simp
qed

lemma one_node_serialize: "\<exists>bs. hnsw_serialize one_node = Some bs \<and> length bs = 41"
proof -
  have f: "hx_nodes one_node = [\<lparr>hn_id = ''a'', hn_vector = [f32_one], hn_top_layer = 0, hn_deleted = False, hn_neighbors = [[]]\<rparr>]"
    by (simp add: one_node_def)
  have "live_by_id one_node = Some [0]"
    by (simp add: live_by_id_def f by_id.std_sort_defined [where ix = one_node, unfolded f])
  then show ?thesis
    by (simp add: hnsw_serialize_bytes hnsw_bytes_def canon_nodes_def f canon_node_def canon_layer_def remap_def node_bytes_def adj_bytes_def)
qed

text \<open>
  C14: the byte form of a well-formed graph index round-trips: reading it back, with any lookup that
  supplies the vectors, gives a well-formed index over the same records, tombstones gone, whose own
  byte form is the same, so that saving, loading and saving again changes no byte of the region.
\<close>

theorem hnsw_save_load_save:
  assumes "hnsw_ok h ix" "hnsw_slots ix < 2 ^ 31" "ids_fit ix" "hnsw_serialize ix = Some bs" "length bs < 2 ^ 64"
    and "\<forall>rid v. hnsw_contents ix rid = Some v \<longrightarrow> (\<exists>cs. vector_for rid = Some cs \<and> take (hx_width ix) cs = v)"
  shows "\<exists>ix'. hnsw_deserialize h (hx_dimensionality ix) (hx_metric ix) bs vector_for = Some ix' \<and> hnsw_ok h ix'
    \<and> hnsw_contents ix' = hnsw_contents ix \<and> hnsw_serialize ix' = Some bs"
  using hnsw_roundtrip [OF assms(1-3,6,4,5)] by blast

theorem hnsw_save_load_save_witness:
  "\<exists>bs ix'. hnsw_serialize one_node = Some bs \<and> hnsw_deserialize plain_host 1 Euclidean bs (\<lambda>_. Some [f32_one]) = Some ix'
     \<and> hnsw_contents ix' ''a'' = Some [f32_one] \<and> hnsw_serialize ix' = Some bs"
proof -
  obtain bs where bs: "hnsw_serialize one_node = Some bs" "length bs = 41" using one_node_serialize by blast
  have f: "hx_dimensionality one_node = 1" "hx_metric one_node = Euclidean" "hnsw_slots one_node = 1"
    "hx_id_to_internal one_node = [(''a'', 0)]"
    "hx_nodes one_node = [\<lparr>hn_id = ''a'', hn_vector = [f32_one], hn_top_layer = 0, hn_deleted = False, hn_neighbors = [[]]\<rparr>]"
    by (simp_all add: one_node_def new_hnsw_def Let_def)
  have c: "hnsw_contents one_node rid = (if rid = ''a'' then Some [f32_one] else None)" for rid
    by (simp add: hnsw_contents_def live_vector_def f)
  have small: "hnsw_slots one_node < 2 ^ 31" "ids_fit one_node" "length bs < 2 ^ 64" using bs(2) by (simp_all add: f ids_fit_def)
  have vec: "\<forall>rid v. hnsw_contents one_node rid = Some v \<longrightarrow> (\<exists>cs. Some [f32_one] = Some cs \<and> take (hx_width one_node) cs = v)"
    by (simp add: c f)
  from hnsw_save_load_save [OF one_node_ok small(1,2) bs(1) small(3) vec] show ?thesis
    using bs(1) c f(1,2) by auto
qed

text \<open>
  What is read back is not checked to be a graph.  An edge to a node that does not reach the
  edge's layer is accepted, and a search whose descent follows that edge then indexes the node's
  adjacency lists out of bounds.
\<close>

definition bad_edge_nodes :: "f32 list \<Rightarrow> f32 list \<Rightarrow> hnsw_node list" where
  "bad_edge_nodes va vb =
     [\<lparr>hn_id = ''a'', hn_vector = va, hn_top_layer = 1, hn_deleted = False, hn_neighbors = [[1], [1]]\<rparr>,
      \<lparr>hn_id = ''b'', hn_vector = vb, hn_top_layer = 0, hn_deleted = False, hn_neighbors = [[0]]\<rparr>]"

text \<open>The image does not hold the vectors.\<close>

definition bad_edge_image :: "u8 list" where
  "bad_edge_image = hnsw_bytes one_node (1, 0) (bad_edge_nodes [] [])"

theorem hnsw_deserialize_accepts_bad_edge:
  assumes "length va = 1" "length vb = 1" "k \<noteq> 0"
    and "f32_lt (distance_or_inf (h_calculator h) Euclidean q vb) (distance_or_inf (h_calculator h) Euclidean q va)"
  shows "\<exists>ix. hnsw_deserialize h 1 Euclidean bad_edge_image [''a'' \<mapsto> va, ''b'' \<mapsto> vb] = Some ix
     \<and> hnsw_search h ix q k params = undefined_behaviour"
proof -
  let ?nodes = "bad_edge_nodes va vb"
  have image: "bad_edge_image = hnsw_bytes one_node (1, 0) ?nodes"
    by (simp add: bad_edge_image_def hnsw_bytes_def bad_edge_nodes_def node_bytes_def)
  have nodes: "\<forall>node \<in> set ?nodes. stored_node (word_of_nat (length ?nodes)) node \<and>
      (\<exists>cs. [''a'' \<mapsto> va, ''b'' \<mapsto> vb] (hn_id node) = Some cs \<and> take (unat (1::u32)) cs = hn_vector node)"
    using assms(1,2) by (simp add: bad_edge_nodes_def stored_node_def)
  have len: "length (hnsw_bytes one_node (1, 0) ?nodes) < 2 ^ 64"
    by (simp add: hnsw_bytes_def bad_edge_nodes_def node_bytes_def adj_bytes_def)
  have dist: "distinct (map hn_id ?nodes)" "length ?nodes < 2 ^ 32" "?nodes \<noteq> []" "length ?nodes = 2"
    by (simp_all add: bad_edge_nodes_def)
  let ?ix = "(new_hnsw h 1 Euclidean (stored_params one_node))\<lparr>hx_id_to_internal := id_entries 0 ?nodes, hx_nodes := ?nodes,
      hx_live_count := 2, hx_max_level := 1, hx_entry_point := 0\<rparr>"
  have run: "hnsw_deserialize h 1 Euclidean bad_edge_image [''a'' \<mapsto> va, ''b'' \<mapsto> vb] = Some ?ix"
    unfolding image deserialize_stored [OF nodes dist(1,2) len] Let_def
    using dist(3,4) by (simp add: int_of_level_def int_of_u32_def)
  have metric: "hx_metric ?ix = Euclidean" by (simp add: new_hnsw_def Let_def)
  have d: "distance_to h ?ix q 0 = Some (distance_or_inf (h_calculator h) Euclidean q va)"
    "distance_to h ?ix q 1 = Some (distance_or_inf (h_calculator h) Euclidean q vb)"
    unfolding distance_to_def metric by (simp_all add: bad_edge_nodes_def elem_at_def)
  have nb: "neighbors_at ?ix 0 1 = Some [1]" "neighbors_at ?ix 1 1 = None"
    by (simp_all add: neighbors_at_def bad_edge_nodes_def elem_at_def)
  have "greedy_loop h ?ix q 1 1 x = None" for x by (subst greedy_loop.simps) (simp only: nb option.case)
  then have "greedy_loop h ?ix q 1 0 (distance_or_inf (h_calculator h) Euclidean q va) = None"
    by (subst greedy_loop.simps) (simp only: nb option.case greedy_scan.simps d assms(4) if_True prod.case)
  then have "greedy_descend h ?ix q 0 1 = None" by (simp only: greedy_descend_def d option.case)
  moreover have "layers_down 1 0 = [1]" by code_simp
  ultimately have "descend h ?ix q (layers_down 1 0) 0 = None" by (simp only: descend_def ofold.simps option.case)
  then have "hnsw_search h ?ix q k params = None" using assms(3) by (simp add: hnsw_search_def)
  then show ?thesis using run by (intro exI [of _ ?ix]) simp
qed

theorem hnsw_deserialize_accepts_bad_edge_witness:
  "\<exists>ix. hnsw_deserialize plain_host 1 Euclidean bad_edge_image [''a'' \<mapsto> [f32_one], ''b'' \<mapsto> [f32_zero]] = Some ix
     \<and> hnsw_search plain_host ix [f32_zero] 1 default_query_params = undefined_behaviour"
proof (rule hnsw_deserialize_accepts_bad_edge)
  show "f32_lt (distance_or_inf (h_calculator plain_host) Euclidean [f32_zero] [f32_zero])
      (distance_or_inf (h_calculator plain_host) Euclidean [f32_zero] [f32_one])"
    by (simp add: plain_host_def distance_eval Let_def)
      (simp add: fl_eval f32_lt_def fp_lt_def fkey_def cong: let_weak_cong)
qed simp_all

end
