(* ===== verification/Collection_Spec.thy ===== *)
theory Collection_Spec
  imports Collection
begin

text \<open>
  What a collection promises: it is a finite map from identifiers to vectors with metadata.  The
  invariant ties the records, the blocks held under the collection's tag, the record count and the
  index together; every operation keeps it, implements the map operation, and leaves the blocks
  of every other tag alone.
\<close>

section \<open>The abstract view and the invariant\<close>

definition rec_vector :: "collection \<Rightarrow> allocator \<Rightarrow> record_id \<Rightarrow> f32 list option" where
  "rec_vector c a rid =
     (case omap_find rid (co_records c) of None \<Rightarrow> None | Some slot \<Rightarrow> slot_components c a slot)"

definition coll_view :: "collection \<Rightarrow> allocator \<Rightarrow> record_id \<Rightarrow> (f32 list \<times> metadata option) option" where
  "coll_view c a rid =
     (case omap_find rid (co_records c) of
        None \<Rightarrow> None
      | Some slot \<Rightarrow> map_option (\<lambda>v. (v, slot_meta slot)) (slot_components c a slot))"

definition in_arena :: "block \<Rightarrow> bool" where
  "in_arena b \<longleftrightarrow> (\<exists>off. blk_data b = ArenaPtr off)"

definition slot_ok :: "collection \<Rightarrow> allocator \<Rightarrow> record_slot \<Rightarrow> bool" where
  "slot_ok c a slot \<longleftrightarrow>
     (\<exists>v. slot_components c a slot = Some v \<and> length v = co_dim c \<and> finite_vec v) \<and>
     (in_arena (vector_block slot) \<longrightarrow> blk_size (vector_block slot) = 4 * co_dim c)"

definition slots_ok :: "collection \<Rightarrow> allocator \<Rightarrow> bool" where
  "slots_ok c a \<longleftrightarrow> (\<forall>rid slot. omap_find rid (co_records c) = Some slot \<longrightarrow> rid \<noteq> [] \<and> slot_ok c a slot)"

text \<open>The arena blocks of a record map, the one of a given record, and: no two records share one.\<close>

definition arena_blocks :: "(record_id, record_slot) omap \<Rightarrow> block set" where
  "arena_blocks m = {b. in_arena b \<and> (\<exists>rid slot. omap_find rid m = Some slot \<and> vector_block slot = b)}"

definition old_blocks :: "(record_id, record_slot) omap \<Rightarrow> record_id \<Rightarrow> block set" where
  "old_blocks m rid = {b. in_arena b \<and> (\<exists>slot. omap_find rid m = Some slot \<and> vector_block slot = b)}"

definition distinct_blocks :: "(record_id, record_slot) omap \<Rightarrow> bool" where
  "distinct_blocks m \<longleftrightarrow> (\<forall>r1 s1 r2 s2. omap_find r1 m = Some s1 \<longrightarrow> omap_find r2 m = Some s2 \<longrightarrow>
     in_arena (vector_block s1) \<longrightarrow> vector_block s1 = vector_block s2 \<longrightarrow> r1 = r2)"

abbreviation coll_blocks :: "collection \<Rightarrow> block set" where
  "coll_blocks c \<equiv> arena_blocks (co_records c)"

lemma old_blocks_sub: "old_blocks m rid \<subseteq> arena_blocks m"
  by (auto simp: old_blocks_def arena_blocks_def)

lemma arena_blocksI: "omap_find rid m = Some slot \<Longrightarrow> in_arena (vector_block slot) \<Longrightarrow> vector_block slot \<in> arena_blocks m"
  by (auto simp: arena_blocks_def)

lemma arena_blocks_minus:
  assumes "distinct_blocks m"
  shows "arena_blocks m - old_blocks m rid
    = {b. in_arena b \<and> (\<exists>r slot. r \<noteq> rid \<and> omap_find r m = Some slot \<and> vector_block slot = b)}"
proof (intro set_eqI iffI)
  fix b assume "b \<in> arena_blocks m - old_blocks m rid"
  then show "b \<in> {b. in_arena b \<and> (\<exists>r slot. r \<noteq> rid \<and> omap_find r m = Some slot \<and> vector_block slot = b)}"
    by (auto simp: arena_blocks_def old_blocks_def)
next
  fix b assume "b \<in> {b. in_arena b \<and> (\<exists>r slot. r \<noteq> rid \<and> omap_find r m = Some slot \<and> vector_block slot = b)}"
  then obtain r slot where b: "in_arena b" "r \<noteq> rid" "omap_find r m = Some slot" "vector_block slot = b" by blast
  have "False" if "omap_find rid m = Some s" "vector_block s = b" for s
    using assms [unfolded distinct_blocks_def, rule_format, OF b(3) that(1)] b that(2) by simp
  then have "b \<notin> old_blocks m rid" by (auto simp: old_blocks_def)
  then show "b \<in> arena_blocks m - old_blocks m rid" using b by (auto simp: arena_blocks_def)
qed

lemma arena_blocks_set:
  assumes "distinct_blocks m" and b: "in_arena (vector_block slot)"
  shows "arena_blocks (omap_set rid slot m) = Set.insert (vector_block slot) (arena_blocks m - old_blocks m rid)"
  unfolding arena_blocks_minus [OF assms(1)] using b by (auto simp: arena_blocks_def omap_find_set)

lemma arena_blocks_erase:
  assumes "distinct_blocks m" "omap_ok m"
  shows "arena_blocks (omap_erase rid m) = arena_blocks m - old_blocks m rid"
  unfolding arena_blocks_minus [OF assms(1)] using omap_ok_distinct [OF assms(2)]
  by (auto simp: arena_blocks_def omap_find_erase)

lemma distinct_blocks_set:
  assumes d: "distinct_blocks m" and new: "vector_block slot \<notin> arena_blocks m"
  shows "distinct_blocks (omap_set rid slot m)"
  unfolding distinct_blocks_def
proof (intro allI impI)
  fix r1 s1 r2 s2
  assume f: "omap_find r1 (omap_set rid slot m) = Some s1" "omap_find r2 (omap_set rid slot m) = Some s2"
    "in_arena (vector_block s1)" "vector_block s1 = vector_block s2"
  have fresh: "\<not> in_arena (vector_block slot)" if "omap_find r m = Some s" "vector_block s = vector_block slot" for r s
    using arena_blocksI [OF that(1)] that(2) new by auto
  show "r1 = r2"
    using f fresh d unfolding distinct_blocks_def
    by (cases "r1 = rid"; cases "r2 = rid") (auto simp: omap_find_set)
qed

lemma distinct_blocks_erase: "omap_ok m \<Longrightarrow> distinct_blocks m \<Longrightarrow> distinct_blocks (omap_erase rid m)"
  unfolding distinct_blocks_def by (simp add: omap_find_erase omap_ok_distinct) blast

definition index_matches :: "host \<Rightarrow> collection \<Rightarrow> allocator \<Rightarrow> bool" where
  "index_matches h c a \<longleftrightarrow>
     (case co_index c of
        None \<Rightarrow> co_index_type c = NoIndex
      | Some ix \<Rightarrow> index_ok h ix \<and> index_width ix = co_dim c \<and>
          index_dist h ix = distance_or_inf (h_calculator h) (cfg_metric (co_config c)) \<and>
          index_contents ix = rec_vector c a \<and> co_index_type c = index_type_of ix)"

text \<open>
  The invariant while the blocks \<open>E\<close> are staged: held under the tag, filled or not, and not yet
  in a record.
\<close>

definition coll_staged :: "host \<Rightarrow> collection \<Rightarrow> allocator \<Rightarrow> block set \<Rightarrow> bool" where
  "coll_staged h c a E \<longleftrightarrow>
     omap_ok (co_records c) \<and> co_record_count c = word_of_nat (length (co_records c)) \<and>
     length (co_records c) < 2 ^ 31 \<and> slots_ok c a \<and> distinct_blocks (co_records c) \<and>
     held_blocks a (co_tag c) = coll_blocks c \<union> E \<and> coll_blocks c \<inter> E = {} \<and>
     (\<forall>b \<in> E. blk_size b = 4 * co_dim c) \<and> index_matches h c a"

definition coll_ok :: "host \<Rightarrow> collection \<Rightarrow> allocator \<Rightarrow> bool" where
  "coll_ok h c a \<longleftrightarrow> coll_staged h c a {}"

lemma coll_stagedD:
  assumes "coll_staged h c a E"
  shows "omap_ok (co_records c)" "co_record_count c = word_of_nat (length (co_records c))"
    "length (co_records c) < 2 ^ 31" "slots_ok c a" "distinct_blocks (co_records c)"
    "held_blocks a (co_tag c) = coll_blocks c \<union> E" "coll_blocks c \<inter> E = {}"
    "\<forall>b \<in> E. blk_size b = 4 * co_dim c" "index_matches h c a"
  using assms unfolding coll_staged_def by blast+

text \<open>Room for \<open>n\<close> more records, and for as many entries of the index, tombstones included.\<close>

definition index_used :: "collection \<Rightarrow> nat" where
  "index_used c = (case co_index c of None \<Rightarrow> 0 | Some ix \<Rightarrow> index_slots ix)"

definition coll_room :: "nat \<Rightarrow> collection \<Rightarrow> bool" where
  "coll_room n c \<longleftrightarrow> length (co_records c) + n < 2 ^ 31 \<and> index_used c + n < 2 ^ 31"

text \<open>What an operation on one tag leaves alone.\<close>

definition others_kept :: "collection_tag \<Rightarrow> allocator \<Rightarrow> allocator \<Rightarrow> bool" where
  "others_kept t a a' \<longleftrightarrow> (\<forall>t'. t' \<noteq> t \<longrightarrow> held_blocks a' t' = held_blocks a t' \<and>
     (\<forall>b \<in> held_blocks a t'. \<forall>k. 4 * k \<le> blk_size b \<longrightarrow>
        get_components a' (blk_data b) k = get_components a (blk_data b) k))"

text \<open>What every operation on a collection keeps.\<close>

definition evolves :: "collection \<Rightarrow> allocator \<Rightarrow> collection \<Rightarrow> allocator \<Rightarrow> bool" where
  "evolves c a c' a' \<longleftrightarrow> others_kept (co_tag c) a a' \<and> co_config c' = co_config c \<and> co_tag c' = co_tag c
     \<and> co_mapped c' = co_mapped c"

lemma others_kept_refl [simp]: "others_kept t a a"
  by (simp add: others_kept_def)

lemma others_kept_trans: "others_kept t a b \<Longrightarrow> others_kept t b c \<Longrightarrow> others_kept t a c"
  by (simp add: others_kept_def)

lemma evolves_refl [simp]: "evolves c a c a"
  by (simp add: evolves_def)

lemma evolves_trans: "evolves c a c1 a1 \<Longrightarrow> evolves c1 a1 c2 a2 \<Longrightarrow> evolves c a c2 a2"
  unfolding evolves_def by (metis others_kept_trans)

lemma new_collection_ok:
  "held_blocks a tag = {} \<Longrightarrow> coll_ok h (new_collection config tag) a"
  by (simp add: coll_ok_def coll_staged_def new_collection_def slots_ok_def distinct_blocks_def
      arena_blocks_def index_matches_def)

lemma new_collection_view: "coll_view (new_collection config tag) a = Map.empty"
  by (rule ext) (simp add: coll_view_def new_collection_def)


section \<open>Reading depends on the collection's own blocks only\<close>

lemma slot_components_arena:
  "in_arena (vector_block slot) \<Longrightarrow>
   slot_components c a slot = Some (get_components a (blk_data (vector_block slot)) (co_dim c))"
  by (auto simp: in_arena_def slot_components_def)

lemma slot_components_foreign:
  "\<not> in_arena (vector_block slot) \<Longrightarrow> slot_components c a slot = slot_components c a' slot"
  by (auto simp: in_arena_def slot_components_def split: ptr.split)

lemma slot_components_mem:
  "(\<And>p k. get_components a' p k = get_components a p k) \<Longrightarrow> slot_components c a' slot = slot_components c a slot"
  by (simp add: slot_components_def split: ptr.split)

lemma slot_components_cong:
  "co_config c' = co_config c \<Longrightarrow> co_mapped c' = co_mapped c \<Longrightarrow> slot_components c' a = slot_components c a"
  by (rule ext) (simp add: slot_components_def split: ptr.split option.split)

lemma length_mapped_floats: "mapped_floats bs off n = Some v \<Longrightarrow> length v = n"
  by (auto simp: mapped_floats_def split: if_splits)

lemma frame_slots:
  assumes st: "coll_staged h c a E"
    and same: "\<forall>b \<in> coll_blocks c. \<forall>k. 4 * k \<le> blk_size b \<longrightarrow>
      get_components a' (blk_data b) k = get_components a (blk_data b) k"
  shows "slots_ok c a'" "index_matches h c a'" "coll_view c a' = coll_view c a"
    and "omap_find rid (co_records c) = Some slot \<Longrightarrow> slot_components c a' slot = slot_components c a slot"
proof -
  note d = coll_stagedD [OF st]
  have sc: "slot_components c a' slot = slot_components c a slot" if f: "omap_find rid (co_records c) = Some slot" for rid slot
  proof (cases "in_arena (vector_block slot)")
    case True
    then have "vector_block slot \<in> coll_blocks c" by (rule arena_blocksI [OF f])
    moreover have "blk_size (vector_block slot) = 4 * co_dim c"
      using d(4) f True by (simp add: slots_ok_def slot_ok_def)
    ultimately show ?thesis using same True by (simp add: slot_components_arena)
  next
    case False
    then show ?thesis by (rule slot_components_foreign)
  qed
  have so: "slot_ok c a' slot = slot_ok c a slot" if "omap_find rid (co_records c) = Some slot" for rid slot
    using sc [OF that] by (simp add: slot_ok_def)
  then show "slots_ok c a'" using d(4) unfolding slots_ok_def by blast
  have rv: "rec_vector c a' = rec_vector c a"
    by (rule ext) (simp add: rec_vector_def sc split: option.split)
  show "index_matches h c a'" using d(9) unfolding index_matches_def rv .
  show "coll_view c a' = coll_view c a"
    by (rule ext) (simp add: coll_view_def sc split: option.split)
  show "omap_find rid (co_records c) = Some slot \<Longrightarrow> slot_components c a' slot = slot_components c a slot"
    by (rule sc)
qed

text \<open>Moving to another allocator state that keeps the records' blocks.\<close>

lemma frame_staged:
  assumes st: "coll_staged h c a E"
    and same: "\<forall>b \<in> coll_blocks c. \<forall>k. 4 * k \<le> blk_size b \<longrightarrow>
      get_components a' (blk_data b) k = get_components a (blk_data b) k"
    and held: "held_blocks a' (co_tag c) = coll_blocks c \<union> E'" "coll_blocks c \<inter> E' = {}"
    and E': "\<forall>b \<in> E'. blk_size b = 4 * co_dim c"
  shows "coll_staged h c a' E'"
  using coll_stagedD(1,2,3,5) [OF st] frame_slots(1,2) [OF st same] held E' unfolding coll_staged_def by blast

lemma coll_frame:
  assumes ok: "coll_ok h c a" and held: "held_blocks a' (co_tag c) = held_blocks a (co_tag c)"
    and same: "\<forall>b \<in> held_blocks a (co_tag c). \<forall>k. 4 * k \<le> blk_size b \<longrightarrow>
      get_components a' (blk_data b) k = get_components a (blk_data b) k"
  shows "coll_ok h c a'" and "coll_view c a' = coll_view c a"
proof -
  note st = ok [unfolded coll_ok_def] and d = coll_stagedD [OF ok [unfolded coll_ok_def]]
  have same': "\<forall>b \<in> coll_blocks c. \<forall>k. 4 * k \<le> blk_size b \<longrightarrow>
      get_components a' (blk_data b) k = get_components a (blk_data b) k"
    using same d(6) by simp
  show "coll_ok h c a'" unfolding coll_ok_def by (rule frame_staged [OF st same']) (use d(6) held in simp_all)
  show "coll_view c a' = coll_view c a" by (rule frame_slots(3) [OF st same'])
qed

lemma coll_others:
  "coll_ok h c a \<Longrightarrow> others_kept t a a' \<Longrightarrow> co_tag c \<noteq> t \<Longrightarrow> coll_ok h c a' \<and> coll_view c a' = coll_view c a"
  using coll_frame [of h c a a'] by (simp add: others_kept_def)


section \<open>Committing one record\<close>

lemma held_in_arena: "b \<in> held_blocks a t \<Longrightarrow> in_arena b"
  by (auto simp: held_blocks_def live_block_def in_arena_def)

text \<open>Releasing any block of a record, in the arena or in a mapping.\<close>

lemma release_slot:
  assumes inv: "alloc_inv a" and b: "in_arena b \<longrightarrow> b \<in> held_blocks a t"
  shows "alloc_inv (release a b)" and "held_blocks (release a b) t = held_blocks a t - {b}"
    and "get_components (release a b) p k = get_components a p k" and "others_kept t a (release a b)"
proof -
  have "alloc_inv (release a b) \<and> held_blocks (release a b) t = held_blocks a t - {b}
      \<and> (\<forall>p k. get_components (release a b) p k = get_components a p k) \<and> others_kept t a (release a b)"
  proof (cases "in_arena b")
    case True
    note r = tagged.dispose_tagged [OF inv, of b t]
    show ?thesis using r True b by (simp add: others_kept_def)
  next
    case False
    then have "release a b = a" by (intro release_foreign) (simp add: in_arena_def)
    moreover have "b \<notin> held_blocks a t" using False held_in_arena by blast
    ultimately show ?thesis using inv by simp
  qed
  then show "alloc_inv (release a b)" "held_blocks (release a b) t = held_blocks a t - {b}"
    "get_components (release a b) p k = get_components a p k" "others_kept t a (release a b)" by blast+
qed

lemma index_record_ok:
  assumes m: "index_matches h c a" and room: "coll_room 1 c"
    and v: "rid \<noteq> []" "length v = co_dim c" "finite_vec v"
    and c1: "co_index c1 = co_index c" "co_config c1 = co_config c" "co_index_type c1 = co_index_type c"
    and rv: "rec_vector c1 a' = (rec_vector c a)(rid \<mapsto> v)"
  shows "\<exists>i. index_record h c1 rid v = Some (c1\<lparr>co_index := i\<rparr>) \<and> index_matches h (c1\<lparr>co_index := i\<rparr>) a'
    \<and> index_used (c1\<lparr>co_index := i\<rparr>) \<le> index_used c + 1"
proof (cases "co_index c")
  case None
  then have "c1\<lparr>co_index := None\<rparr> = c1" using c1 by (cases c1) simp
  then show ?thesis
    using None m c1 by (intro exI [of _ None]) (simp add: index_record_def index_matches_def index_used_def)
next
  case (Some ix)
  have i: "index_ok h ix" "index_width ix = co_dim c" "index_contents ix = rec_vector c a"
    "index_dist h ix = distance_or_inf (h_calculator h) (cfg_metric (co_config c))" "co_index_type c = index_type_of ix"
    using m Some by (simp_all add: index_matches_def)
  have "index_slots ix < 2 ^ 31 - 1" using room Some by (simp add: coll_room_def index_used_def)
  then obtain ix' where ix': "index_add h ix rid v = Some (Inr (), ix')" "index_ok h ix'" "index_slots ix' \<le> index_slots ix + 1"
    "index_width ix' = index_width ix" "index_dist h ix' = index_dist h ix" "index_contents ix' = (index_contents ix)(rid \<mapsto> v)"
    using index.add_ok [OF i(1), of rid v] v i(2) by auto
  have "slot_components (c1\<lparr>co_index := Some ix'\<rparr>) a' = slot_components c1 a'"
    by (rule slot_components_cong) simp_all
  then have "rec_vector (c1\<lparr>co_index := Some ix'\<rparr>) a' = rec_vector c1 a'"
    by (intro ext) (simp add: rec_vector_def split: option.split)
  then show ?thesis
    using Some ix' i c1 rv index_add_type [OF ix'(1)]
    by (intro exI [of _ "Some ix'"]) (simp add: index_record_def index_matches_def index_used_def)
qed

lemma swap_sets:
  "H = C \<union> Set.insert b E \<Longrightarrow> C \<inter> Set.insert b E = {} \<Longrightarrow> old \<subseteq> C \<Longrightarrow> H - old = Set.insert b (C - old) \<union> E"
  by auto

lemma swap_disjoint: "C \<inter> Set.insert b E = {} \<Longrightarrow> b \<notin> E \<Longrightarrow> Set.insert b (C - old) \<inter> E = {}"
  by auto

text \<open>Replacing or adding the slot of a record, and releasing the block it had.\<close>

lemma swap_slot:
  fixes rid :: record_id
  assumes inv: "alloc_inv a" and st: "coll_staged h c a (Set.insert b E)" and b: "b \<notin> E" and slot: "vector_block slot = b"
  defines "m' \<equiv> omap_set rid slot (co_records c)"
    and "a' \<equiv> (case omap_find rid (co_records c) of None \<Rightarrow> a | Some s \<Rightarrow> release a (vector_block s))"
  shows "alloc_inv a'" "get_components a' p k = get_components a p k" "others_kept (co_tag c) a a'"
    "held_blocks a' (co_tag c) = arena_blocks m' \<union> E" "arena_blocks m' \<inter> E = {}" "distinct_blocks m'"
proof -
  note d = coll_stagedD [OF st]
  have arena: "in_arena b" using d(6) held_in_arena by blast
  have fresh: "b \<notin> coll_blocks c" using d(7) by blast
  have old: "in_arena (vector_block s) \<longrightarrow> vector_block s \<in> held_blocks a (co_tag c)"
    if "omap_find rid (co_records c) = Some s" for s
    using arena_blocksI [OF that] d(6) by blast
  have r: "alloc_inv a' \<and> (\<forall>p k. get_components a' p k = get_components a p k) \<and> others_kept (co_tag c) a a'
    \<and> held_blocks a' (co_tag c) = held_blocks a (co_tag c) - old_blocks (co_records c) rid"
  proof (cases "omap_find rid (co_records c)")
    case None
    then show ?thesis using inv by (simp add: a'_def old_blocks_def)
  next
    case (Some s)
    note rs = release_slot [OF inv old [OF Some]]
    have "held_blocks a (co_tag c) - {vector_block s} = held_blocks a (co_tag c) - old_blocks (co_records c) rid"
      using Some held_in_arena by (auto simp: old_blocks_def)
    then show ?thesis using rs Some by (simp add: a'_def)
  qed
  then show "alloc_inv a'" "get_components a' p k = get_components a p k" "others_kept (co_tag c) a a'" by blast+
  have m': "arena_blocks m' = Set.insert b (coll_blocks c - old_blocks (co_records c) rid)"
    unfolding m'_def using arena_blocks_set [OF d(5)] arena slot by simp
  show "held_blocks a' (co_tag c) = arena_blocks m' \<union> E"
    using r unfolding m' by (simp add: swap_sets [OF d(6,7) old_blocks_sub])
  show "arena_blocks m' \<inter> E = {}" unfolding m' using d(7) b by (intro swap_disjoint)
  show "distinct_blocks m'" unfolding m'_def using distinct_blocks_set [OF d(5)] fresh slot by simp
qed

lemma commit_ok:
  assumes inv: "alloc_inv a" and st: "coll_staged h c a (Set.insert b E)" and b: "b \<notin> E"
    and filled: "get_components a (blk_data b) (co_dim c) = v"
    and v: "rid \<noteq> []" "length v = co_dim c" "finite_vec v" and room: "coll_room 1 c"
  shows "\<exists>c' a'. commit_record h rid v meta b (c, a) = Some (c', a') \<and> alloc_inv a' \<and> coll_staged h c' a' E
    \<and> evolves c a c' a' \<and> (\<forall>p k. get_components a' p k = get_components a p k)
    \<and> coll_view c' a' = (coll_view c a)(rid \<mapsto> (v, meta)) \<and> length (co_records c') \<le> length (co_records c) + 1 \<and> index_used c' \<le> index_used c + 1"
proof -
  note d = coll_stagedD [OF st]
  define old where "old = omap_find rid (co_records c)"
  define slot where "slot = (case old of None \<Rightarrow> \<lparr>vector_block = b, slot_meta = meta\<rparr>
      | Some s \<Rightarrow> s\<lparr>vector_block := b, slot_meta := meta\<rparr>)"
  define a1 where "a1 = (case old of None \<Rightarrow> a | Some s \<Rightarrow> release a (vector_block s))"
  define c1 where "c1 = c\<lparr>co_records := omap_set rid slot (co_records c),
      co_record_count := (if old = None then co_record_count c + 1 else co_record_count c)\<rparr>"
  have slot: "vector_block slot = b" "slot_meta slot = meta" by (auto simp: slot_def split: option.split)
  note s = swap_slot [OF inv st b slot(1), of rid, folded old_def, folded a1_def]
  have c1: "co_records c1 = omap_set rid slot (co_records c)" "co_config c1 = co_config c" "co_tag c1 = co_tag c"
    "co_index c1 = co_index c" "co_index_type c1 = co_index_type c" "co_mapped c1 = co_mapped c"
    by (simp_all add: c1_def)
  have commit: "commit_record h rid v meta b (c, a) = map_option (\<lambda>c'. (c', a1)) (index_record h c1 rid v)"
  proof (cases old)
    case None
    then show ?thesis by (simp add: commit_record_def old_def [symmetric] slot_def a1_def c1_def)
  next
    case (Some s)
    have "c\<lparr>co_records := r, co_record_count := co_record_count c\<rparr> = c\<lparr>co_records := r\<rparr>" for r by (cases c) simp
    then show ?thesis using Some by (simp add: commit_record_def old_def [symmetric] slot_def a1_def c1_def)
  qed
  have sc: "slot_components c1 a1 s = slot_components c a s" for s
    using slot_components_mem [OF s(2)] slot_components_cong [OF c1(2,6)] by simp
  have arena: "in_arena b" using d(6) held_in_arena by blast
  then have scn: "slot_components c a slot = Some v" using slot(1) filled by (simp add: slot_components_arena)
  have rv: "rec_vector c1 a1 = (rec_vector c a)(rid \<mapsto> v)"
    by (rule ext) (simp add: rec_vector_def c1(1) omap_find_set sc scn split: option.split)
  obtain i where i: "index_record h c1 rid v = Some (c1\<lparr>co_index := i\<rparr>)" "index_matches h (c1\<lparr>co_index := i\<rparr>) a1"
    "index_used (c1\<lparr>co_index := i\<rparr>) \<le> index_used c + 1"
    using index_record_ok [OF d(9) room v c1(4,2,5) rv] by blast
  let ?c = "c1\<lparr>co_index := i\<rparr>"
  have cfg: "co_records ?c = omap_set rid slot (co_records c)" "co_config ?c = co_config c" "co_tag ?c = co_tag c"
    "co_mapped ?c = co_mapped c" "co_record_count ?c = co_record_count c1" using c1 by simp_all
  have sc': "slot_components ?c a1 s = slot_components c a s" for s
    using slot_components_mem [OF s(2)] slot_components_cong [OF cfg(2,4)] by simp
  have "slot_ok ?c a1 slot" using scn v d(8) slot(1) by (simp add: slot_ok_def sc' cfg(2))
  moreover have "slot_ok ?c a1 s = slot_ok c a s" for s unfolding slot_ok_def sc' cfg(2) ..
  ultimately have "slots_ok ?c a1"
    using d(4) v(1) unfolding slots_ok_def cfg(1) omap_find_set by (metis option.inject)
  moreover have "omap_ok (co_records ?c)" using omap_ok_set [OF d(1)] by (simp add: cfg(1))
  moreover have len: "length (co_records ?c) = (if old = None then Suc (length (co_records c)) else length (co_records c))"
    by (simp add: cfg(1) length_omap_set [OF d(1)] old_def)
  moreover have "co_record_count ?c = word_of_nat (length (co_records ?c))"
    unfolding len using d(2) by (simp add: c1_def)
  moreover have len': "length (co_records ?c) < 2 ^ 31" using len room by (simp add: coll_room_def)
  ultimately have "coll_staged h ?c a1 E" using i(2) d(8) s(4,5,6) unfolding coll_staged_def cfg by blast
  moreover have "coll_view ?c a1 = (coll_view c a)(rid \<mapsto> (v, meta))"
    by (rule ext) (simp add: coll_view_def cfg(1) omap_find_set sc' scn slot split: option.split)
  moreover have "commit_record h rid v meta b (c, a) = Some (?c, a1)" using commit i(1) by simp
  moreover have "length (co_records ?c) \<le> length (co_records c) + 1" using len by simp
  moreover have "evolves c a ?c a1" using s(3) cfg(2,3,4) by (simp add: evolves_def)
  ultimately show ?thesis using s(1,2) i(3) by blast
qed

end
