(* ===== verification/Collection_Ops.thy ===== *)
theory Collection_Ops
  imports Collection_Spec
begin

text \<open>
  The operations of a collection implement the finite map: insertion, batches, removal and lookup.
  A batch is atomic: either every record is stored, a later one over an earlier one with the same
  identifier, or nothing has changed.
\<close>

section \<open>Validation\<close>

lemma first_non_finite_length: "first_non_finite v = length v \<longleftrightarrow> finite_vec v"
  by (induction v) auto

lemma check_record_None:
  "check_record c rid v = None \<longleftrightarrow> rid \<noteq> [] \<and> length v = co_dim c \<and> finite_vec v"
  unfolding check_record_def is_valid_id_def first_non_finite_length by simp

lemma check_record_config: "co_config c' = co_config c \<Longrightarrow> check_record c' = check_record c"
  by (intro ext) (simp add: check_record_def)

lemma vector_bytes_value: "unat (vector_bytes c) = 4 * co_dim c" "unat (vector_bytes c) \<le> 2 ^ 64 - 64"
proof -
  have "co_dim c < 2 ^ LENGTH(32)" by (rule unsigned_less)
  then have "co_dim c < 2 ^ 32" by simp
  then have "unat (ucast (cfg_dim (co_config c)) * (4 :: u64)) = 4 * co_dim c"
    by (simp add: unat_word_ariths unsigned_ucast_eq take_bit_nat_eq_self)
  then show "unat (vector_bytes c) = 4 * co_dim c" by (simp add: vector_bytes_def)
  then show "unat (vector_bytes c) \<le> 2 ^ 64 - 64" using \<open>co_dim c < 2 ^ 32\<close> by simp
qed


section \<open>Staging blocks\<close>

lemma stage_one:
  assumes inv: "alloc_inv a" and st: "coll_staged h c a E"
    and al: "allocate a (vector_bytes c) (co_tag c) = (Inr b, a1)" and v: "length v = co_dim c"
  defines "a2 \<equiv> store_components a1 b v"
  shows "alloc_inv a2" "coll_staged h c a2 (Set.insert b E)" "b \<notin> E" "evolves c a c a2" "coll_view c a2 = coll_view c a"
    "get_components a2 (blk_data b) (co_dim c) = v"
    "b' \<in> E \<Longrightarrow> get_components a2 (blk_data b') (co_dim c) = get_components a (blk_data b') (co_dim c)"
proof -
  note d = coll_stagedD [OF st]
  have "4 * length v \<le> unat (vector_bytes c)" using v vector_bytes_value by simp
  note s = tagged.store_tagged [OF inv vector_bytes_value(2) al this, folded store_components_def, folded a2_def]
  have size: "blk_size b = 4 * co_dim c" using s(5) vector_bytes_value by simp
  have new: "b \<notin> held_blocks a (co_tag c)" using s(4) by blast
  have same: "\<forall>b' \<in> coll_blocks c. \<forall>k. 4 * k \<le> blk_size b' \<longrightarrow>
      get_components a2 (blk_data b') k = get_components a (blk_data b') k"
    using s(6) d(6) by blast
  show "alloc_inv a2" by (rule s(1))
  have held: "held_blocks a2 (co_tag c) = coll_blocks c \<union> Set.insert b E" using s(2) d(6) by simp
  show "coll_staged h c a2 (Set.insert b E)"
    by (rule frame_staged [OF st same held]) (use new d(6,7,8) size in blast)+
  show "b \<notin> E" using new d(6) by blast
  show "evolves c a c a2" using s(2,6) by (simp add: evolves_def others_kept_def)
  show "coll_view c a2 = coll_view c a" by (rule frame_slots(3) [OF st same])
  show "get_components a2 (blk_data b) (co_dim c) = v" using s(3) v by simp
  show "b' \<in> E \<Longrightarrow> get_components a2 (blk_data b') (co_dim c) = get_components a (blk_data b') (co_dim c)"
    using s(6) [of b' "co_tag c" "co_dim c"] d(6,8) by (metis UnI2 order_refl)
qed

lemma unstage_one:
  assumes inv: "alloc_inv a" and st: "coll_staged h c a (Set.insert b E)" and b: "b \<notin> E"
  shows "alloc_inv (release a b)" "coll_staged h c (release a b) E" "evolves c a c (release a b)"
    "coll_view c (release a b) = coll_view c a"
proof -
  note d = coll_stagedD [OF st]
  have "in_arena b \<longrightarrow> b \<in> held_blocks a (co_tag c)" using d(6) by blast
  note r = release_slot [OF inv this]
  have held: "held_blocks (release a b) (co_tag c) = coll_blocks c \<union> E" using r(2) d(6,7) b by auto
  show "alloc_inv (release a b)" by (rule r(1))
  show "coll_staged h c (release a b) E"
    by (rule frame_staged [OF st _ held]) (use r(3) d(7,8) in auto)
  show "evolves c a c (release a b)" using r(4) by (simp add: evolves_def)
  show "coll_view c (release a b) = coll_view c a" by (rule frame_slots(3) [OF st]) (simp add: r(3))
qed

lemma unstage_all:
  "alloc_inv a \<Longrightarrow> coll_staged h c a (set bs) \<Longrightarrow> distinct bs \<Longrightarrow>
   alloc_inv (foldl release a bs) \<and> coll_ok h c (foldl release a bs) \<and> evolves c a c (foldl release a bs)
   \<and> coll_view c (foldl release a bs) = coll_view c a"
proof (induction bs arbitrary: a)
  case (Cons b bs)
  have st: "coll_staged h c a (Set.insert b (set bs))" "b \<notin> set bs" using Cons.prems by simp_all
  note u = unstage_one [OF Cons.prems(1) st]
  show ?case using Cons.IH [OF u(1,2)] Cons.prems(3) u(3,4) evolves_trans by fastforce
qed (simp add: coll_ok_def)

definition filled :: "collection \<Rightarrow> allocator \<Rightarrow> block \<Rightarrow> f32 list \<Rightarrow> bool" where
  "filled c a b v \<longleftrightarrow> get_components a (blk_data b) (co_dim c) = v"

lemma stage_blocks_ok:
  assumes "alloc_inv a" "coll_staged h c a (set staged)" "distinct staged" "list_all2 (filled c a) staged vs"
    "\<forall>r \<in> set rs. length (in_vector r) = co_dim c"
    and "stage_blocks c rs a staged = (res, a')"
  shows "alloc_inv a' \<and> evolves c a c a' \<and> coll_view c a' = coll_view c a \<and>
    (case res of Inl e \<Rightarrow> e = AllocationFailure \<and> coll_ok h c a'
     | Inr bs \<Rightarrow> coll_staged h c a' (set bs) \<and> distinct bs \<and> list_all2 (filled c a') bs (vs @ map in_vector rs))"
  using assms
proof (induction rs arbitrary: a staged vs)
  case (Cons r rs)
  show ?case
  proof (cases "allocate a (vector_bytes c) (co_tag c)")
    case (Pair o1 a1)
    show ?thesis
    proof (cases o1)
      case (Inl e)
      have "a1 = a" "e = AllocationFailure" using arena.acquire_fail Pair Inl by blast+
      then show ?thesis using Cons.prems(6) Pair Inl unstage_all [OF Cons.prems(1-3)] by auto
    next
      case (Inr b)
      let ?a2 = "store_components a1 b (in_vector r)"
      have al: "allocate a (vector_bytes c) (co_tag c) = (Inr b, a1)" using Pair Inr by simp
      have len: "length (in_vector r) = co_dim c" using Cons.prems(5) by simp
      note s = stage_one [OF Cons.prems(1,2) al len]
      have "list_all2 (filled c ?a2) staged vs"
        using Cons.prems(4) s(7) by (simp add: list_all2_conv_all_nth filled_def)
      then have fill: "list_all2 (filled c ?a2) (staged @ [b]) (vs @ [in_vector r])"
        using s(6) by (simp add: list_all2_appendI filled_def)
      have st: "coll_staged h c ?a2 (set (staged @ [b]))" "distinct (staged @ [b])"
        using s(2,3) Cons.prems(3) by simp_all
      have run: "stage_blocks c rs ?a2 (staged @ [b]) = (res, a')" using Cons.prems(6) al by simp
      have lens: "\<forall>r \<in> set rs. length (in_vector r) = co_dim c" using Cons.prems(5) by simp
      show ?thesis using Cons.IH [OF s(1) st fill lens run] s(4,5) evolves_trans by (cases res) simp_all
    qed
  qed
qed auto


section \<open>Inserting one record\<close>

lemma coll_insert_invalid:
  "check_record c rid v = Some e \<Longrightarrow> coll_insert h c a rid v meta = Some (Inl e, c, a)"
  by (simp add: coll_insert_def)

lemma coll_insert_valid:
  assumes inv: "alloc_inv a" and ok: "coll_ok h c a" and room: "coll_room 1 c" and valid: "check_record c rid v = None"
  shows "\<exists>st c' a'. coll_insert h c a rid v meta = Some (st, c', a') \<and> alloc_inv a' \<and> coll_ok h c' a' \<and> evolves c a c' a'
    \<and> (st = Inl AllocationFailure \<and> c' = c \<and> a' = a
       \<or> st = Inr () \<and> coll_view c' a' = (coll_view c a)(rid \<mapsto> (v, meta)))
    \<and> index_used c' \<le> index_used c + 1"
proof (cases "allocate a (vector_bytes c) (co_tag c)")
  case (Pair o1 a1)
  have v: "rid \<noteq> []" "length v = co_dim c" "finite_vec v" using valid check_record_None by blast+
  show ?thesis
  proof (cases o1)
    case (Inl e)
    have "a1 = a" "e = AllocationFailure" using arena.acquire_fail Pair Inl by blast+
    then show ?thesis using Pair Inl valid inv ok by (simp add: coll_insert_def)
  next
    case (Inr b)
    let ?a2 = "store_components a1 b v"
    have al: "allocate a (vector_bytes c) (co_tag c) = (Inr b, a1)" using Pair Inr by simp
    note s = stage_one [OF inv ok [unfolded coll_ok_def] al v(2)]
    obtain c' a' where c': "commit_record h rid v meta b (c, ?a2) = Some (c', a')" "alloc_inv a'" "coll_staged h c' a' {}"
      "evolves c ?a2 c' a'" "coll_view c' a' = (coll_view c ?a2)(rid \<mapsto> (v, meta))" "index_used c' \<le> index_used c + 1"
      using commit_ok [OF s(1,2,3,6) v room, of meta] by (elim exE conjE)
    have "coll_insert h c a rid v meta = Some (Inr (), c', a')" using valid al c'(1) by (simp add: coll_insert_def)
    then show ?thesis using c' s(5) evolves_trans [OF s(4) c'(4)] by (simp add: coll_ok_def)
  qed
qed


section \<open>Batches\<close>

text \<open>What a batch of valid records does to the map: the last record of an identifier wins.\<close>

definition batch_map :: "record_input list \<Rightarrow> record_id \<Rightarrow> (f32 list \<times> metadata option) option" where
  "batch_map rs = map_of (rev (map (\<lambda>r. (in_id r, in_vector r, in_meta r)) rs))"

lemma batch_map_Nil [simp]: "batch_map [] = Map.empty"
  by (simp add: batch_map_def)

lemma batch_map_Cons: "m ++ batch_map (r # rs) = m(in_id r \<mapsto> (in_vector r, in_meta r)) ++ batch_map rs"
  by (rule ext) (simp add: batch_map_def map_add_def map_of_append split: option.split)

lemma first_error_None: "first_error c rs = None \<longleftrightarrow> (\<forall>r \<in> set rs. check_record c (in_id r) (in_vector r) = None)"
  by (induction rs) (auto split: option.split)

lemma first_error_Some:
  "first_error c rs = Some e \<longleftrightarrow>
   (\<exists>pre r post. rs = pre @ r # post \<and> first_error c pre = None \<and> check_record c (in_id r) (in_vector r) = Some e)"
proof (induction rs)
  case (Cons r rs)
  show ?case
  proof (cases "check_record c (in_id r) (in_vector r)")
    case None
    have "(\<exists>pre r' post. r # rs = pre @ r' # post \<and> first_error c pre = None \<and> check_record c (in_id r') (in_vector r') = Some e)
      \<longleftrightarrow> (\<exists>pre r' post. rs = pre @ r' # post \<and> first_error c pre = None \<and> check_record c (in_id r') (in_vector r') = Some e)"
      (is "?l \<longleftrightarrow> ?r")
    proof
      assume ?l
      then obtain pre r' post where p: "r # rs = pre @ r' # post" "first_error c pre = None"
        "check_record c (in_id r') (in_vector r') = Some e" by (elim exE conjE)
      then obtain pre' where "pre = r # pre'" using None by (cases pre) simp_all
      then show ?r using p None by (intro exI [of _ pre'] exI [of _ r'] exI [of _ post]) simp
    next
      assume ?r
      then obtain pre r' post where "rs = pre @ r' # post" "first_error c pre = None"
        "check_record c (in_id r') (in_vector r') = Some e" by (elim exE conjE)
      then show ?l using None by (intro exI [of _ "r # pre"] exI [of _ r'] exI [of _ post]) simp
    qed
    then show ?thesis using Cons.IH None by simp
  next
    case (Some e')
    show ?thesis
    proof
      assume "first_error c (r # rs) = Some e"
      then show "\<exists>pre r' post. r # rs = pre @ r' # post \<and> first_error c pre = None \<and> check_record c (in_id r') (in_vector r') = Some e"
        using Some by (intro exI [of _ "[]"] exI [of _ r] exI [of _ rs]) simp
    next
      assume "\<exists>pre r' post. r # rs = pre @ r' # post \<and> first_error c pre = None \<and> check_record c (in_id r') (in_vector r') = Some e"
      then obtain pre r' post where p: "r # rs = pre @ r' # post" "first_error c pre = None"
        "check_record c (in_id r') (in_vector r') = Some e" by (elim exE conjE)
      then have "pre = []" using Some by (cases pre) simp_all
      then show "first_error c (r # rs) = Some e" using p by simp
    qed
  qed
qed simp

abbreviation commit_all :: "host \<Rightarrow> (record_input \<times> block) list \<Rightarrow> collection \<times> allocator \<Rightarrow> (collection \<times> allocator) option" where
  "commit_all h \<equiv> ofold (\<lambda>(r, b). commit_record h (in_id r) (in_vector r) (in_meta r) b)"

lemma coll_room_evolve:
  "coll_room (Suc n) c \<Longrightarrow> length (co_records c') \<le> length (co_records c) + 1 \<Longrightarrow> index_used c' \<le> index_used c + 1 \<Longrightarrow>
   coll_room n c'"
  by (simp add: coll_room_def)

lemma commit_all_ok:
  assumes "alloc_inv a" "coll_staged h c a (set bs)" "distinct bs" "list_all2 (filled c a) bs (map in_vector rs)"
    "first_error c rs = None" "coll_room (length rs) c"
  shows "\<exists>c' a'. commit_all h (zip rs bs) (c, a) = Some (c', a') \<and> alloc_inv a' \<and> coll_ok h c' a' \<and> evolves c a c' a'
    \<and> coll_view c' a' = coll_view c a ++ batch_map rs \<and> index_used c' \<le> index_used c + length rs"
  using assms
proof (induction rs arbitrary: c a bs)
  case (Cons r rs)
  obtain b bs' where bs: "bs = b # bs'" using Cons.prems(4) by (cases bs) simp_all
  have r: "in_id r \<noteq> []" "length (in_vector r) = co_dim c" "finite_vec (in_vector r)"
    using Cons.prems(5) unfolding first_error_None by (simp_all add: check_record_None)
  have st: "coll_staged h c a (Set.insert b (set bs'))" "b \<notin> set bs'" using Cons.prems(2,3) bs by simp_all
  have fill: "get_components a (blk_data b) (co_dim c) = in_vector r" using Cons.prems(4) bs by (simp add: filled_def)
  have room1: "coll_room 1 c" using Cons.prems(6) by (simp add: coll_room_def)
  obtain c1 a1 where c1: "commit_record h (in_id r) (in_vector r) (in_meta r) b (c, a) = Some (c1, a1)" "alloc_inv a1"
    "coll_staged h c1 a1 (set bs')" "evolves c a c1 a1" "\<forall>p k. get_components a1 p k = get_components a p k"
    "coll_view c1 a1 = (coll_view c a)(in_id r \<mapsto> (in_vector r, in_meta r))"
    "length (co_records c1) \<le> length (co_records c) + 1" "index_used c1 \<le> index_used c + 1"
    using commit_ok [OF Cons.prems(1) st fill r room1, of "in_meta r"] by (elim exE conjE)
  have cfg: "co_config c1 = co_config c" using c1(4) by (simp add: evolves_def)
  have p1: "list_all2 (filled c1 a1) bs' (map in_vector rs)"
    using Cons.prems(4) unfolding bs filled_def cfg by (simp add: c1(5))
  have p2: "first_error c1 rs = None"
    using Cons.prems(5) unfolding first_error_None by (simp add: check_record_config [OF cfg])
  have p3: "coll_room (length rs) c1" using coll_room_evolve [OF _ c1(7,8)] Cons.prems(6) by simp
  have p4: "distinct bs'" using Cons.prems(3) bs by simp
  obtain c' a' where c': "commit_all h (zip rs bs') (c1, a1) = Some (c', a')" "alloc_inv a'" "coll_ok h c' a'"
    "evolves c1 a1 c' a'" "coll_view c' a' = coll_view c1 a1 ++ batch_map rs" "index_used c' \<le> index_used c1 + length rs"
    using Cons.IH [OF c1(2,3) p4 p1 p2 p3] by (elim exE conjE)
  have "commit_all h (zip (r # rs) bs) (c, a) = Some (c', a')" using c1(1) c'(1) by (simp add: bs)
  moreover have "index_used c' \<le> index_used c + length (r # rs)" using c'(6) c1(8) by simp
  ultimately show ?case using c' evolves_trans [OF c1(4) c'(4)] unfolding batch_map_Cons c1(6) by blast
qed (simp add: coll_ok_def)

lemma coll_insert_batch_valid:
  assumes inv: "alloc_inv a" and ok: "coll_ok h c a" and room: "coll_room (length rs) c"
    and n: "rs \<noteq> []" "length rs \<le> kMaxBatchSize" and valid: "first_error c rs = None"
  shows "\<exists>st c' a'. coll_insert_batch h c a rs = Some (st, c', a') \<and> alloc_inv a' \<and> coll_ok h c' a' \<and> evolves c a c' a'
    \<and> (st = Inl AllocationFailure \<and> c' = c \<and> coll_view c' a' = coll_view c a
       \<or> st = Inr () \<and> coll_view c' a' = coll_view c a ++ batch_map rs)
    \<and> index_used c' \<le> index_used c + length rs"
proof (cases "stage_blocks c rs a []")
  case (Pair res a1)
  have lens: "\<forall>r \<in> set rs. length (in_vector r) = co_dim c" using valid by (simp add: first_error_None check_record_None)
  have st: "coll_staged h c a (set [])" using ok by (simp add: coll_ok_def)
  note s = stage_blocks_ok [OF inv st _ _ lens Pair, of "[]", simplified]
  show ?thesis
  proof (cases res)
    case (Inl e)
    then show ?thesis using s Pair n valid by (simp add: coll_insert_batch_def)
  next
    case (Inr bs)
    have b: "alloc_inv a1" "coll_staged h c a1 (set bs)" "distinct bs" "list_all2 (filled c a1) bs (map in_vector rs)"
      "evolves c a c a1" "coll_view c a1 = coll_view c a"
      using s Inr by simp_all
    obtain c' a' where c': "commit_all h (zip rs bs) (c, a1) = Some (c', a')" "alloc_inv a'" "coll_ok h c' a'"
      "evolves c a1 c' a'" "coll_view c' a' = coll_view c a1 ++ batch_map rs" "index_used c' \<le> index_used c + length rs"
      using commit_all_ok [OF b(1-4) valid room] by (elim exE conjE)
    have "coll_insert_batch h c a rs = Some (Inr (), c', a')"
      using Pair Inr n valid c'(1) by (simp add: coll_insert_batch_def)
    then show ?thesis using c' b(6) evolves_trans [OF b(5) c'(4)] by simp
  qed
qed


section \<open>Removal and lookup\<close>

lemma coll_get_view:
  assumes "coll_ok h c a"
  shows "coll_get c a rid = Some (case coll_view c a rid of None \<Rightarrow> Inl NotFound
    | Some (v, meta) \<Rightarrow> Inr \<lparr>view_vector = v, view_meta = meta\<rparr>)"
proof (cases "omap_find rid (co_records c)")
  case (Some slot)
  then obtain v where "slot_components c a slot = Some v"
    using coll_stagedD(4) [OF assms [unfolded coll_ok_def]] unfolding slots_ok_def slot_ok_def by blast
  then show ?thesis using Some by (simp add: coll_get_def coll_view_def)
qed (simp add: coll_get_def coll_view_def)

lemma coll_view_None:
  assumes "coll_ok h c a"
  shows "coll_view c a rid = None \<longleftrightarrow> omap_find rid (co_records c) = None"
proof (cases "omap_find rid (co_records c)")
  case (Some slot)
  then obtain v where "slot_components c a slot = Some v"
    using coll_stagedD(4) [OF assms [unfolded coll_ok_def]] unfolding slots_ok_def slot_ok_def by blast
  then show ?thesis using Some by (simp add: coll_view_def)
qed (simp add: coll_view_def)


lemma erase_slot:
  assumes inv: "alloc_inv a" and ok: "coll_ok h c a" and f: "omap_find rid (co_records c) = Some slot"
  defines "m' \<equiv> omap_erase rid (co_records c)" and "a' \<equiv> release a (vector_block slot)"
  shows "alloc_inv a'" "get_components a' p k = get_components a p k" "others_kept (co_tag c) a a'"
    "held_blocks a' (co_tag c) = arena_blocks m'" "distinct_blocks m'" "omap_ok m'" "length (co_records c) = Suc (length m')"
    "omap_find r m' = (if r = rid then None else omap_find r (co_records c))"
proof -
  note d = coll_stagedD [OF ok [unfolded coll_ok_def]]
  have "in_arena (vector_block slot) \<longrightarrow> vector_block slot \<in> held_blocks a (co_tag c)"
    using arena_blocksI [OF f] d(6) by blast
  note r = release_slot [OF inv this, folded a'_def]
  have "held_blocks a (co_tag c) - {vector_block slot} = held_blocks a (co_tag c) - old_blocks (co_records c) rid"
    using f held_in_arena by (auto simp: old_blocks_def)
  then show "held_blocks a' (co_tag c) = arena_blocks m'"
    using r(2) d(6) by (simp add: m'_def arena_blocks_erase [OF d(5,1)])
  show "alloc_inv a'" "get_components a' p k = get_components a p k" "others_kept (co_tag c) a a'" by (rule r)+
  show "distinct_blocks m'" "omap_ok m'" unfolding m'_def using distinct_blocks_erase d(1,5) omap_ok_erase by blast+
  have "co_records c \<noteq> []" using f by auto
  then show "length (co_records c) = Suc (length m')" using f by (simp add: m'_def length_omap_erase)
  show "omap_find r m' = (if r = rid then None else omap_find r (co_records c))"
    by (simp add: m'_def omap_find_erase omap_ok_distinct [OF d(1)])
qed

lemma index_remove_matches:
  assumes m: "index_matches h c a"
    and c1: "co_index c1 = map_option (\<lambda>ix. snd (index_remove ix rid)) (co_index c)"
      "co_config c1 = co_config c" "co_index_type c1 = co_index_type c"
    and rv: "rec_vector c1 a' = (rec_vector c a)(rid := None)"
  shows "index_matches h c1 a' \<and> index_used c1 = index_used c"
proof (cases "co_index c")
  case None
  then show ?thesis using m c1 by (simp add: index_matches_def index_used_def)
next
  case (Some ix)
  then have ok: "index_ok h ix" using m by (simp add: index_matches_def)
  obtain st ix' where ix': "index_remove ix rid = (st, ix')" "index_ok h ix'" "index_slots ix' = index_slots ix"
    "index_width ix' = index_width ix" "index_dist h ix' = index_dist h ix" "index_contents ix' = (index_contents ix)(rid := None)"
    using index.remove_ok [OF ok, of rid] by (elim exE conjE)
  show ?thesis
    using m c1 Some ix' rv index_remove_type [of ix rid] by (simp add: index_matches_def index_used_def)
qed

lemma coll_remove_ok:
  assumes inv: "alloc_inv a" and ok: "coll_ok h c a"
  shows "\<exists>c' a'. coll_remove c a rid = (if coll_view c a rid = None then Inl NotFound else Inr (), c', a')
    \<and> alloc_inv a' \<and> coll_ok h c' a' \<and> evolves c a c' a' \<and> coll_view c' a' = (coll_view c a)(rid := None)
    \<and> index_used c' = index_used c"
proof (cases "omap_find rid (co_records c)")
  case None
  then have none: "coll_view c a rid = None" by (simp add: coll_view_def)
  then have "(coll_view c a)(rid := None) = coll_view c a" by (rule fun_upd_idem)
  then show ?thesis using none None inv ok by (intro exI [of _ c] exI [of _ a]) (simp add: coll_remove_def)
next
  case (Some slot)
  note d = coll_stagedD [OF ok [unfolded coll_ok_def]] and e = erase_slot [OF inv ok Some]
  let ?a' = "release a (vector_block slot)"
  let ?c' = "c\<lparr>co_records := omap_erase rid (co_records c), co_record_count := co_record_count c - 1,
      co_index := map_option (\<lambda>ix. snd (index_remove ix rid)) (co_index c)\<rparr>"
  have sc: "slot_components ?c' ?a' s = slot_components c a s" for s
  proof -
    have "slot_components ?c' ?a' s = slot_components ?c' a s" by (rule slot_components_mem) (rule e(2))
    also have "\<dots> = slot_components c a s" by (rule slot_components_cong [THEN fun_cong]) simp_all
    finally show ?thesis .
  qed
  have rv: "rec_vector ?c' ?a' = (rec_vector c a)(rid := None)"
    by (rule ext) (simp add: rec_vector_def e(8) sc split: option.split)
  have ix: "index_matches h ?c' ?a' \<and> index_used ?c' = index_used c"
    by (rule index_remove_matches [OF d(9) _ _ _ rv]) simp_all
  have so: "slot_ok ?c' ?a' s = slot_ok c a s" for s unfolding slot_ok_def sc by simp
  have "slots_ok ?c' ?a'" using d(4) unfolding slots_ok_def so by (simp add: e(8))
  moreover have "co_record_count ?c' = word_of_nat (length (co_records ?c'))" using d(2) e(7) by simp
  ultimately have "coll_ok h ?c' ?a'"
    using e(4,5,6,7) d(3) ix by (simp add: coll_ok_def coll_staged_def)
  moreover have "coll_view ?c' ?a' = (coll_view c a)(rid := None)"
    by (rule ext) (simp add: coll_view_def e(8) sc split: option.split)
  moreover have "coll_view c a rid \<noteq> None" using coll_view_None [OF ok] Some by simp
  moreover have "evolves c a ?c' ?a'" using e(3) by (simp add: evolves_def)
  moreover have "coll_remove c a rid = (Inr (), ?c', ?a')" using Some by (simp add: coll_remove_def)
  ultimately show ?thesis using e(1) ix by auto
qed


section \<open>Building an index\<close>

lemma populate_ok:
  assumes "index_ok h ix" "index_width ix = co_dim c" "index_slots ix + length rs < 2 ^ 31" "distinct (map fst rs)"
    "\<forall>(rid, slot) \<in> set rs. rid \<noteq> [] \<and> slot_ok c a slot"
  shows "\<exists>ix'. populate_index h c a rs ix = Some (Inr ix') \<and> index_ok h ix' \<and> index_slots ix' \<le> index_slots ix + length rs
    \<and> index_width ix' = index_width ix \<and> index_dist h ix' = index_dist h ix \<and> index_type_of ix' = index_type_of ix
    \<and> index_contents ix' = (\<lambda>rid. case omap_find rid rs of None \<Rightarrow> index_contents ix rid | Some slot \<Rightarrow> slot_components c a slot)"
  using assms
proof (induction rs arbitrary: ix)
  case (Cons r rs)
  obtain rid slot where r: "r = (rid, slot)" by (cases r)
  obtain v where v: "slot_components c a slot = Some v" "length v = co_dim c" "finite_vec v"
    using Cons.prems(5) r unfolding slot_ok_def by auto
  have pre: "index_slots ix < 2 ^ 31 - 1" "rid \<noteq> []" "length v = index_width ix" using Cons.prems r v by auto
  obtain ix1 where ix1: "index_add h ix rid v = Some (Inr (), ix1)" "index_ok h ix1" "index_slots ix1 \<le> index_slots ix + 1"
    "index_width ix1 = index_width ix" "index_dist h ix1 = index_dist h ix" "index_contents ix1 = (index_contents ix)(rid \<mapsto> v)"
    using index.add_ok [OF Cons.prems(1) pre v(3)] by (elim exE conjE)
  have pre1: "index_width ix1 = co_dim c" "index_slots ix1 + length rs < 2 ^ 31" "distinct (map fst rs)"
    "\<forall>(rid, slot) \<in> set rs. rid \<noteq> [] \<and> slot_ok c a slot"
    using Cons.prems ix1 by simp_all
  obtain ix' where ix': "populate_index h c a rs ix1 = Some (Inr ix')" "index_ok h ix'"
    "index_slots ix' \<le> index_slots ix1 + length rs" "index_width ix' = index_width ix1" "index_dist h ix' = index_dist h ix1"
    "index_type_of ix' = index_type_of ix1"
    "index_contents ix' = (\<lambda>rid. case omap_find rid rs of None \<Rightarrow> index_contents ix1 rid | Some slot \<Rightarrow> slot_components c a slot)"
    using Cons.IH [OF ix1(2) pre1] by (elim exE conjE)
  have fresh: "omap_find rid rs = None" using Cons.prems(4) r by (simp add: omap_find_None)
  have contents: "index_contents ix' =
      (\<lambda>r'. case omap_find r' (r # rs) of None \<Rightarrow> index_contents ix r' | Some slot \<Rightarrow> slot_components c a slot)"
    unfolding ix'(7) ix1(6) using fresh v(1) r by (intro ext) (auto split: option.split)
  have run: "populate_index h c a (r # rs) ix = Some (Inr ix')" using r v(1) ix1(1) ix'(1) by simp
  show ?case
    using run contents ix'(2-6) ix1(3,4,5) index_add_type [OF ix1(1)] by (intro exI [of _ ix']) simp
qed simp

lemma index_param_valid: "index_param_error type params n = None \<Longrightarrow> type = HNSW \<or> type = IVF"
  by (cases type) (simp_all add: index_param_error_def)

lemma coll_build_index_ok:
  assumes ok: "coll_ok h c a" and valid: "index_param_error type params (co_record_count c) = None"
    and host: "index_host_ok h type (cfg_dim (co_config c)) (cfg_metric (co_config c)) params"
  shows "\<exists>c'. coll_build_index h c a type params = Some (Inr (), c') \<and> coll_ok h c' a \<and> evolves c a c' a
    \<and> coll_view c' a = coll_view c a \<and> co_index_type c' = type \<and> index_used c' \<le> length (co_records c)"
proof -
  note d = coll_stagedD [OF ok [unfolded coll_ok_def]] and mk = make_index_ok [OF host]
  let ?ix = "make_index h type (cfg_dim (co_config c)) (cfg_metric (co_config c)) params"
  have dist: "distinct (map fst (co_records c))" by (rule omap_ok_distinct [OF d(1)])
  have slots: "\<forall>(rid, slot) \<in> set (co_records c). rid \<noteq> [] \<and> slot_ok c a slot"
    using d(4) dist unfolding slots_ok_def by (auto simp: omap_find_Some_iff)
  have "index_slots ?ix + length (co_records c) < 2 ^ 31" using mk(3) d(3) by simp
  then obtain ix where ix: "populate_index h c a (co_records c) ?ix = Some (Inr ix)" "index_ok h ix"
    "index_slots ix \<le> index_slots ?ix + length (co_records c)" "index_width ix = index_width ?ix"
    "index_dist h ix = index_dist h ?ix" "index_type_of ix = index_type_of ?ix"
    "index_contents ix = (\<lambda>rid. case omap_find rid (co_records c) of None \<Rightarrow> index_contents ?ix rid | Some slot \<Rightarrow> slot_components c a slot)"
    using populate_ok [OF mk(1,4) _ dist slots] by blast
  let ?c' = "c\<lparr>co_index := Some ix, co_index_type := type\<rparr>"
  have type: "index_type_of ix = type" using ix(6) mk(6) index_param_valid [OF valid] by simp
  have sc: "slot_components ?c' = slot_components c" by (intro ext slot_components_cong [THEN fun_cong]) simp_all
  have "index_contents ix = rec_vector c a" unfolding ix(7) mk(2) by (rule ext) (simp add: rec_vector_def)
  moreover have rv: "rec_vector ?c' a = rec_vector c a" unfolding rec_vector_def sc by simp
  ultimately have "index_matches h ?c' a" using ix(2,4,5) mk(4,5) type by (simp add: index_matches_def)
  moreover have "slots_ok ?c' a" using d(4) by (simp add: slots_ok_def slot_ok_def sc)
  ultimately have "coll_ok h ?c' a" using d(1-8) by (simp add: coll_ok_def coll_staged_def)
  moreover have "coll_view ?c' a = coll_view c a" unfolding coll_view_def sc by simp
  moreover have "coll_build_index h c a type params = Some (Inr (), ?c')" using valid ix(1) by (simp add: coll_build_index_def)
  moreover have "index_used ?c' \<le> length (co_records c)" using ix(3) mk(3) by (simp add: index_used_def)
  ultimately show ?thesis by (intro exI [of _ ?c']) (simp add: evolves_def)
qed

lemma coll_build_index_invalid:
  "index_param_error type params (co_record_count c) = Some e \<Longrightarrow> coll_build_index h c a type params = Some (Inl e, c)"
  by (simp add: coll_build_index_def)

end
