(* ===== verification/Collection_Query.thy ===== *)
theory Collection_Query
  imports Collection_Ops
begin

text \<open>
  What a query returns: \<open>min k n\<close> records with their exact distances, each record once, nearest
  first; and without an index, or with \<open>k\<close> at least the number of records, exactly the first
  \<open>k\<close> of all records in that order.
\<close>

section \<open>Exact distances\<close>

abbreviation coll_dist :: "host \<Rightarrow> collection \<Rightarrow> f32 list \<Rightarrow> f32 list \<Rightarrow> f32" where
  "coll_dist h c \<equiv> distance_or_inf (h_calculator h) (cfg_metric (co_config c))"

text \<open>A result names a record and gives its exact distance.\<close>

definition exact_hit :: "host \<Rightarrow> collection \<Rightarrow> allocator \<Rightarrow> f32 list \<Rightarrow> neighbor \<Rightarrow> bool" where
  "exact_hit h c a q r \<longleftrightarrow> (\<exists>v. rec_vector c a (fst r) = Some v \<and> snd r = coll_dist h c q v)"

text \<open>Every record with its distance, in identifier order.\<close>

definition all_distances :: "host \<Rightarrow> collection \<Rightarrow> allocator \<Rightarrow> f32 list \<Rightarrow> neighbor list" where
  "all_distances h c a q = map (\<lambda>rid. (rid, coll_dist h c q (the (rec_vector c a rid)))) (map fst (co_records c))"

lemma record_slot_ok:
  assumes ok: "coll_ok h c a" and m: "(rid, slot) \<in> set (co_records c)"
  obtains v where "slot_components c a slot = Some v" "rec_vector c a rid = Some v" "length v = co_dim c" "finite_vec v" "rid \<noteq> []"
proof -
  note d = coll_stagedD [OF ok [unfolded coll_ok_def]]
  have f: "omap_find rid (co_records c) = Some slot" using m omap_find_Some_iff [OF omap_ok_distinct [OF d(1)]] by simp
  then obtain v where v: "slot_components c a slot = Some v" "length v = co_dim c" "finite_vec v" "rid \<noteq> []"
    using d(4) unfolding slots_ok_def slot_ok_def by blast
  then show ?thesis using that [of v] f by (simp add: rec_vector_def)
qed

lemma rec_vector_ok:
  assumes ok: "coll_ok h c a" and f: "rec_vector c a rid = Some v"
  shows "length v = co_dim c" "finite_vec v" "rid \<in> omap_keys (co_records c)"
proof -
  obtain slot where s: "omap_find rid (co_records c) = Some slot" "slot_components c a slot = Some v"
    using f by (auto simp: rec_vector_def split: option.splits)
  then have "(rid, slot) \<in> set (co_records c)" using omap_find_SomeD by fast
  then obtain w where "slot_components c a slot = Some w" "length w = co_dim c" "finite_vec w"
    using record_slot_ok [OF ok] by metis
  then show "length v = co_dim c" "finite_vec v" using s by simp_all
  show "rid \<in> omap_keys (co_records c)" using \<open>(rid, slot) \<in> set (co_records c)\<close> by force
qed

lemma map_fst_all [simp]: "map fst (all_distances h c a q) = map fst (co_records c)"
  by (simp add: all_distances_def comp_def)

lemma length_all [simp]: "length (all_distances h c a q) = length (co_records c)"
  by (simp add: all_distances_def)

lemma all_distances_hit: "coll_ok h c a \<Longrightarrow> r \<in> set (all_distances h c a q) \<Longrightarrow> exact_hit h c a q r"
proof -
  assume ok: "coll_ok h c a" and "r \<in> set (all_distances h c a q)"
  then obtain rid slot where r: "(rid, slot) \<in> set (co_records c)" "r = (rid, coll_dist h c q (the (rec_vector c a rid)))"
    by (auto simp: all_distances_def)
  obtain v where "rec_vector c a rid = Some v" using record_slot_ok [OF ok r(1)] by metis
  then show ?thesis using r(2) by (simp add: exact_hit_def)
qed

lemma brute_force_all:
  assumes ok: "coll_ok h c a"
  shows "brute_force h c a q = Some (all_distances h c a q)"
proof -
  have "ofold (\<lambda>(rid, slot) out. map_option (\<lambda>d. out @ [(rid, d)]) (exact_distance h c a q slot)) rs out
      = Some (out @ map (\<lambda>rid. (rid, coll_dist h c q (the (rec_vector c a rid)))) (map fst rs))"
    if "set rs \<subseteq> set (co_records c)" for rs out
    using that
  proof (induction rs arbitrary: out)
    case (Cons r rs)
    obtain rid slot where r: "r = (rid, slot)" by (cases r)
    have "(rid, slot) \<in> set (co_records c)" using Cons.prems r by simp
    then obtain v where "slot_components c a slot = Some v" "rec_vector c a rid = Some v"
      using record_slot_ok [OF ok] by metis
    then show ?case using Cons r by (simp add: exact_distance_def)
  qed simp
  from this [of "co_records c" "[]"] show ?thesis by (simp add: brute_force_def all_distances_def)
qed

lemma rerank_ok:
  assumes ok: "coll_ok h c a"
  shows "\<exists>rs. rerank h c a q cands = Some rs \<and> distinct (map fst rs) \<and> list_all (exact_hit h c a q) rs"
proof -
  define P where "P = (\<lambda>(cs :: candidate list) (st :: record_id list \<times> neighbor list). set (fst st) = fst ` set (snd st)
      \<and> distinct (map fst (snd st)) \<and> list_all (exact_hit h c a q) (snd st))"
  have "\<exists>st. ofold (\<lambda>(rid, _) (seen, out).
        case omap_find rid (co_records c) of
          None \<Rightarrow> Some (seen, out)
        | Some slot \<Rightarrow>
            if rid \<in> set seen then Some (seen, out)
            else map_option (\<lambda>d. (rid # seen, out @ [(rid, d)])) (exact_distance h c a q slot)) cands ([], []) = Some st \<and> P [] st"
  proof (rule ofold_invariant [where P = P])
    show "P cands ([], [])" by (simp add: P_def)
    fix x :: candidate and xs and st :: "record_id list \<times> neighbor list" assume p: "P (x # xs) st"
    obtain rid d seen out where x: "x = (rid, d)" "st = (seen, out)" by (cases x, cases st)
    show "\<exists>st'. (case x of (rid, _) \<Rightarrow> \<lambda>(seen, out).
        case omap_find rid (co_records c) of
          None \<Rightarrow> Some (seen, out)
        | Some slot \<Rightarrow>
            if rid \<in> set seen then Some (seen, out)
            else map_option (\<lambda>d. (rid # seen, out @ [(rid, d)])) (exact_distance h c a q slot)) st = Some st' \<and> P xs st'"
    proof (cases "omap_find rid (co_records c)")
      case None
      then show ?thesis using p x by (simp add: P_def)
    next
      case (Some slot)
      obtain v where v: "slot_components c a slot = Some v" "rec_vector c a rid = Some v"
        using record_slot_ok [OF ok omap_find_SomeD [OF Some]] by metis
      then have "exact_hit h c a q (rid, coll_dist h c q v)" by (simp add: exact_hit_def)
      then show ?thesis using p x Some v(1) by (simp add: P_def exact_distance_def)
    qed
  qed
  then obtain st where "ofold (\<lambda>(rid, _) (seen, out).
        case omap_find rid (co_records c) of
          None \<Rightarrow> Some (seen, out)
        | Some slot \<Rightarrow>
            if rid \<in> set seen then Some (seen, out)
            else map_option (\<lambda>d. (rid # seen, out @ [(rid, d)])) (exact_distance h c a q slot)) cands ([], []) = Some st" "P [] st"
    by (elim exE conjE)
  then show ?thesis by (simp add: rerank_def P_def)
qed

lemma hits_bounded:
  assumes ok: "coll_ok h c a" and rs: "distinct (map fst rs)" "list_all (exact_hit h c a q) rs"
  shows "length rs \<le> length (co_records c)"
proof -
  have "fst r \<in> omap_keys (co_records c)" if r: "r \<in> set rs" for r
  proof -
    have "exact_hit h c a q r" using rs(2) r by (simp add: list_all_iff)
    then obtain v where "rec_vector c a (fst r) = Some v" unfolding exact_hit_def by (elim exE conjE)
    then show ?thesis by (rule rec_vector_ok(3) [OF ok])
  qed
  then have "set (map fst rs) \<subseteq> omap_keys (co_records c)" by auto
  then have "card (set (map fst rs)) \<le> card (omap_keys (co_records c))" by (intro card_mono) simp_all
  also have "\<dots> \<le> length (co_records c)" by (metis card_length length_map set_map)
  finally show ?thesis using distinct_card [OF rs(1)] by simp
qed


lemma count_value: "coll_ok h c a \<Longrightarrow> unat (co_record_count c) = length (co_records c)"
  using coll_stagedD(2,3) [of h c a "{}"] by (simp add: coll_ok_def unat_of_nat)


section \<open>The results before sorting\<close>

lemma search_keeps:
  assumes ok: "coll_ok h c a" and ix: "co_index c = Some ix"
    and ix': "index_ok h ix'" "index_width ix' = index_width ix" "index_dist h ix' = index_dist h ix"
      "index_contents ix' = index_contents ix" "index_type_of ix' = index_type_of ix" "index_slots ix' = index_slots ix"
  defines "c' \<equiv> c\<lparr>co_index := Some ix'\<rparr>"
  shows "coll_ok h c' a" "coll_view c' a = coll_view c a" "evolves c a c' a" "index_used c' = index_used c"
proof -
  note d = coll_stagedD [OF ok [unfolded coll_ok_def]]
  have sc: "slot_components c' = slot_components c" unfolding c'_def by (intro ext slot_components_cong [THEN fun_cong]) simp_all
  have rv: "rec_vector c' a = rec_vector c a" unfolding rec_vector_def sc by (simp add: c'_def)
  have "index_matches h c' a" using d(9) ix ix' rv by (simp add: index_matches_def c'_def)
  moreover have "slots_ok c' a" using d(4) by (simp add: slots_ok_def slot_ok_def sc) (simp add: c'_def)
  ultimately show "coll_ok h c' a" using d(1-8) by (simp add: coll_ok_def coll_staged_def c'_def)
  show "coll_view c' a = coll_view c a" unfolding coll_view_def sc by (simp add: c'_def)
  show "evolves c a c' a" "index_used c' = index_used c" using ix ix'(6) by (simp_all add: evolves_def index_used_def c'_def)
qed

lemma index_results_ok:
  assumes ok: "coll_ok h c a" and ix: "co_index c = Some ix" and used: "index_used c < 2 ^ 31"
    and q: "length q = co_dim c" "finite_vec q"
  shows "\<exists>rs ix'. index_results h c a q k params ix = Some (rs, ix') \<and> distinct (map fst rs) \<and> list_all (exact_hit h c a q) rs
    \<and> min (unat k) (unat (co_record_count c)) \<le> length rs
    \<and> coll_ok h (c\<lparr>co_index := Some ix'\<rparr>) a \<and> coll_view (c\<lparr>co_index := Some ix'\<rparr>) a = coll_view c a
    \<and> evolves c a (c\<lparr>co_index := Some ix'\<rparr>) a \<and> index_used (c\<lparr>co_index := Some ix'\<rparr>) = index_used c"
proof -
  note d = coll_stagedD [OF ok [unfolded coll_ok_def]]
  have m: "index_ok h ix" "index_width ix = co_dim c" using d(9) ix by (simp_all add: index_matches_def)
  have pre: "index_slots ix < 2 ^ 31" "length q = index_width ix" using used ix q(1) m(2) by (simp_all add: index_used_def)
  obtain cs ix' where s: "index_search h ix q k params = Some (cs, ix')" "index_ok h ix'" "index_slots ix' = index_slots ix"
    "index_width ix' = index_width ix" "index_dist h ix' = index_dist h ix" "index_contents ix' = index_contents ix"
    using index.search_ok [OF m(1) pre q(2), of k params] by (elim exE conjE)
  note keeps = search_keeps [OF ok ix s(2,4,5,6) index_search_type [OF s(1)] s(3)]
  obtain rs where rs: "rerank h c a q cs = Some rs" "distinct (map fst rs)" "list_all (exact_hit h c a q) rs"
    using rerank_ok [OF ok, of q cs] by (elim exE conjE)
  show ?thesis
  proof (cases "length rs < min (unat k) (unat (co_record_count c))")
    case True
    have "list_all (exact_hit h c a q) (all_distances h c a q)" using all_distances_hit [OF ok] by (simp add: list_all_iff)
    moreover have "distinct (map fst (all_distances h c a q))" using omap_ok_distinct [OF d(1)] by simp
    moreover note count_value [OF ok]
    ultimately show ?thesis
      using True s(1) rs(1) keeps by (simp add: index_results_def brute_force_all [OF ok])
  next
    case False
    then have "min (unat k) (unat (co_record_count c)) \<le> length rs" by linarith
    moreover have "index_results h c a q k params ix = Some (rs, ix')"
      unfolding index_results_def s(1) option.case prod.case rs(1) using False by (simp only: if_False)
    ultimately show ?thesis using rs keeps by (intro exI [of _ rs] exI [of _ ix'] conjI)
  qed
qed


lemma query_results_ok:
  assumes ok: "coll_ok h c a" and used: "index_used c < 2 ^ 31" and q: "length q = co_dim c" "finite_vec q"
  shows "\<exists>rs c'. query_results h c a q k params = Some (rs, c') \<and> distinct (map fst rs) \<and> list_all (exact_hit h c a q) rs
    \<and> min (unat k) (length (co_records c)) \<le> length rs
    \<and> coll_ok h c' a \<and> coll_view c' a = coll_view c a \<and> evolves c a c' a \<and> index_used c' = index_used c"
proof -
  note d = coll_stagedD [OF ok [unfolded coll_ok_def]]
  have brute: ?thesis if "query_results h c a q k params = map_option (\<lambda>rs. (rs, c)) (brute_force h c a q)"
  proof -
    have "list_all (exact_hit h c a q) (all_distances h c a q)" using all_distances_hit [OF ok] by (simp add: list_all_iff)
    then show ?thesis using that omap_ok_distinct [OF d(1)] ok by (simp add: brute_force_all [OF ok])
  qed
  show ?thesis
  proof (cases "co_index c")
    case None
    then show ?thesis by (intro brute) (simp add: query_results_def)
  next
    case (Some ix)
    show ?thesis
    proof (cases "co_index_type c \<noteq> NoIndex \<and> unat k < unat (co_record_count c)")
      case True
      obtain rs ix' where r: "index_results h c a q k params ix = Some (rs, ix')" "distinct (map fst rs)"
        "list_all (exact_hit h c a q) rs" "min (unat k) (unat (co_record_count c)) \<le> length rs"
        "coll_ok h (c\<lparr>co_index := Some ix'\<rparr>) a" "coll_view (c\<lparr>co_index := Some ix'\<rparr>) a = coll_view c a"
        "evolves c a (c\<lparr>co_index := Some ix'\<rparr>) a" "index_used (c\<lparr>co_index := Some ix'\<rparr>) = index_used c"
        using index_results_ok [OF ok Some used q, of k params] by (elim exE conjE)
      then show ?thesis
        using True Some by (simp add: query_results_def count_value [OF ok])
    next
      case False
      then show ?thesis
        using Some by (intro brute) (simp only: query_results_def option.case if_False)
    qed
  qed
qed

lemma hits_no_nan:
  assumes ok: "coll_ok h c a" and nan: "nan_free h (cfg_metric (co_config c)) (co_dim c)"
    and q: "length q = co_dim c" "finite_vec q" and rs: "list_all (exact_hit h c a q) rs"
  shows "no_nan rs"
proof
  fix r assume "r \<in> set rs"
  then have "exact_hit h c a q r" using rs by (simp add: list_all_iff)
  then obtain v where v: "rec_vector c a (fst r) = Some v" "snd r = coll_dist h c q v" unfolding exact_hit_def by (elim exE conjE)
  show "\<not> f32_isnan (snd r)" unfolding v(2) by (rule nan_freeD [OF nan q(1) rec_vector_ok(1) [OF ok v(1)] q(2) rec_vector_ok(2) [OF ok v(1)]])
qed

text \<open>The result of a valid query.\<close>

definition query_answer :: "host \<Rightarrow> collection \<Rightarrow> allocator \<Rightarrow> f32 list \<Rightarrow> nat \<Rightarrow> neighbor list \<Rightarrow> bool" where
  "query_answer h c a q k rs \<longleftrightarrow>
     length rs = min k (length (co_records c)) \<and> distinct (map fst rs) \<and> sorted_by by_distance_then_id rs \<and>
     list_all (exact_hit h c a q) rs"

lemma sorted_by_take: "sorted_by lt xs \<Longrightarrow> sorted_by lt (take n xs)"
  by (rule sorted_wrt_take)

lemma list_all_take: "list_all P xs \<Longrightarrow> list_all P (take n xs)"
  by (auto simp: list_all_iff dest: in_set_takeD)

lemma coll_query_ok:
  assumes ok: "coll_ok h c a" and used: "index_used c < 2 ^ 31" and k: "\<not> k < 1" and q: "length q = co_dim c" "finite_vec q"
    and nan: "nan_free h (cfg_metric (co_config c)) (co_dim c)"
  shows "\<exists>rs c'. coll_query h c a q k params = Some (Inr rs, c') \<and> query_answer h c a q (unat k) rs
    \<and> coll_ok h c' a \<and> coll_view c' a = coll_view c a \<and> evolves c a c' a \<and> index_used c' = index_used c"
proof (cases "co_record_count c = 0")
  case True
  then have "co_records c = []" using count_value [OF ok] by simp
  then show ?thesis
    using True k q ok first_non_finite_length [of q] by (simp add: coll_query_def query_answer_def)
next
  case False
  obtain rs c' where r: "query_results h c a q k params = Some (rs, c')" "distinct (map fst rs)" "list_all (exact_hit h c a q) rs"
    "min (unat k) (length (co_records c)) \<le> length rs"
    "coll_ok h c' a" "coll_view c' a = coll_view c a" "evolves c a c' a" "index_used c' = index_used c"
    using query_results_ok [OF ok used q, of k params] by (elim exE conjE)
  let ?s = "sort_by by_distance_then_id rs"
  have nn: "no_nan rs" by (rule hits_no_nan [OF ok nan q r(3)])
  have perm: "mset ?s = mset rs" by (rule mset_sort_by)
  have "length ?s = length rs" using perm by (rule mset_eq_length)
  then have len: "length (take (unat k) ?s) = min (unat k) (length (co_records c))"
    using r(4) hits_bounded [OF ok r(2,3)] by simp
  have "distinct (map fst ?s)" using r(2) perm by (metis mset_eq_imp_distinct_iff mset_map)
  then have dist: "distinct (map fst (take (unat k) ?s))" by (simp add: take_map [symmetric])
  have "list_all (exact_hit h c a q) ?s" using r(3) mset_eq_setD [OF perm] by (simp add: list_all_iff)
  then have "query_answer h c a q (unat k) (take (unat k) ?s)"
    unfolding query_answer_def using len dist sorted_by_take [OF results_sort_sorted [OF nn]] list_all_take by blast
  moreover have "coll_query h c a q k params = Some (Inr (take (unat k) ?s), c')"
    using False k q r(1) first_non_finite_length [of q] results_sort_defined [OF nn] by (simp add: coll_query_def)
  ultimately show ?thesis using r(5-8) by (intro exI [of _ "take (unat k) ?s"] exI [of _ c']) simp
qed

text \<open>Without an index, or when every record is asked for, the answer is exact.\<close>

lemma coll_query_exact:
  assumes ok: "coll_ok h c a" and k: "\<not> k < 1" and q: "length q = co_dim c" "finite_vec q"
    and nan: "nan_free h (cfg_metric (co_config c)) (co_dim c)"
    and flat: "co_index c = None \<or> length (co_records c) \<le> unat k"
  shows "coll_query h c a q k params =
    Some (Inr (take (unat k) (sort_by by_distance_then_id (all_distances h c a q))), c)"
proof -
  have brute: "query_results h c a q k params = map_option (\<lambda>rs. (rs, c)) (brute_force h c a q)"
    using flat count_value [OF ok] by (cases "co_index c") (simp_all add: query_results_def)
  have "list_all (exact_hit h c a q) (all_distances h c a q)" using all_distances_hit [OF ok] by (simp add: list_all_iff)
  then have nn: "no_nan (all_distances h c a q)" by (rule hits_no_nan [OF ok nan q])
  show ?thesis
  proof (cases "co_record_count c = 0")
    case True
    then have "co_records c = []" using count_value [OF ok] by simp
    then show ?thesis
      using True k q first_non_finite_length [of q] by (simp add: coll_query_def all_distances_def)
  next
    case False
    then show ?thesis
      using k q first_non_finite_length [of q] results_sort_defined [OF nn]
      by (simp add: coll_query_def brute brute_force_all [OF ok])
  qed
qed

end
