(* ===== verification/Snapshot_Image.thy ===== *)
theory Snapshot_Image
  imports Snapshot Hnsw_Roundtrip Collection_Query
begin

text \<open>
  The layout of a snapshot image, and what the loader's reading functions return on it.
\<close>

section \<open>The header\<close>

lemma write_header_bytes:
  "write_header hdr = kMagic @ le_bytes32 (hd_format_version hdr) @ le_bytes32 (hd_flags hdr) @ le_bytes32 (hd_dimensionality hdr)
     @ [hd_metric hdr] @ [hd_index_type hdr] @ [hd_reserved0 hdr] @ [hd_reserved1 hdr] @ le_bytes64 (hd_record_count hdr)
     @ le_bytes32 (hd_name_length hdr) @ le_bytes64 (hd_vector_off hdr) @ le_bytes64 (hd_vector_len hdr)
     @ le_bytes64 (hd_index_off hdr) @ le_bytes64 (hd_index_len hdr) @ le_bytes64 (hd_content_crc64 hdr)"
  by (simp add: write_header_def put_appends)

lemma length_kMagic: "length kMagic = 8"
  by (simp add: kMagic_def)

lemma length_write_header [simp]: "length (write_header hdr) = kHeaderSize"
  by (simp add: write_header_bytes length_kMagic kHeaderSize_def)

lemma read_header_written:
  assumes "length (write_header hdr @ rest) < 2 ^ 64"
  shows "read_header (write_header hdr @ rest) = Some hdr"
proof -
  let ?t14 = rest
  let ?t13 = "le_bytes64 (hd_content_crc64 hdr) @ ?t14"
  let ?t12 = "le_bytes64 (hd_index_len hdr) @ ?t13"
  let ?t11 = "le_bytes64 (hd_index_off hdr) @ ?t12"
  let ?t10 = "le_bytes64 (hd_vector_len hdr) @ ?t11"
  let ?t9 = "le_bytes64 (hd_vector_off hdr) @ ?t10"
  let ?t8 = "le_bytes32 (hd_name_length hdr) @ ?t9"
  let ?t7 = "le_bytes64 (hd_record_count hdr) @ ?t8"
  let ?t6 = "[hd_reserved1 hdr] @ ?t7"
  let ?t5 = "[hd_reserved0 hdr] @ ?t6"
  let ?t4 = "[hd_index_type hdr] @ ?t5"
  let ?t3 = "[hd_metric hdr] @ ?t4"
  let ?t2 = "le_bytes32 (hd_dimensionality hdr) @ ?t3"
  let ?t1 = "le_bytes32 (hd_flags hdr) @ ?t2"
  let ?t0 = "le_bytes32 (hd_format_version hdr) @ ?t1"
  have start: "reads (new_reader (write_header hdr @ rest)) (kMagic @ ?t0)"
    using reads_new [OF assms] by (simp add: write_header_bytes)
  obtain r0 where r0: "get_raw (new_reader (write_header hdr @ rest)) 8 = (Some kMagic, r0)" "reads r0 ?t0"
    using get_raw_reads [OF start] reads_advance [OF start] by (simp add: length_kMagic)
  obtain r1 where r1: "get_u32 r0 = (hd_format_version hdr, r1)" "reads r1 ?t1" using u32.dec_step r0(2) by blast
  obtain r2 where r2: "get_u32 r1 = (hd_flags hdr, r2)" "reads r2 ?t2" using u32.dec_step r1(2) by blast
  obtain r3 where r3: "get_u32 r2 = (hd_dimensionality hdr, r3)" "reads r3 ?t3" using u32.dec_step r2(2) by blast
  obtain r4 where r4: "get_u8 r3 = (hd_metric hdr, r4)" "reads r4 ?t4" using u8.dec_step r3(2) by blast
  obtain r5 where r5: "get_u8 r4 = (hd_index_type hdr, r5)" "reads r5 ?t5" using u8.dec_step r4(2) by blast
  obtain r6 where r6: "get_u8 r5 = (hd_reserved0 hdr, r6)" "reads r6 ?t6" using u8.dec_step r5(2) by blast
  obtain r7 where r7: "get_u8 r6 = (hd_reserved1 hdr, r7)" "reads r7 ?t7" using u8.dec_step r6(2) by blast
  obtain r8 where r8: "get_u64 r7 = (hd_record_count hdr, r8)" "reads r8 ?t8" using u64.dec_step r7(2) by blast
  obtain r9 where r9: "get_u32 r8 = (hd_name_length hdr, r9)" "reads r9 ?t9" using u32.dec_step r8(2) by blast
  obtain r10 where r10: "get_u64 r9 = (hd_vector_off hdr, r10)" "reads r10 ?t10" using u64.dec_step r9(2) by blast
  obtain r11 where r11: "get_u64 r10 = (hd_vector_len hdr, r11)" "reads r11 ?t11" using u64.dec_step r10(2) by blast
  obtain r12 where r12: "get_u64 r11 = (hd_index_off hdr, r12)" "reads r12 ?t12" using u64.dec_step r11(2) by blast
  obtain r13 where r13: "get_u64 r12 = (hd_index_len hdr, r13)" "reads r13 ?t13" using u64.dec_step r12(2) by blast
  obtain r14 where r14: "get_u64 r13 = (hd_content_crc64 hdr, r14)" "rd_ok r14" using u64.dec_step r13(2) by blast
  show ?thesis
    unfolding read_header_def Let_def
    by (simp only: r0(1) r1(1) r2(1) r3(1) r4(1) r5(1) r6(1) r7(1) r8(1) r9(1) r10(1) r11(1) r12(1) r13(1) r14 prod.case if_False
        simp_thms) simp
qed


section \<open>The body\<close>

definition record_bytes :: "nat \<times> snapshot_record \<Rightarrow> u8 list" where
  "record_bytes ir = str_bytes (sr_id (snd ir)) @ le_bytes64 (word_of_nat (fst ir))
     @ le_bytes32 (word_of_nat (length (metadata_bytes (sr_meta (snd ir))))) @ metadata_bytes (sr_meta (snd ir))"

definition directory_bytes :: "nat \<Rightarrow> snapshot_record list \<Rightarrow> u8 list" where
  "directory_bytes i rs = concat (map record_bytes (enumerate i rs))"

definition vec_bytes :: "f32 list \<Rightarrow> u8 list" where
  "vec_bytes v = concat (map le_bytes32 v)"

definition vectors_bytes :: "snapshot_record list \<Rightarrow> u8 list" where
  "vectors_bytes rs = concat (map (vec_bytes \<circ> sr_vector) rs)"

lemma encode_record_appends: "encode_record w ir = w @ record_bytes ir"
  by (cases ir) (simp add: encode_record_def Let_def put_appends record_bytes_def metadata_bytes_def)

lemma encode_directory_appends: "encode_directory w rs = w @ directory_bytes 0 rs"
  unfolding encode_directory_def directory_bytes_def by (rule foldl_appends) (rule encode_record_appends)

lemma encode_vectors_appends:
  assumes "\<forall>rec \<in> set rs. length (sr_vector rec) = dm"
  shows "encode_vectors dm w rs = w @ vectors_bytes rs"
proof -
  have one: "foldl (\<lambda>w c. put_f32 w (sr_vector rec ! c)) w [0..<dm] = w @ vec_bytes (sr_vector rec)" if "rec \<in> set rs" for w rec
  proof -
    have "foldl (\<lambda>w c. put_f32 w (sr_vector rec ! c)) w [0..<dm] = w @ concat (map (\<lambda>c. le_bytes32 (sr_vector rec ! c)) [0..<dm])"
      by (rule foldl_appends) (rule put_appends)
    also have "map (\<lambda>c. le_bytes32 (sr_vector rec ! c)) [0..<dm] = map le_bytes32 (sr_vector rec)"
      using assms that by (intro nth_equalityI) simp_all
    finally show ?thesis by (simp add: vec_bytes_def)
  qed
  show ?thesis
    using one unfolding encode_vectors_def vectors_bytes_def
  proof (induction rs arbitrary: w)
    case (Cons rec rs)
    then show ?case by simp
  qed simp
qed

lemma length_vec_bytes [simp]: "length (vec_bytes v) = 4 * length v"
  by (induction v) (simp_all add: vec_bytes_def)

lemma length_vectors_bytes: "\<forall>rec \<in> set rs. length (sr_vector rec) = dm \<Longrightarrow> length (vectors_bytes rs) = length rs * (4 * dm)"
  by (induction rs) (simp_all add: vectors_bytes_def)

lemma vec_bytes_nth: "i < length v \<Longrightarrow> j < 4 \<Longrightarrow> vec_bytes v ! (4 * i + j) = le_bytes32 (v ! i) ! j"
proof (induction v arbitrary: i)
  case (Cons x v)
  show ?case
  proof (cases i)
    case 0
    then show ?thesis using Cons.prems(2) by (simp add: vec_bytes_def nth_append)
  next
    case (Suc k)
    have "vec_bytes (x # v) ! (4 * i + j) = vec_bytes v ! (4 * k + j)"
      by (simp add: vec_bytes_def Suc nth_append)
    then show ?thesis using Cons Suc by simp
  qed
qed simp

text \<open>Reading a vector back from the mapping.\<close>

lemma mapped_floats_at:
  assumes "drop off bs = vec_bytes v @ rest" "off \<le> length bs"
  shows "mapped_floats bs off (length v) = Some v"
proof -
  have "length bs - off = 4 * length v + length rest" using arg_cong [OF assms(1), of length] by simp
  then have len: "off + 4 * length v \<le> length bs" using assms(2) by linarith
  have nth: "bs ! (off + 4 * i + j) = le_bytes32 (v ! i) ! j" if "i < length v" "j < 4" for i j
  proof -
    have "4 * i + j < 4 * length v" using that by linarith
    then have "bs ! (off + 4 * i + j) = (vec_bytes v @ rest) ! (4 * i + j)"
      using assms by (simp add: assms(1) [symmetric] add.assoc)
    also have "\<dots> = vec_bytes v ! (4 * i + j)" using \<open>4 * i + j < 4 * length v\<close> by (simp add: nth_append)
    finally show ?thesis using vec_bytes_nth [OF that] by simp
  qed
  have "map (\<lambda>i. from_le32 (\<lambda>j. bs ! (off + 4 * i + j))) [0..<length v] = v"
  proof (rule nth_equalityI)
    fix i assume "i < length (map (\<lambda>i. from_le32 (\<lambda>j. bs ! (off + 4 * i + j))) [0..<length v])"
    then have i: "i < length v" by simp
    have "from_le32 (\<lambda>j. bs ! (off + 4 * i + j)) = from_le32 (\<lambda>j. le_bytes32 (v ! i) ! j)"
      by (rule from_le_cong(1)) (rule nth [OF i])
    then show "map (\<lambda>i. from_le32 (\<lambda>j. bs ! (off + 4 * i + j))) [0..<length v] ! i = v ! i" using i le32 by simp
  qed simp
  then show ?thesis using len by (simp add: mapped_floats_def)
qed

lemma vectors_bytes_drop:
  assumes "\<forall>rec \<in> set rs. length (sr_vector rec) = dm" "i < length rs"
  shows "\<exists>rest. drop (i * (4 * dm)) (vectors_bytes rs) = vec_bytes (sr_vector (rs ! i)) @ rest"
  using assms
proof (induction rs arbitrary: i)
  case (Cons rec rs)
  show ?case
  proof (cases i)
    case 0
    then show ?thesis by (simp add: vectors_bytes_def)
  next
    case (Suc k)
    have "drop (i * (4 * dm)) (vectors_bytes (rec # rs)) = drop (k * (4 * dm)) (vectors_bytes rs)"
      using Cons.prems(1) Suc by (simp add: vectors_bytes_def)
    then show ?thesis using Cons Suc by simp
  qed
qed simp



section \<open>The image\<close>

definition directory_part :: "snapshot_data \<Rightarrow> u8 list" where
  "directory_part data = string_bytes (cfg_name (sd_config data)) @ directory_bytes 0 (sd_records data)"

definition padding :: "snapshot_data \<Rightarrow> u8 list" where
  "padding data = replicate (pad_length 64 (kHeaderSize + length (directory_part data))) 0"

definition image_body :: "snapshot_data \<Rightarrow> u8 list" where
  "image_body data = directory_part data @ padding data @ vectors_bytes (sd_records data) @ sd_index_blob data"

definition vector_off :: "snapshot_data \<Rightarrow> nat" where
  "vector_off data = kHeaderSize + length (directory_part data) + length (padding data)"

abbreviation sd_dim :: "snapshot_data \<Rightarrow> nat" where
  "sd_dim data \<equiv> unat (cfg_dim (sd_config data))"

definition vector_len :: "snapshot_data \<Rightarrow> nat" where
  "vector_len data = length (sd_records data) * (4 * sd_dim data)"

definition image_header :: "snapshot_data \<Rightarrow> header" where
  "image_header data =
     \<lparr>hd_format_version = 1, hd_flags = 0, hd_dimensionality = cfg_dim (sd_config data),
      hd_metric = metric_u8 (cfg_metric (sd_config data)), hd_index_type = index_type_u8 (sd_index_type data),
      hd_reserved0 = 0, hd_reserved1 = 0, hd_record_count = word_of_nat (length (sd_records data)),
      hd_name_length = word_of_nat (length (cfg_name (sd_config data))), hd_vector_off = word_of_nat (vector_off data),
      hd_vector_len = word_of_nat (vector_len data), hd_index_off = word_of_nat (vector_off data + vector_len data),
      hd_index_len = word_of_nat (length (sd_index_blob data)), hd_content_crc64 = crc64_ecma (image_body data) 0\<rparr>"

text \<open>What \<open>snapshot_data\<close> of a collection yields, and fits the fields of the format.\<close>

definition record_fits :: "nat \<Rightarrow> snapshot_record \<Rightarrow> bool" where
  "record_fits dm rec \<longleftrightarrow> sr_id rec \<noteq> [] \<and> length (sr_id rec) < 2 ^ 32 \<and> length (sr_vector rec) = dm \<and>
     metadata_fits (sr_meta rec) \<and> length (metadata_bytes (sr_meta rec)) < 2 ^ 32"

definition config_ok :: "collection_config \<Rightarrow> bool" where
  "config_ok config \<longleftrightarrow> cfg_name config \<noteq> [] \<and> length (cfg_name config) \<le> 255 \<and>
     1 \<le> cfg_dim config \<and> cfg_dim config \<le> 65536 \<and> known_metric (cfg_metric config)"

fun known_index_type :: "index_type \<Rightarrow> bool" where
  "known_index_type (IndexTypeValue _) = False"
| "known_index_type _ = True"

definition data_ok :: "snapshot_data \<Rightarrow> bool" where
  "data_ok data \<longleftrightarrow> config_ok (sd_config data) \<and> known_index_type (sd_index_type data) \<and>
     (sd_index_type data = NoIndex) = (sd_index_blob data = []) \<and>
     sorted_wrt (<) (map sr_id (sd_records data)) \<and> list_all (record_fits (sd_dim data)) (sd_records data) \<and>
     kHeaderSize + length (image_body data) < 2 ^ 64"

lemma data_okD:
  assumes "data_ok data"
  shows "config_ok (sd_config data)" "known_index_type (sd_index_type data)"
    "(sd_index_type data = NoIndex) = (sd_index_blob data = [])" "sorted_wrt (<) (map sr_id (sd_records data))"
    "list_all (record_fits (sd_dim data)) (sd_records data)" "kHeaderSize + length (image_body data) < 2 ^ 64"
    "\<forall>rec \<in> set (sd_records data). length (sr_vector rec) = sd_dim data"
  using assms by (simp_all add: data_ok_def list_all_iff record_fits_def)

lemma image_sizes:
  assumes "data_ok data"
  shows "kHeaderSize + length (image_body data) = vector_off data + vector_len data + length (sd_index_blob data)"
    "vector_off data + vector_len data + length (sd_index_blob data) < 2 ^ 64" "length (sd_records data) \<le> vector_len data"
    "length (sd_records data) \<le> length (image_body data)" "kHeaderSize \<le> vector_off data"
    "length (cfg_name (sd_config data)) \<le> length (image_body data)" "0 < sd_dim data" "sd_dim data \<le> 65536"
proof -
  note d = data_okD [OF assms]
  have dim: "1 \<le> cfg_dim (sd_config data)" "cfg_dim (sd_config data) \<le> 65536" using d(1) by (simp_all add: config_ok_def)
  then show dm: "0 < sd_dim data" "sd_dim data \<le> 65536" by (simp_all add: word_le_nat_alt)
  show s: "kHeaderSize + length (image_body data) = vector_off data + vector_len data + length (sd_index_blob data)"
    using length_vectors_bytes [OF d(7)] by (simp add: image_body_def vector_off_def vector_len_def)
  then show "vector_off data + vector_len data + length (sd_index_blob data) < 2 ^ 64" using d(6) by simp
  show n: "length (sd_records data) \<le> vector_len data" using dm by (simp add: vector_len_def)
  show "kHeaderSize \<le> vector_off data" by (simp add: vector_off_def)
  then show "length (sd_records data) \<le> length (image_body data)" using s n by linarith
  show "length (cfg_name (sd_config data)) \<le> length (image_body data)" by (simp add: image_body_def directory_part_def)
qed

lemma encode_image:
  assumes "\<forall>rec \<in> set (sd_records data). length (sr_vector rec) = sd_dim data"
  shows "encode data = write_header (image_header data) @ image_body data"
proof -
  let ?b1 = "pad_body (encode_directory (put_raw [] (string_bytes (cfg_name (sd_config data)))) (sd_records data))"
  have b1: "?b1 = directory_part data @ padding data"
    by (simp add: pad_body_def put_appends encode_directory_appends directory_part_def padding_def)
  have b2: "encode_vectors (sd_dim data) ?b1 (sd_records data) = directory_part data @ padding data @ vectors_bytes (sd_records data)"
    unfolding b1 by (simp add: encode_vectors_appends [OF assms])
  have len: "kHeaderSize + length (directory_part data @ padding data @ vectors_bytes (sd_records data)) = vector_off data + vector_len data"
    using length_vectors_bytes [OF assms] by (simp add: vector_off_def vector_len_def)
  have voff: "kHeaderSize + length ?b1 = vector_off data" unfolding b1 by (simp add: vector_off_def)
  have vlen: "word_of_nat (length (sd_records data)) * ucast (cfg_dim (sd_config data)) * 4 = (word_of_nat (vector_len data) :: u64)"
    by (simp add: vector_len_def)
  have body: "(if sd_index_blob data = [] then directory_part data @ padding data @ vectors_bytes (sd_records data)
      else put_raw (directory_part data @ padding data @ vectors_bytes (sd_records data)) (sd_index_blob data)) = image_body data"
    by (simp add: image_body_def put_appends)
  show ?thesis
    unfolding encode_def Let_def b2 voff vlen body len by (simp add: image_header_def kFormatVersion_def)
qed


lemma image_header_fields:
  assumes "data_ok data"
  shows "unat (hd_record_count (image_header data)) = length (sd_records data)"
    "unat (hd_name_length (image_header data)) = length (cfg_name (sd_config data))"
    "unat (hd_vector_off (image_header data)) = vector_off data" "unat (hd_vector_len (image_header data)) = vector_len data"
    "unat (hd_index_off (image_header data)) = vector_off data + vector_len data"
    "unat (hd_index_len (image_header data)) = length (sd_index_blob data)"
    "hd_dimensionality (image_header data) = cfg_dim (sd_config data)"
    "metric_of_u8 (hd_metric (image_header data)) = cfg_metric (sd_config data)"
    "index_type_of_u8 (hd_index_type (image_header data)) = sd_index_type data"
    "hd_content_crc64 (image_header data) = crc64_ecma (image_body data) 0" "hd_format_version (image_header data) = 1"
proof -
  note sz = image_sizes [OF assms] and d = data_okD [OF assms]
  have small: "unat (word_of_nat k :: u64) = k" if "k < 2 ^ 64" for k using that by (simp add: unat_of_nat)
  show "unat (hd_record_count (image_header data)) = length (sd_records data)" using sz by (simp add: image_header_def small)
  show "unat (hd_vector_off (image_header data)) = vector_off data" using sz by (simp add: image_header_def small)
  show "unat (hd_vector_len (image_header data)) = vector_len data" using sz by (simp add: image_header_def small)
  show "unat (hd_index_off (image_header data)) = vector_off data + vector_len data"
    using sz small [of "vector_off data + vector_len data"] by (simp add: image_header_def)
  show "unat (hd_index_len (image_header data)) = length (sd_index_blob data)" using sz by (simp add: image_header_def small)
  have "length (cfg_name (sd_config data)) \<le> 255" "known_metric (cfg_metric (sd_config data))" using d(1) by (simp_all add: config_ok_def)
  then show "unat (hd_name_length (image_header data)) = length (cfg_name (sd_config data))"
    "metric_of_u8 (hd_metric (image_header data)) = cfg_metric (sd_config data)"
    by (simp_all add: image_header_def unat_of_nat)
  show "index_type_of_u8 (hd_index_type (image_header data)) = sd_index_type data"
    using d(2) by (cases "sd_index_type data") (simp_all add: image_header_def index_type_of_u8_def)
qed (simp_all add: image_header_def)

lemma image_header_ok:
  assumes "data_ok data"
  shows "header_ok (image_header data) (length (write_header (image_header data) @ image_body data))"
proof -
  note sz = image_sizes [OF assms] and d = data_okD [OF assms] and f = image_header_fields [OF assms]
  have len: "length (write_header (image_header data) @ image_body data) = vector_off data + vector_len data + length (sd_index_blob data)"
    using sz(1) by simp
  have "hd_metric (image_header data) \<le> 2"
    using d(1) by (cases "cfg_metric (sd_config data)") (simp_all add: config_ok_def image_header_def)
  moreover have "hd_index_type (image_header data) \<le> 2"
    using d(2) by (cases "sd_index_type data") (simp_all add: image_header_def)
  moreover have "hd_vector_len (image_header data) = hd_record_count (image_header data) * (ucast (hd_dimensionality (image_header data)) * 4)"
    by (simp add: image_header_def vector_len_def)
  moreover have "(hd_index_len (image_header data) = 0) = (sd_index_blob data = [])"
    using f(6) by (metis length_0_conv unat_eq_0)
  ultimately show ?thesis
    using d(1,3) sz f unfolding len header_ok_def by (simp add: config_ok_def)
qed


section \<open>Reading the body\<close>

lemma read_name_reads:
  assumes data: "data_ok data" and r: "reads r (string_bytes (cfg_name (sd_config data)) @ rest)"
  shows "read_name (image_header data) r = Some (cfg_name (sd_config data), advance r (length (cfg_name (sd_config data))))"
proof -
  let ?name = "cfg_name (sd_config data)"
  have name: "?name \<noteq> []" "length ?name \<le> 255" using data_okD(1) [OF data] by (simp_all add: config_ok_def)
  have n: "unat (hd_name_length (image_header data)) = length ?name" by (rule image_header_fields(2) [OF data])
  then have "hd_name_length (image_header data) \<noteq> 0" using name(1) by auto
  moreover have "get_raw r (length ?name) = (Some (string_bytes ?name), advance r (length ?name))"
    using get_raw_reads [OF r] by simp
  moreover have "string_bytes ?name \<noteq> []" using name(1) by (simp add: string_bytes_def)
  ultimately show ?thesis using n name(2) by (simp add: read_name_def)
qed

lemma read_record_reads:
  assumes data: "data_ok data" and rec: "record_fits (sd_dim data) rec" and i: "i < length (sd_records data)"
    and r: "reads r (record_bytes (i, rec) @ rest)"
  shows "read_record (image_header data) r =
    Some ((sr_id rec, vector_off data + i * (4 * sd_dim data), sr_meta rec), advance r (length (record_bytes (i, rec))))"
proof -
  let ?meta = "metadata_bytes (sr_meta rec)"
  have fit: "sr_id rec \<noteq> []" "length (sr_id rec) < 2 ^ 32" "metadata_fits (sr_meta rec)" "length ?meta < 2 ^ 32"
    using rec by (simp_all add: record_fits_def)
  let ?t3 = "?meta @ rest"
  let ?t2 = "le_bytes32 (word_of_nat (length ?meta)) @ ?t3"
  let ?t1 = "le_bytes64 (word_of_nat i) @ ?t2"
  have "reads r (str_bytes (sr_id rec) @ ?t1)" using r by (simp add: record_bytes_def)
  then obtain r1 where r1: "get_string r = (sr_id rec, r1)" "reads r1 ?t1" "r1 = advance r (length (str_bytes (sr_id rec)))"
    using str.dec_step fit(2) by metis
  obtain r2 where r2: "get_u64 r1 = (word_of_nat i, r2)" "reads r2 ?t2" "r2 = advance r1 (length (le_bytes64 (word_of_nat i)))"
    using u64.dec_step r1(2) by blast
  obtain r3 where r3: "get_u32 r2 = (word_of_nat (length ?meta), r3)" "reads r3 ?t3" "rd_ok r3"
    "r3 = advance r2 (length (le_bytes32 (word_of_nat (length ?meta))))"
    using u32.dec_step r2(2) by blast
  have sub: "sub_reader r3 (length ?meta) = (new_reader ?meta, advance r3 (length ?meta))" by (rule sub_reader_reads [OF r3(2)])
  have r4: "rd_ok (advance r3 (length ?meta))" using reads_ok [OF reads_advance [OF r3(2)]] .
  have "length ?meta < 2 ^ 64" using fit(4) by simp
  then have m: "reads (new_reader ?meta) (?meta @ [])" using reads_new by simp
  have meta: "read_metadata (new_reader ?meta) = (Some (sr_meta rec), advance (new_reader ?meta) (length ?meta))"
    by (rule read_metadata_reads [OF fit(3) m])
  have mok: "rd_ok (advance (new_reader ?meta) (length ?meta))" "remaining (advance (new_reader ?meta) (length ?meta)) = 0"
    using reads_advance [OF m] reads_remaining by (force simp: reads_def)+
  have u: "unat (word_of_nat (length ?meta) :: u32) = length ?meta" using fit(4) by (simp add: unat_of_nat)
  note sz = image_sizes [OF data] and f = image_header_fields [OF data]
  have "i < 2 ^ 64" using i sz by linarith
  then have ui: "unat (word_of_nat i :: u64) = i" by (simp add: unat_of_nat)
  have idx: "\<not> hd_record_count (image_header data) \<le> word_of_nat i" using i ui f(1) by (simp add: word_le_nat_alt)
  have "i * (4 * sd_dim data) \<le> vector_len data" unfolding vector_len_def using i by (intro mult_right_mono) simp_all
  then have "i * (4 * sd_dim data) < 2 ^ 64" using sz(2) by linarith
  moreover have "word_of_nat i * (ucast (hd_dimensionality (image_header data)) * 4) = (word_of_nat (i * (4 * sd_dim data)) :: u64)"
    by (simp add: f(7))
  ultimately have off: "unat (word_of_nat i * (ucast (hd_dimensionality (image_header data)) * 4) :: u64) = i * (4 * sd_dim data)"
    by (simp only: unat_of_nat) simp
  show ?thesis
    unfolding read_record_def Let_def
    using r1(1) r2(1) r3(1,3) u sub r4 meta mok fit(1) idx f(3) off r1(3) r2(3) r3(4)
    by (simp add: record_bytes_def add.assoc)
qed

abbreviation image_slot :: "snapshot_data \<Rightarrow> nat \<times> snapshot_record \<Rightarrow> record_id \<times> record_slot" where
  "image_slot data ir \<equiv> (sr_id (snd ir),
     mapped_slot (image_header data) (vector_off data + fst ir * (4 * sd_dim data)) (sr_meta (snd ir)))"

definition image_offsets :: "snapshot_data \<Rightarrow> nat \<Rightarrow> snapshot_record list \<Rightarrow> (record_id \<times> nat) list" where
  "image_offsets data i rs = rev (map (\<lambda>(j, rec). (sr_id rec, vector_off data + j * (4 * sd_dim data))) (enumerate i rs))"

lemma read_directory_reads:
  assumes data: "data_ok data"
  shows "reads r (directory_bytes i rs @ rest) \<Longrightarrow> list_all (record_fits (sd_dim data)) rs \<Longrightarrow> i + length rs \<le> length (sd_records data) \<Longrightarrow>
    sorted_wrt (<) (map fst m @ map sr_id rs) \<Longrightarrow>
    read_directory (length rs) (image_header data) r m vs =
      Some (m @ map (image_slot data) (enumerate i rs), image_offsets data i rs @ vs, advance r (length (directory_bytes i rs)))"
proof (induction rs arbitrary: r i m vs)
  case Nil
  then show ?case by (simp add: directory_bytes_def image_offsets_def advance_def)
next
  case (Cons rec rs)
  let ?r1 = "advance r (length (record_bytes (i, rec)))" and ?slot = "snd (image_slot data (i, rec))"
  have r: "reads r (record_bytes (i, rec) @ directory_bytes (Suc i) rs @ rest)" using Cons.prems(1) by (simp add: directory_bytes_def)
  have fit: "record_fits (sd_dim data) rec" "list_all (record_fits (sd_dim data)) rs" "i < length (sd_records data)"
    "Suc i + length rs \<le> length (sd_records data)"
    using Cons.prems(2,3) by simp_all
  note one = read_record_reads [OF data fit(1,3) r]
  have less: "\<forall>j \<in> omap_keys m. j < sr_id rec" using Cons.prems(4) by (auto simp: sorted_wrt_append)
  have none: "omap_find (sr_id rec) m = None" using less by (auto simp: omap_find_None)
  then have emplace: "omap_emplace (sr_id rec) ?slot m = m @ [(sr_id rec, ?slot)]"
    using omap_set_last [OF less] by (simp add: omap_emplace_def)
  have sorted: "sorted_wrt (<) (map fst (m @ [(sr_id rec, ?slot)]) @ map sr_id rs)" using Cons.prems(4) by simp
  note rest = Cons.IH [OF reads_advance [OF r] fit(2,4) sorted]
  show ?case
    using one none emplace rest by (simp add: image_offsets_def directory_bytes_def add.assoc)
qed



section \<open>The records of the loaded collection\<close>

definition image_records :: "snapshot_data \<Rightarrow> (record_id, record_slot) omap" where
  "image_records data = map (image_slot data) (enumerate 0 (sd_records data))"

definition image_file :: "snapshot_data \<Rightarrow> u8 list" where
  "image_file data = write_header (image_header data) @ image_body data"

text \<open>The collection read from the image, before its index.\<close>

definition image_collection :: "snapshot_data \<Rightarrow> collection_tag \<Rightarrow> collection" where
  "image_collection data tag =
     (new_collection (sd_config data) tag)\<lparr>co_records := image_records data,
        co_record_count := word_of_nat (length (image_records data)), co_index_type := sd_index_type data,
        co_mapped := Some (image_file data)\<rparr>"

lemma read_image_directory:
  assumes data: "data_ok data"
  defines "r \<equiv> advance (new_reader (image_body data)) (length (cfg_name (sd_config data)))"
  shows "read_name (image_header data) (new_reader (drop kHeaderSize (image_file data))) = Some (cfg_name (sd_config data), r)"
    and "\<exists>r'. read_directory (length (sd_records data)) (image_header data) r [] [] =
      Some (image_records data, image_offsets data 0 (sd_records data), r') \<and> rd_pos r' = length (directory_part data)"
proof -
  note d = data_okD [OF data]
  let ?rest = "padding data @ vectors_bytes (sd_records data) @ sd_index_blob data"
  have r0: "reads (new_reader (image_body data)) (string_bytes (cfg_name (sd_config data)) @ directory_bytes 0 (sd_records data) @ ?rest)"
    using reads_new [of "image_body data"] d(6) by (simp add: image_body_def directory_part_def)
  have "drop kHeaderSize (image_file data) = image_body data" by (simp add: image_file_def)
  then show "read_name (image_header data) (new_reader (drop kHeaderSize (image_file data))) = Some (cfg_name (sd_config data), r)"
    unfolding r_def using read_name_reads [OF data r0] by simp
  have "reads r (directory_bytes 0 (sd_records data) @ ?rest)" using reads_advance [OF r0] by (simp add: r_def)
  from read_directory_reads [OF data this d(5), of "[]" "[]"]
  show "\<exists>r'. read_directory (length (sd_records data)) (image_header data) r [] [] =
      Some (image_records data, image_offsets data 0 (sd_records data), r') \<and> rd_pos r' = length (directory_part data)"
    using d(4) by (simp add: image_records_def r_def advance_def new_reader_def directory_part_def)
qed

lemma length_image_records [simp]: "length (image_records data) = length (sd_records data)"
  by (simp add: image_records_def)

lemma image_records_nth:
  "i < length (sd_records data) \<Longrightarrow> image_records data ! i = image_slot data (i, sd_records data ! i)"
  by (simp add: image_records_def nth_enumerate_eq)

lemma map_fst_image_records [simp]: "map fst (image_records data) = map sr_id (sd_records data)"
  by (rule nth_equalityI) (simp_all add: image_records_nth)

lemma image_vector:
  assumes data: "data_ok data" and i: "i < length (sd_records data)"
  shows "mapped_floats (image_file data) (vector_off data + i * (4 * sd_dim data)) (sd_dim data) = Some (sr_vector (sd_records data ! i))"
proof -
  note d = data_okD [OF data]
  let ?rs = "sd_records data" and ?k = "i * (4 * sd_dim data)"
  obtain rest where rest: "drop ?k (vectors_bytes ?rs) = vec_bytes (sr_vector (?rs ! i)) @ rest"
    using vectors_bytes_drop [OF d(7) i] by blast
  have len: "length (vectors_bytes ?rs) = vector_len data" using length_vectors_bytes [OF d(7)] by (simp add: vector_len_def)
  have k: "?k \<le> vector_len data" unfolding vector_len_def using i by (intro mult_right_mono) simp_all
  have front: "length (write_header (image_header data) @ directory_part data @ padding data) = vector_off data"
    by (simp add: vector_off_def)
  have "image_file data = (write_header (image_header data) @ directory_part data @ padding data) @ vectors_bytes ?rs @ sd_index_blob data"
    by (simp add: image_file_def image_body_def)
  then have "drop (vector_off data + ?k) (image_file data) = drop ?k (vectors_bytes ?rs @ sd_index_blob data)"
    using front by (simp only: drop_drop [symmetric] add.commute [of "vector_off data"] append_eq_conv_conj [THEN iffD1, THEN conjunct2])
      (simp add: drop_append)
  also have "\<dots> = vec_bytes (sr_vector (?rs ! i)) @ rest @ sd_index_blob data"
    using rest k len by simp
  finally have at: "drop (vector_off data + ?k) (image_file data) = vec_bytes (sr_vector (?rs ! i)) @ rest @ sd_index_blob data" .
  have "vector_off data + ?k \<le> length (image_file data)"
    using image_sizes(1) [OF data] k by (simp add: image_file_def)
  from mapped_floats_at [OF at this] show ?thesis using d(7) i by simp
qed

lemma image_components:
  assumes data: "data_ok data" and i: "i < length (sd_records data)"
  shows "slot_components (image_collection data tag) a (snd (image_records data ! i)) = Some (sr_vector (sd_records data ! i))"
  using image_vector [OF data i] image_records_nth [OF i]
  by (simp add: slot_components_def mapped_slot_def image_collection_def new_collection_def)

lemma image_records_ok: "data_ok data \<Longrightarrow> omap_ok (image_records data)"
  using data_okD(4) by simp

lemma image_find:
  assumes data: "data_ok data"
  shows "omap_find rid (image_records data) = Some slot \<longleftrightarrow>
    (\<exists>i < length (sd_records data). sr_id (sd_records data ! i) = rid \<and> slot = snd (image_records data ! i))"
proof -
  have "omap_find rid (image_records data) = Some slot \<longleftrightarrow> (rid, slot) \<in> set (image_records data)"
    by (rule omap_find_Some_iff) (rule omap_ok_distinct [OF image_records_ok [OF data]])
  also have "\<dots> \<longleftrightarrow> (\<exists>i < length (sd_records data). image_records data ! i = (rid, slot))"
    by (auto simp: in_set_conv_nth)
  also have "\<dots> \<longleftrightarrow> (\<exists>i < length (sd_records data). sr_id (sd_records data ! i) = rid \<and> slot = snd (image_records data ! i))"
    by (auto simp: image_records_nth)
  finally show ?thesis .
qed

end
