(* ===== verification/Snapshot_Roundtrip.thy ===== *)
theory Snapshot_Roundtrip
  imports Snapshot_Image
begin

text \<open>
  Saving and loading a collection: the view that \<open>snapshot_data\<close> takes, the collection that comes
  back from its image, and the safety of the loader.
\<close>

section \<open>The view of a collection\<close>

definition view_record :: "collection \<Rightarrow> allocator \<Rightarrow> record_id \<times> record_slot \<Rightarrow> snapshot_record" where
  "view_record c a e = \<lparr>sr_id = fst e, sr_vector = the (slot_components c a (snd e)), sr_meta = slot_meta (snd e)\<rparr>"

lemma snapshot_records_map:
  assumes "\<forall>(rid, slot) \<in> set (co_records c). slot_components c a slot \<noteq> None"
  shows "snapshot_records c a = Some (map (view_record c a) (co_records c))"
proof -
  have "ofold (\<lambda>(rid, slot) out.
        map_option (\<lambda>v. out @ [\<lparr>sr_id = rid, sr_vector = v, sr_meta = slot_meta slot\<rparr>]) (slot_components c a slot)) rs out
      = Some (out @ map (view_record c a) rs)" if "set rs \<subseteq> set (co_records c)" for rs out
    using that
  proof (induction rs arbitrary: out)
    case (Cons r rs)
    obtain rid slot where r: "r = (rid, slot)" by (cases r)
    then obtain v where "slot_components c a slot = Some v" using assms Cons.prems by auto
    then show ?case using Cons r by (simp add: view_record_def)
  qed simp
  from this [of "co_records c" "[]"] show ?thesis by (simp add: snapshot_records_def)
qed

text \<open>What must fit the 32-bit length fields.\<close>

definition slot_fits :: "record_id \<times> record_slot \<Rightarrow> bool" where
  "slot_fits e \<longleftrightarrow> length (fst e) < 2 ^ 32 \<and> metadata_fits (slot_meta (snd e)) \<and> length (metadata_bytes (slot_meta (snd e))) < 2 ^ 32"

definition index_fits :: "any_index option \<Rightarrow> bool" where
  "index_fits i = (case i of Some (HnswIx ix) \<Rightarrow> ids_fit ix | _ \<Rightarrow> True)"

definition coll_fits :: "collection \<Rightarrow> bool" where
  "coll_fits c \<longleftrightarrow> config_ok (co_config c) \<and> list_all slot_fits (co_records c) \<and> index_fits (co_index c) \<and> index_used c < 2 ^ 31"

lemma index_serialize_ok:
  assumes "index_ok h ix" "index_slots ix < 2 ^ 31"
  shows "\<exists>blob. index_serialize ix = Some blob \<and> blob \<noteq> []"
proof (cases ix)
  case (HnswIx i)
  then show ?thesis using hnsw_serialize_ok [of h i] assms by (metis append_is_Nil_conv hnsw_bytes_def index_ok.simps(1)
        index_serialize.simps(1) index_slots.simps(1) length_greater_0_conv length_le_bytes(1) zero_less_numeral)
next
  case (IvfIx i)
  then show ?thesis by (simp add: ivf_serialize_def put_appends) (metis length_greater_0_conv length_le_bytes(1) zero_less_numeral)
qed

lemma coll_snapshot_view:
  assumes ok: "coll_ok h c a" and used: "index_used c < 2 ^ 31"
  shows "\<exists>blob. coll_snapshot_data c a = Some \<lparr>sd_config = co_config c, sd_index_type = co_index_type c,
      sd_records = map (view_record c a) (co_records c), sd_index_blob = blob\<rparr>
    \<and> (case co_index c of None \<Rightarrow> blob = [] | Some ix \<Rightarrow> index_serialize ix = Some blob \<and> blob \<noteq> [])"
proof -
  note d = coll_stagedD [OF ok [unfolded coll_ok_def]]
  have "\<forall>(rid, slot) \<in> set (co_records c). slot_components c a slot \<noteq> None"
    using record_slot_ok [OF ok] by (metis (mono_tags, lifting) case_prodI2 option.distinct(1))
  then have recs: "snapshot_records c a = Some (map (view_record c a) (co_records c))" by (rule snapshot_records_map)
  show ?thesis
  proof (cases "co_index c")
    case None
    then show ?thesis by (simp add: coll_snapshot_data_def recs)
  next
    case (Some ix)
    have m: "index_ok h ix" "co_index_type c = index_type_of ix" using d(9) Some by (simp_all add: index_matches_def)
    have "index_slots ix < 2 ^ 31" using used Some by (simp add: index_used_def)
    then obtain blob where "index_serialize ix = Some blob" "blob \<noteq> []" using index_serialize_ok [OF m(1)] by blast
    moreover have "co_index_type c \<noteq> NoIndex" unfolding m(2) by (cases ix) simp_all
    ultimately show ?thesis using Some by (simp add: coll_snapshot_data_def recs)
  qed
qed

lemma view_data_ok:
  assumes ok: "coll_ok h c a" and fits: "coll_fits c" and data: "coll_snapshot_data c a = Some data"
    and len: "kHeaderSize + length (image_body data) < 2 ^ 64"
  shows "data_ok data"
proof -
  note d = coll_stagedD [OF ok [unfolded coll_ok_def]]
  have f: "config_ok (co_config c)" "list_all slot_fits (co_records c)" "index_used c < 2 ^ 31"
    using fits by (simp_all add: coll_fits_def)
  obtain blob where dt: "data = \<lparr>sd_config = co_config c, sd_index_type = co_index_type c,
      sd_records = map (view_record c a) (co_records c), sd_index_blob = blob\<rparr>"
    and b: "case co_index c of None \<Rightarrow> blob = [] | Some ix \<Rightarrow> index_serialize ix = Some blob \<and> blob \<noteq> []"
    using coll_snapshot_view [OF ok f(3)] data by auto
  have ty: "known_index_type (co_index_type c) \<and> (co_index_type c = NoIndex) = (blob = [])"
  proof (cases "co_index c")
    case None
    then show ?thesis using d(9) b by (simp add: index_matches_def)
  next
    case (Some ix)
    then have "co_index_type c = index_type_of ix" "blob \<noteq> []" using d(9) b by (simp_all add: index_matches_def)
    then show ?thesis by (cases ix) simp_all
  qed
  have "record_fits (co_dim c) (view_record c a e)" if e: "e \<in> set (co_records c)" for e
  proof -
    obtain rid slot where e': "e = (rid, slot)" by (cases e)
    obtain v where "slot_components c a slot = Some v" "length v = co_dim c" "rid \<noteq> []"
      using record_slot_ok [OF ok, of rid slot] e e' by auto
    moreover have "slot_fits e" using f(2) e by (simp add: list_all_iff)
    ultimately show ?thesis by (simp add: record_fits_def view_record_def slot_fits_def e')
  qed
  then have "list_all (record_fits (co_dim c)) (map (view_record c a) (co_records c))" by (simp add: list_all_iff)
  moreover have "sr_id \<circ> view_record c a = fst" by (rule ext) (simp add: view_record_def)
  ultimately show ?thesis using ty f(1) d(1) len by (simp add: data_ok_def dt)
qed



section \<open>The collection that comes back\<close>

lemma image_slots_ok:
  assumes data: "data_ok data" and fin: "\<forall>rec \<in> set (sd_records data). finite_vec (sr_vector rec)"
    and f: "omap_find rid (image_records data) = Some slot"
  shows "rid \<noteq> [] \<and> slot_ok (image_collection data tag) a slot" "\<not> in_arena (vector_block slot)"
proof -
  obtain i where i: "i < length (sd_records data)" "sr_id (sd_records data ! i) = rid" "slot = snd (image_records data ! i)"
    using f unfolding image_find [OF data] by (elim exE conjE)
  show "\<not> in_arena (vector_block slot)" using i by (simp add: image_records_nth mapped_slot_def in_arena_def)
  moreover have "record_fits (sd_dim data) (sd_records data ! i)" using data_okD(5) [OF data] i(1) by (simp add: list_all_length)
  moreover have "co_dim (image_collection data tag) = sd_dim data" by (simp add: image_collection_def new_collection_def)
  ultimately show "rid \<noteq> [] \<and> slot_ok (image_collection data tag) a slot"
    using image_components [OF data i(1), of tag a] i fin by (auto simp: slot_ok_def record_fits_def)
qed

lemma image_collection_fields:
  "co_config (image_collection data tag) = sd_config data" "co_tag (image_collection data tag) = tag"
  "co_records (image_collection data tag) = image_records data" "co_index_type (image_collection data tag) = sd_index_type data"
  "co_record_count (image_collection data tag) = word_of_nat (length (sd_records data))"
  "co_index (image_collection data tag) = None"
  by (simp_all add: image_collection_def new_collection_def)

text \<open>The loaded collection is well formed once its index is.\<close>

lemma image_collection_ok:
  assumes data: "data_ok data" and fin: "\<forall>rec \<in> set (sd_records data). finite_vec (sr_vector rec)"
    and n: "length (sd_records data) < 2 ^ 31" and held: "held_blocks a tag = {}"
    and ix: "index_matches h ((image_collection data tag)\<lparr>co_index := i\<rparr>) a"
  shows "coll_ok h ((image_collection data tag)\<lparr>co_index := i\<rparr>) a"
proof -
  let ?c = "(image_collection data tag)\<lparr>co_index := i\<rparr>"
  have sc: "slot_components ?c = slot_components (image_collection data tag)"
    by (intro ext slot_components_cong [THEN fun_cong]) simp_all
  have "slots_ok ?c a"
    using image_slots_ok(1) [OF data fin] unfolding slots_ok_def slot_ok_def sc by (simp add: image_collection_fields)
  moreover have "arena_blocks (co_records ?c) = {}"
    using image_slots_ok(2) [OF data fin] by (auto simp: arena_blocks_def image_collection_fields)
  moreover have "distinct_blocks (co_records ?c)"
    using image_slots_ok(2) [OF data fin] by (auto simp: distinct_blocks_def image_collection_fields)
  moreover have "omap_ok (co_records ?c)" using image_records_ok [OF data] by (simp add: image_collection_fields)
  ultimately show ?thesis
    using n held ix by (simp add: coll_ok_def coll_staged_def image_collection_fields)
qed

lemma image_view:
  assumes data: "data_ok data"
  shows "coll_view ((image_collection data tag)\<lparr>co_index := i\<rparr>) a rid =
    map_of (map (\<lambda>rec. (sr_id rec, (sr_vector rec, sr_meta rec))) (sd_records data)) rid"
proof -
  let ?c = "(image_collection data tag)\<lparr>co_index := i\<rparr>" and ?l = "map (\<lambda>rec. (sr_id rec, (sr_vector rec, sr_meta rec))) (sd_records data)"
  have sc: "slot_components ?c = slot_components (image_collection data tag)"
    by (intro ext slot_components_cong [THEN fun_cong]) simp_all
  have dist: "distinct (map fst ?l)" using data_okD(4) [OF data] by (simp add: comp_def strict_sorted_iff)
  show ?thesis
  proof (cases "omap_find rid (image_records data)")
    case None
    then have "rid \<notin> set (map fst (image_records data))" by (simp only: omap_find_None set_map not_False_eq_True)
    then have "rid \<notin> fst ` set ?l" using arg_cong [OF map_fst_image_records, of set data] by (simp add: image_image)
    then have "map_of ?l rid = None" by (simp only: map_of_eq_None_iff simp_thms)
    then show ?thesis using None by (simp add: coll_view_def image_collection_fields)
  next
    case (Some slot)
    then obtain k where k: "k < length (sd_records data)" "sr_id (sd_records data ! k) = rid" "slot = snd (image_records data ! k)"
      unfolding image_find [OF data] by (elim exE conjE)
    have "?l ! k = (rid, (sr_vector (sd_records data ! k), sr_meta (sd_records data ! k)))" using k by simp
    moreover have "?l ! k \<in> set ?l" using k(1) by (intro nth_mem) simp
    ultimately have "(rid, (sr_vector (sd_records data ! k), sr_meta (sd_records data ! k))) \<in> set ?l" by (simp only:)
    then have "map_of ?l rid = Some (sr_vector (sd_records data ! k), sr_meta (sd_records data ! k))"
      by (rule map_of_is_SomeI [OF dist])
    moreover have "slot_components ?c a slot = Some (sr_vector (sd_records data ! k))"
      unfolding sc k(3) by (rule image_components [OF data k(1)])
    moreover have "slot_meta slot = sr_meta (sd_records data ! k)" using k by (simp add: image_records_nth mapped_slot_def)
    ultimately show ?thesis using Some by (simp add: coll_view_def image_collection_fields)
  qed
qed

lemma image_snapshot_records:
  assumes data: "data_ok data"
  shows "snapshot_records ((image_collection data tag)\<lparr>co_index := i\<rparr>) a = Some (sd_records data)"
proof -
  let ?c = "(image_collection data tag)\<lparr>co_index := i\<rparr>"
  have sc: "slot_components ?c = slot_components (image_collection data tag)"
    by (intro ext slot_components_cong [THEN fun_cong]) simp_all
  have comp: "slot_components ?c a (snd (image_records data ! k)) = Some (sr_vector (sd_records data ! k))"
    if "k < length (sd_records data)" for k
    unfolding sc by (rule image_components [OF data that])
  have "slot_components ?c a slot \<noteq> None" if "(rid, slot) \<in> set (co_records ?c)" for rid slot
  proof -
    obtain k where "k < length (sd_records data)" "image_records data ! k = (rid, slot)"
      using \<open>(rid, slot) \<in> set (co_records ?c)\<close> by (auto simp: in_set_conv_nth image_collection_fields)
    then show ?thesis using comp [of k] by simp
  qed
  then have "snapshot_records ?c a = Some (map (view_record ?c a) (co_records ?c))"
    by (intro snapshot_records_map) blast
  also have "map (view_record ?c a) (co_records ?c) = sd_records data"
  proof (rule nth_equalityI)
    fix k assume "k < length (map (view_record ?c a) (co_records ?c))"
    then have k: "k < length (sd_records data)" by (simp add: image_collection_fields)
    have "view_record ?c a (image_records data ! k) = sd_records data ! k"
      using comp [OF k] k by (simp add: view_record_def) (simp add: image_records_nth mapped_slot_def)
    then show "map (view_record ?c a) (co_records ?c) ! k = sd_records data ! k" using k by (simp add: image_collection_fields)
  qed (simp add: image_collection_fields)
  finally show ?thesis .
qed



section \<open>The index that comes back\<close>

lemma coll_view_map:
  assumes ok: "coll_ok h c a"
  shows "coll_view c a rid =
    map_of (map (\<lambda>rec. (sr_id rec, (sr_vector rec, sr_meta rec))) (map (view_record c a) (co_records c))) rid"
proof -
  have "map_of (map (\<lambda>rec. (sr_id rec, (sr_vector rec, sr_meta rec))) (map (view_record c a) rs)) rid =
      map_option (\<lambda>slot. (the (slot_components c a slot), slot_meta slot)) (omap_find rid rs)" for rs
    by (induction rs) (auto simp: view_record_def)
  moreover have "coll_view c a rid = map_option (\<lambda>slot. (the (slot_components c a slot), slot_meta slot)) (omap_find rid (co_records c))"
  proof (cases "omap_find rid (co_records c)")
    case (Some slot)
    then obtain v where "slot_components c a slot = Some v" using record_slot_ok [OF ok] omap_find_SomeD by metis
    then show ?thesis using Some by (simp add: coll_view_def)
  qed (simp add: coll_view_def)
  ultimately show ?thesis by simp
qed

lemma rec_vector_view: "rec_vector c a rid = map_option fst (coll_view c a rid)"
  by (auto simp: rec_vector_def coll_view_def option.map_comp comp_def option.map_ident split: option.split)

lemma image_offsets_find:
  assumes data: "data_ok data" and i: "i < length (sd_records data)"
  shows "omap_find (sr_id (sd_records data ! i)) (image_offsets data 0 (sd_records data)) =
    Some (vector_off data + i * (4 * sd_dim data))"
proof -
  let ?m = "map (\<lambda>(j, rec). (sr_id rec, vector_off data + j * (4 * sd_dim data))) (enumerate 0 (sd_records data))"
  have keys: "map fst ?m = map sr_id (sd_records data)"
    by (rule nth_equalityI) (simp_all add: nth_enumerate_eq)
  have "distinct (map sr_id (sd_records data))" using data_okD(4) [OF data] by (simp add: strict_sorted_iff)
  then have dist: "distinct (map fst (image_offsets data 0 (sd_records data)))"
    unfolding image_offsets_def rev_map [symmetric] distinct_rev keys .
  have "?m ! i = (sr_id (sd_records data ! i), vector_off data + i * (4 * sd_dim data))" using i by (simp add: nth_enumerate_eq)
  moreover have "?m ! i \<in> set ?m" using i by (intro nth_mem) simp
  ultimately have "(sr_id (sd_records data ! i), vector_off data + i * (4 * sd_dim data)) \<in> set ?m" by (simp only:)
  then show ?thesis using omap_find_Some_iff [OF dist] by (simp add: image_offsets_def)
qed

text \<open>The lookup that the HNSW loader gets finds the vectors of the records.\<close>

lemma image_vector_for:
  assumes data: "data_ok data"
    and v: "map_of (map (\<lambda>rec. (sr_id rec, (sr_vector rec, sr_meta rec))) (sd_records data)) rid = Some (v, meta)"
  shows "(case omap_find rid (image_offsets data 0 (sd_records data)) of None \<Rightarrow> None
    | Some off \<Rightarrow> mapped_floats (image_file data) off (sd_dim data)) = Some v"
proof -
  have "(rid, (v, meta)) \<in> set (map (\<lambda>rec. (sr_id rec, (sr_vector rec, sr_meta rec))) (sd_records data))"
    using v by (rule map_of_SomeD)
  then obtain i where i: "i < length (sd_records data)" "sr_id (sd_records data ! i) = rid" "sr_vector (sd_records data ! i) = v"
    by (auto simp: in_set_conv_nth)
  then show ?thesis using image_offsets_find [OF data i(1)] image_vector [OF data i(1)] by simp
qed

lemma rebuild_populate:
  "populate_index h c a rs (IvfIx ix) = Some (Inr i) \<Longrightarrow>
   \<exists>ix'. i = IvfIx ix' \<and> rebuild_ivf c a rs ix = Some (Inr ix') \<and> ivf_serialize ix' = ivf_serialize ix"
proof (induction rs arbitrary: ix)
  case (Cons r rs)
  obtain rid slot where r: "r = (rid, slot)" by (cases r)
  obtain v where v: "slot_components c a slot = Some v" using Cons.prems r by (auto split: option.splits)
  obtain st ix1 where ix1: "ivf_add ix rid v = (st, ix1)" by fastforce
  have st: "st = Inr ()" and pop: "populate_index h c a rs (IvfIx ix1) = Some (Inr i)"
    using Cons.prems r v ix1 by (auto split: sum.splits)
  have "ivf_serialize ix1 = ivf_serialize ix"
    using ix1 by (auto simp: ivf_add_def ivf_serialize_def Let_def split: if_splits option.splits)
  then show ?case using Cons.IH [OF pop] r v ix1 st by auto
qed simp

lemma read_ivf_params:
  "(let (nlist, r1) = get_u32 (new_reader (ivf_serialize ix)); (seed, r2) = get_u64 r1 in
    nlist = iv_requested_nlist ix \<and> seed = iv_seed ix \<and> rd_ok r2 \<and> remaining r2 = 0)"
proof -
  have bytes: "ivf_serialize ix = le_bytes32 (iv_requested_nlist ix) @ le_bytes64 (iv_seed ix)" by (simp add: ivf_serialize_def put_appends)
  have "reads (new_reader (ivf_serialize ix)) (le_bytes32 (iv_requested_nlist ix) @ le_bytes64 (iv_seed ix) @ [])"
    using reads_new [of "ivf_serialize ix"] by (simp add: bytes)
  then obtain r1 where r1: "get_u32 (new_reader (ivf_serialize ix)) = (iv_requested_nlist ix, r1)" "reads r1 (le_bytes64 (iv_seed ix) @ [])"
    using u32.dec_step by blast
  then obtain r2 where "get_u64 r1 = (iv_seed ix, r2)" "reads r2 []" using u64.dec_step by blast
  then show ?thesis using r1(1) reads_remaining reads_ok by fastforce
qed


text \<open>An HNSW graph depends on the metric through the distances only.\<close>

lemma hnsw_metric:
  assumes ok: "hnsw_ok h ix" and d: "distance_or_inf (h_calculator h) metric = distance_or_inf (h_calculator h) (hx_metric ix)"
  shows "hnsw_ok h (ix\<lparr>hx_metric := metric\<rparr>)" "hnsw_serialize (ix\<lparr>hx_metric := metric\<rparr>) = hnsw_serialize ix"
    "hnsw_contents (ix\<lparr>hx_metric := metric\<rparr>) = hnsw_contents ix"
proof -
  let ?i = "ix\<lparr>hx_metric := metric\<rparr>"
  have n: "nan_free h metric w = nan_free h (hx_metric ix) w" for w unfolding nan_free_def d ..
  have g: "graph_ok ?i = graph_ok ix"
    by (simp add: graph_ok_def graph_closed_def degrees_ok_def has_layer_def max_neighbors_for_layer_def)
  have e: "entry_point_ok ?i = entry_point_ok ix" "params_ok h ?i = params_ok h ix"
    by (simp_all only: entry_point_ok_def params_ok_def hnsw_index.simps hnsw_index.select_convs hnsw_index.update_convs) simp_all
  show "hnsw_ok h ?i" using ok unfolding hnsw_ok_def g e by (simp add: n)
  have "write_node ?i = write_node ix" "canonical_entry ?i = canonical_entry ix"
    by (intro ext, simp add: write_node_def canonical_entry_def)+
  moreover have "live_by_id ?i = live_by_id ix" by (simp add: live_by_id_def)
  ultimately have "write_node ?i = write_node ix" "canonical_entry ?i = canonical_entry ix" "live_by_id ?i = live_by_id ix" by blast+
  then show "hnsw_serialize ?i = hnsw_serialize ix" by (simp add: hnsw_serialize_def)
  show "hnsw_contents ?i = hnsw_contents ix" by (rule ext) (simp add: hnsw_contents_def live_vector_def split: option.split)
qed


lemma image_blob:
  assumes data: "data_ok data"
  shows "take (unat (hd_index_len (image_header data))) (drop (unat (hd_index_off (image_header data))) (image_file data)) = sd_index_blob data"
proof -
  note d = data_okD [OF data] and f = image_header_fields [OF data]
  let ?front = "write_header (image_header data) @ directory_part data @ padding data @ vectors_bytes (sd_records data)"
  have "length ?front = vector_off data + vector_len data"
    using length_vectors_bytes [OF d(7)] by (simp add: vector_off_def vector_len_def)
  moreover have "image_file data = ?front @ sd_index_blob data" by (simp add: image_file_def image_body_def)
  ultimately have "drop (vector_off data + vector_len data) (image_file data) = sd_index_blob data" by (simp add: append_eq_conv_conj)
  then show ?thesis by (simp add: f(5,6))
qed

lemma view_records_finite:
  assumes "coll_ok h c a"
  shows "\<forall>rec \<in> set (map (view_record c a) (co_records c)). finite_vec (sr_vector rec)"
proof
  fix rec assume "rec \<in> set (map (view_record c a) (co_records c))"
  then obtain rid slot where e: "(rid, slot) \<in> set (co_records c)" "rec = view_record c a (rid, slot)" by auto
  obtain v where "slot_components c a slot = Some v" "finite_vec v" using record_slot_ok [OF assms e(1)] by metis
  then show "finite_vec (sr_vector rec)" by (simp add: e(2) view_record_def)
qed

lemma view_records_length:
  assumes "coll_ok h c a"
  shows "\<forall>e \<in> set (co_records c). length (sr_vector (view_record c a e)) = co_dim c"
proof
  fix e assume e: "e \<in> set (co_records c)"
  obtain rid slot where s: "e = (rid, slot)" by (cases e)
  obtain v where "slot_components c a slot = Some v" "length v = co_dim c" using record_slot_ok [OF assms e [unfolded s]] by metis
  then show "length (sr_vector (view_record c a e)) = co_dim c" by (simp add: s view_record_def)
qed

lemma image_rec_vector:
  assumes ok: "coll_ok h c a" and data: "data_ok data" and recs: "sd_records data = map (view_record c a) (co_records c)"
  shows "coll_view ((image_collection data tag)\<lparr>co_index := i\<rparr>) a' = coll_view c a"
    "rec_vector ((image_collection data tag)\<lparr>co_index := i\<rparr>) a' = rec_vector c a"
proof -
  show v: "coll_view ((image_collection data tag)\<lparr>co_index := i\<rparr>) a' = coll_view c a"
    unfolding image_view [OF data, THEN ext] coll_view_map [OF ok, THEN ext] recs ..
  show "rec_vector ((image_collection data tag)\<lparr>co_index := i\<rparr>) a' = rec_vector c a"
    unfolding rec_vector_view [THEN ext] v ..
qed

lemma loaded_hnsw:
  assumes ok: "coll_ok h c a" and fits: "coll_fits c" and dok: "data_ok data" and ix: "co_index c = Some (HnswIx ix)"
    and dt: "sd_config data = co_config c" "sd_records data = map (view_record c a) (co_records c)"
    and blob: "hnsw_serialize ix = Some (sd_index_blob data)"
  shows "\<exists>ix'. load_hnsw h (image_header data) (image_file data) (image_offsets data 0 (sd_records data)) (sd_index_blob data) = Some ix'
    \<and> hnsw_ok h ix' \<and> hnsw_contents ix' = rec_vector c a \<and> hnsw_serialize ix' = Some (sd_index_blob data) \<and> hnsw_slots ix' \<le> index_used c
    \<and> hx_dimensionality ix' = cfg_dim (co_config c) \<and> hx_metric ix' = cfg_metric (co_config c) \<and> ids_fit ix'"
proof -
  note d = coll_stagedD [OF ok [unfolded coll_ok_def]] and f = image_header_fields [OF dok]
  have m: "hnsw_ok h ix" "hx_width ix = co_dim c" "hnsw_contents ix = rec_vector c a"
    "distance_or_inf (h_calculator h) (cfg_metric (co_config c)) = distance_or_inf (h_calculator h) (hx_metric ix)"
    using d(9) ix by (simp_all add: index_matches_def hnsw_dist_def)
  let ?ix = "ix\<lparr>hx_metric := cfg_metric (co_config c)\<rparr>"
  note hm = hnsw_metric [OF m(1,4)]
  have dim: "hx_dimensionality ix = cfg_dim (co_config c)" using m(2) by (rule unsigned_word_eqI)
  let ?vf = "\<lambda>rid. case omap_find rid (image_offsets data 0 (sd_records data)) of None \<Rightarrow> None
    | Some off \<Rightarrow> mapped_floats (image_file data) off (sd_dim data)"
  have fit: "hnsw_slots ?ix < 2 ^ 31" "ids_fit ?ix" using fits ix by (simp_all add: coll_fits_def index_used_def index_fits_def ids_fit_def)
  have vec: "\<forall>rid v. hnsw_contents ?ix rid = Some v \<longrightarrow> (\<exists>cs. ?vf rid = Some cs \<and> take (hx_width ?ix) cs = v)"
  proof (intro allI impI)
    fix rid v assume "hnsw_contents ?ix rid = Some v"
    then have rv: "rec_vector c a rid = Some v" by (simp add: hm(3) m(3))
    then obtain meta where "coll_view c a rid = Some (v, meta)" unfolding rec_vector_view by auto
    then have "?vf rid = Some v" using image_vector_for [OF dok] coll_view_map [OF ok] by (simp add: dt(2))
    moreover have "length v = co_dim c" using rec_vector_ok [OF ok rv] by simp
    ultimately show "\<exists>cs. ?vf rid = Some cs \<and> take (hx_width ?ix) cs = v" by (simp add: dim)
  qed
  have "length (sd_index_blob data) < 2 ^ 64" using data_okD(6) [OF dok] by (simp add: image_body_def)
  from hnsw_roundtrip [OF hm(1) fit vec hm(2) [unfolded blob] this]
  obtain ix' where "hnsw_deserialize h (hx_dimensionality ?ix) (hx_metric ?ix) (sd_index_blob data) ?vf = Some ix'" "hnsw_ok h ix'"
    "hnsw_contents ix' = hnsw_contents ?ix" "hnsw_serialize ix' = Some (sd_index_blob data)" "hnsw_slots ix' \<le> hnsw_slots ?ix"
    "hx_dimensionality ix' = hx_dimensionality ?ix" "hx_metric ix' = hx_metric ?ix" "ids_fit ix'" by (elim exE conjE)
  moreover have "load_hnsw h (image_header data) (image_file data) (image_offsets data 0 (sd_records data)) (sd_index_blob data) =
      hnsw_deserialize h (cfg_dim (sd_config data)) (cfg_metric (sd_config data)) (sd_index_blob data) ?vf"
    unfolding load_hnsw_def f(7,8) ..
  ultimately show ?thesis
    using ix by (intro exI [of _ ix']) (simp add: dt(1) dim hm(3) m(3) index_used_def)
qed


lemma loaded_ivf:
  assumes ok: "coll_ok h c a" and dok: "data_ok data" and ix: "co_index c = Some (IvfIx ix)"
    and dt: "sd_config data = co_config c" "sd_records data = map (view_record c a) (co_records c)"
    and blob: "ivf_serialize ix = sd_index_blob data"
  shows "\<exists>ix'. load_ivf (image_header data) (image_collection data tag) a' (sd_index_blob data) = Some (Inr ix')
    \<and> ivf_ok h ix' \<and> ivf_contents ix' = rec_vector c a \<and> ivf_serialize ix' = sd_index_blob data \<and> ivf_slots ix' < 2 ^ 31
    \<and> iv_width ix' = co_dim c \<and> ivf_dist h ix' = distance_or_inf (h_calculator h) (cfg_metric (co_config c))"
proof -
  note d = coll_stagedD [OF ok [unfolded coll_ok_def]] and f = image_header_fields [OF dok]
  let ?c0 = "image_collection data tag"
  let ?new = "new_ivf (cfg_dim (co_config c)) (cfg_metric (co_config c)) (default_index_params\<lparr>ip_nlist := iv_requested_nlist ix, ip_seed := iv_seed ix\<rparr>)"
  have m: "ivf_ok h ix" "iv_width ix = co_dim c"
    "distance_or_inf (h_calculator h) (iv_metric ix) = distance_or_inf (h_calculator h) (cfg_metric (co_config c))"
    using d(9) ix by (simp_all add: index_matches_def ivf_dist_def)
  then have "ivf_host_ok h ix" by (simp add: ivf_ok_def)
  then have host: "shuffle_permutes h" "nan_free h (cfg_metric (co_config c)) (co_dim c)"
    "\<forall>n < 2 ^ 31. partition_count (iv_requested_nlist ix) n \<noteq> None"
    using m(2,3) unfolding ivf_host_ok_def nan_free_def by simp_all
  have new: "ivf_ok h ?new" "ivf_contents ?new = Map.empty" "ivf_slots ?new = 0" "iv_width ?new = co_dim c"
    using new_ivf_ok [OF host(1,2), where params = "default_index_params\<lparr>ip_nlist := iv_requested_nlist ix, ip_seed := iv_seed ix\<rparr>"] host(3)
    by simp_all
  have dist: "distinct (map fst (image_records data))" by (rule omap_ok_distinct [OF image_records_ok [OF dok]])
  have fin: "\<forall>rec \<in> set (sd_records data). finite_vec (sr_vector rec)" unfolding dt(2) by (rule view_records_finite [OF ok])
  have slots: "\<forall>(rid, slot) \<in> set (image_records data). rid \<noteq> [] \<and> slot_ok ?c0 a' slot"
    using image_slots_ok(1) [OF dok fin] omap_find_Some_iff [OF dist] by fast
  have "index_slots (IvfIx ?new) + length (image_records data) < 2 ^ 31" using d(3) new(3) by (simp add: dt(2))
  moreover have "index_width (IvfIx ?new) = co_dim ?c0" using new(4) by (simp add: image_collection_fields dt(1))
  moreover have "index_ok h (IvfIx ?new)" using new(1) by simp
  ultimately obtain i where i: "populate_index h ?c0 a' (image_records data) (IvfIx ?new) = Some (Inr i)" "index_ok h i"
    "index_slots i \<le> index_slots (IvfIx ?new) + length (image_records data)" "index_width i = index_width (IvfIx ?new)"
    "index_dist h i = index_dist h (IvfIx ?new)"
    "index_contents i = (\<lambda>rid. case omap_find rid (image_records data) of None \<Rightarrow> index_contents (IvfIx ?new) rid
       | Some slot \<Rightarrow> slot_components ?c0 a' slot)"
    using populate_ok [of h "IvfIx ?new" ?c0 "image_records data" a'] dist slots by blast
  obtain ix' where ix': "i = IvfIx ix'" "rebuild_ivf ?c0 a' (image_records data) ?new = Some (Inr ix')" "ivf_serialize ix' = ivf_serialize ?new"
    using rebuild_populate [OF i(1)] by (elim exE conjE)
  have "ivf_contents ix' = rec_vector ?c0 a'"
    using i(6) unfolding ix'(1) index_contents.simps new(2) rec_vector_def image_collection_fields .
  also have "?c0 = ?c0\<lparr>co_index := None\<rparr>" by (simp add: image_collection_def new_collection_def)
  also have "rec_vector (?c0\<lparr>co_index := None\<rparr>) a' = rec_vector c a" by (rule image_rec_vector(2) [OF ok dok dt(2)])
  finally have contents: "ivf_contents ix' = rec_vector c a" .
  have ser: "ivf_serialize ?new = sd_index_blob data" unfolding blob [symmetric] by (simp add: ivf_serialize_def new_ivf_def)
  have load: "load_ivf (image_header data) ?c0 a' (sd_index_blob data) = Some (Inr ix')"
    using read_ivf_params [of ix] ix'(2) unfolding blob load_ivf_def Let_def
    by (simp add: case_prod_beta f(7,8) dt(1) image_collection_fields)
  have "ivf_slots ix' < 2 ^ 31" using i(3) new(3) d(3) by (simp add: ix'(1) dt(2))
  then show ?thesis
    using load contents ser i(2,4,5) new(4) ix'(3) by (intro exI [of _ ix']) (simp add: ix'(1) ivf_dist_def new_ivf_def)
qed

text \<open>The index of a saved collection comes back over the same records, and serializes to the same bytes.\<close>

lemma loaded_index:
  assumes ok: "coll_ok h c a" and fits: "coll_fits c" and data: "coll_snapshot_data c a = Some data" and dok: "data_ok data"
  shows "\<exists>i. load_index h (image_header data) (image_file data) (image_offsets data 0 (sd_records data)) (image_collection data tag) a' = Some (Inr i)
    \<and> index_matches h ((image_collection data tag)\<lparr>co_index := i\<rparr>) a' \<and> index_used ((image_collection data tag)\<lparr>co_index := i\<rparr>) < 2 ^ 31
    \<and> index_fits i \<and> (case i of None \<Rightarrow> sd_index_blob data = [] | Some ix \<Rightarrow> index_serialize ix = Some (sd_index_blob data))"
proof -
  note d = coll_stagedD [OF ok [unfolded coll_ok_def]] and f = image_header_fields [OF dok]
  have used: "index_used c < 2 ^ 31" using fits by (simp add: coll_fits_def)
  obtain blob where dt: "data = \<lparr>sd_config = co_config c, sd_index_type = co_index_type c,
      sd_records = map (view_record c a) (co_records c), sd_index_blob = blob\<rparr>"
    and b: "case co_index c of None \<Rightarrow> blob = [] | Some ix \<Rightarrow> index_serialize ix = Some blob \<and> blob \<noteq> []"
    using coll_snapshot_view [OF ok used] data by auto
  have sd: "sd_config data = co_config c" "sd_records data = map (view_record c a) (co_records c)" "sd_index_type data = co_index_type c"
    "sd_index_blob data = blob" by (simp_all add: dt)
  let ?c0 = "image_collection data tag"
  note rv = image_rec_vector(2) [OF ok dok sd(2)]
  note load = load_index_def [of h "image_header data" "image_file data" "image_offsets data 0 (sd_records data)" ?c0 a',
      unfolded Let_def image_blob [OF dok] f(9)]
  show ?thesis
  proof (cases "co_index c")
    case None
    then have "co_index_type c = NoIndex" "blob = []" using d(9) b by (simp_all add: index_matches_def)
    then show ?thesis
      using sd load by (intro exI [of _ None]) (simp add: index_matches_def index_used_def index_fits_def image_collection_fields)
  next
    case (Some ix)
    show ?thesis
    proof (cases ix)
      case (HnswIx j)
      have ser: "hnsw_serialize j = Some (sd_index_blob data)" and ty: "co_index_type c = HNSW"
        using b d(9) Some HnswIx sd(4) by (simp_all add: index_matches_def)
      obtain j' where "load_hnsw h (image_header data) (image_file data) (image_offsets data 0 (sd_records data)) (sd_index_blob data) = Some j'"
        "hnsw_ok h j'" "hnsw_contents j' = rec_vector c a" "hnsw_serialize j' = Some (sd_index_blob data)" "hnsw_slots j' \<le> index_used c"
        "hx_dimensionality j' = cfg_dim (co_config c)" "hx_metric j' = cfg_metric (co_config c)" "ids_fit j'"
        using loaded_hnsw [OF ok fits dok _ sd(1,2) ser] Some HnswIx by auto
      then show ?thesis
        using used by (intro exI [of _ "Some (HnswIx j')"])
          (simp add: load sd(1,3) ty index_matches_def index_used_def index_fits_def image_collection_fields rv hnsw_dist_def)
    next
      case (IvfIx j)
      have ser: "ivf_serialize j = sd_index_blob data" and ty: "co_index_type c = IVF"
        using b d(9) Some IvfIx sd(4) by (simp_all add: index_matches_def)
      obtain j' where "load_ivf (image_header data) ?c0 a' (sd_index_blob data) = Some (Inr j')" "ivf_ok h j'"
        "ivf_contents j' = rec_vector c a" "ivf_serialize j' = sd_index_blob data" "ivf_slots j' < 2 ^ 31" "iv_width j' = co_dim c"
        "ivf_dist h j' = distance_or_inf (h_calculator h) (cfg_metric (co_config c))"
        using loaded_ivf [OF ok dok _ sd(1,2) ser] Some IvfIx by auto
      then show ?thesis
        by (intro exI [of _ "Some (IvfIx j')"])
          (simp add: load sd(1,3) ty index_matches_def index_used_def index_fits_def image_collection_fields rv)
    qed
  qed
qed



section \<open>Saving and loading\<close>

text \<open>Loading the image of well-formed data, up to the index.\<close>

lemma load_image:
  assumes dok: "data_ok data"
  shows "load_snapshot h True (Some (RegularFile (image_file data) sync)) a tag =
    map_option (map_sum id (\<lambda>i. (image_collection data tag)\<lparr>co_index := i\<rparr>))
      (load_index h (image_header data) (image_file data) (image_offsets data 0 (sd_records data)) (image_collection data tag) a)"
proof -
  note f = image_header_fields [OF dok] and d = data_okD [OF dok] and rd = read_image_directory [OF dok]
  let ?r = "advance (new_reader (image_body data)) (length (cfg_name (sd_config data)))"
  obtain r' where r': "read_directory (length (sd_records data)) (image_header data) ?r [] [] =
      Some (image_records data, image_offsets data 0 (sd_records data), r')" "rd_pos r' = length (directory_part data)"
    using rd(2) by (elim exE conjE)
  have fits: "\<not> vector_off data - kHeaderSize < rd_pos r'" by (simp add: r'(2) vector_off_def)
  have cfg: "\<lparr>cfg_name = cfg_name (sd_config data), cfg_dim = cfg_dim (sd_config data), cfg_metric = cfg_metric (sd_config data)\<rparr> = sd_config data"
    by (cases "sd_config data") simp
  have body: "load_body h (image_header data) (image_file data) a tag =
      map_option (map_sum id (\<lambda>i. (image_collection data tag)\<lparr>co_index := i\<rparr>))
        (load_index h (image_header data) (image_file data) (image_offsets data 0 (sd_records data)) (image_collection data tag) a)"
    using rd(1) r'(1) fits unfolding load_body_def f(1,3)
    by (simp add: f(7,8,9) image_collection_def Let_def cfg)
  have "length (image_file data) < 2 ^ 64" using d(6) by (simp add: image_file_def)
  then have hdr: "read_header (image_file data) = Some (image_header data)"
    unfolding image_file_def by (rule read_header_written)
  have crc: "crc64_ecma (drop kHeaderSize (image_file data)) 0 = hd_content_crc64 (image_header data)"
    unfolding f(10) by (simp add: image_file_def)
  have "\<not> length (image_file data) < kHeaderSize" by (simp add: image_file_def)
  then show ?thesis
    using hdr crc f(11) image_header_ok [OF dok, folded image_file_def] unfolding body [symmetric]
    by (simp add: load_snapshot_def kFormatVersion_def)
qed

lemma load_saved:
  assumes ok: "coll_ok h c a" and fits: "coll_fits c" and data: "coll_snapshot_data c a = Some data"
    and len: "length (encode data) < 2 ^ 64" and held: "held_blocks a' tag = {}"
  shows "\<exists>c'. load_snapshot h True (Some (RegularFile (encode data) sync)) a' tag = Some (Inr c') \<and> coll_ok h c' a'
    \<and> co_config c' = co_config c \<and> co_tag c' = tag \<and> coll_index_type c' = coll_index_type c \<and> coll_view c' a' = coll_view c a
    \<and> coll_snapshot_data c' a' = Some data \<and> coll_fits c' \<and> co_mapped c' = Some (encode data)"
proof -
  note st = coll_stagedD [OF ok [unfolded coll_ok_def]]
  have used: "index_used c < 2 ^ 31" using fits by (simp add: coll_fits_def)
  have sd: "sd_config data = co_config c" "sd_records data = map (view_record c a) (co_records c)" "sd_index_type data = co_index_type c"
    using coll_snapshot_view [OF ok used] data by auto
  have "\<forall>rec \<in> set (sd_records data). length (sr_vector rec) = sd_dim data" using view_records_length [OF ok] by (simp add: sd)
  then have enc: "encode data = image_file data" unfolding image_file_def by (rule encode_image)
  have dok: "data_ok data" using view_data_ok [OF ok fits data] len by (simp add: enc image_file_def)
  let ?c0 = "image_collection data tag"
  obtain i where i: "load_index h (image_header data) (image_file data) (image_offsets data 0 (sd_records data)) ?c0 a' = Some (Inr i)"
    "index_matches h (?c0\<lparr>co_index := i\<rparr>) a'" "index_used (?c0\<lparr>co_index := i\<rparr>) < 2 ^ 31" "index_fits i"
    "case i of None \<Rightarrow> sd_index_blob data = [] | Some ix \<Rightarrow> index_serialize ix = Some (sd_index_blob data)"
    using loaded_index [OF ok fits data dok] by blast
  let ?c = "?c0\<lparr>co_index := i\<rparr>"
  have load: "load_snapshot h True (Some (RegularFile (encode data) sync)) a' tag = Some (Inr ?c)"
    by (simp add: enc load_image [OF dok] i(1))
  have fin: "\<forall>rec \<in> set (sd_records data). finite_vec (sr_vector rec)" unfolding sd(2) by (rule view_records_finite [OF ok])
  have "length (sd_records data) < 2 ^ 31" using st(3) by (simp add: sd(2))
  then have okc: "coll_ok h ?c a'" by (rule image_collection_ok [OF dok fin _ held i(2)])
  have none: "sd_index_type data = NoIndex \<longleftrightarrow> i = None"
  proof (cases i)
    case None
    then show ?thesis using i(2) by (simp add: index_matches_def image_collection_fields)
  next
    case (Some ix)
    then have "sd_index_type data = index_type_of ix" using i(2) by (simp add: index_matches_def image_collection_fields)
    then show ?thesis using Some by (cases ix) simp_all
  qed
  have "coll_snapshot_data ?c a' = Some data"
    using i(5) none by (cases i) (simp_all add: coll_snapshot_data_def image_snapshot_records [OF dok] image_collection_fields)
  moreover have "slot_fits e" if e: "e \<in> set (image_records data)" for e
  proof -
    obtain k where k: "k < length (sd_records data)" "e = image_slot data (k, sd_records data ! k)"
      using e by (auto simp: in_set_conv_nth image_records_nth)
    then have "slot_fits (co_records c ! k)" using fits by (simp add: coll_fits_def list_all_length sd(2))
    then show ?thesis using k by (simp add: slot_fits_def sd(2) view_record_def mapped_slot_def)
  qed
  then have "coll_fits ?c" using fits i(3,4) by (simp add: coll_fits_def list_all_iff image_collection_fields sd(1))
  moreover have "co_mapped ?c = Some (encode data)" by (simp add: image_collection_def enc)
  ultimately show ?thesis
    using load okc image_rec_vector(1) [OF ok dok sd(2)]
    by (intro exI [of _ ?c]) (simp add: image_collection_fields sd coll_index_type_def)
qed

end
