(* ===== verification/Snapshot_Safety.thy ===== *)
theory Snapshot_Safety
  imports Snapshot_Roundtrip
begin

text \<open>
  Loading an arbitrary file: the layout checks on the header make every pointer the loader creates
  lie inside the mapping, so no read leaves it and only three errors come out.
\<close>

section \<open>The record directory\<close>

lemma header_okD:
  assumes ok: "header_ok hdr fsize" and small: "fsize < 2 ^ 46"
  shows "0 < unat (hd_dimensionality hdr)" "unat (hd_dimensionality hdr) \<le> 65536"
    "unat (hd_vector_off hdr) + unat (hd_record_count hdr) * (4 * unat (hd_dimensionality hdr)) \<le> fsize"
    "\<And>i. i < hd_record_count hdr \<Longrightarrow>
      unat (i * (ucast (hd_dimensionality hdr) * 4)) = unat i * (4 * unat (hd_dimensionality hdr))"
proof -
  let ?d = "unat (hd_dimensionality hdr)" and ?n = "unat (hd_record_count hdr)"
  have d: "1 \<le> hd_dimensionality hdr" "hd_dimensionality hdr \<le> 65536" and n: "?n \<le> fsize"
    and off: "unat (hd_vector_off hdr) \<le> fsize" "unat (hd_vector_len hdr) \<le> fsize - unat (hd_vector_off hdr)"
    and len: "hd_vector_len hdr = hd_record_count hdr * (ucast (hd_dimensionality hdr) * 4)"
    using ok unfolding header_ok_def by blast+
  show dm: "0 < ?d" "?d \<le> 65536" using d by (simp_all add: word_le_nat_alt)
  have "unat (ucast (hd_dimensionality hdr) :: u64) = ?d" using dm(2) by (simp add: unsigned_ucast_eq take_bit_nat_eq_self)
  then have stride: "unat (ucast (hd_dimensionality hdr) * 4 :: u64) = 4 * ?d" using dm(2) by (simp add: unat_mult_lem [THEN iffD1])
  have prod: "unat (i * (ucast (hd_dimensionality hdr) * 4) :: u64) = unat i * (4 * ?d)" if "unat i \<le> ?n" for i :: u64
  proof -
    have "unat i * (4 * ?d) \<le> fsize * (4 * 65536)" using that n dm(2) by (intro mult_mono) simp_all
    also have "\<dots> < 2 ^ LENGTH(64)" using small by simp
    finally have "unat i * unat (ucast (hd_dimensionality hdr) * 4 :: u64) < 2 ^ LENGTH(64)" unfolding stride .
    then show ?thesis using stride by (simp add: unat_mult_lem [THEN iffD1])
  qed
  show "unat (hd_vector_off hdr) + ?n * (4 * ?d) \<le> fsize" using off prod [of "hd_record_count hdr"] by (simp add: len)
  show "unat (i * (ucast (hd_dimensionality hdr) * 4)) = unat i * (4 * ?d)" if "i < hd_record_count hdr" for i
    by (rule prod) (use that in \<open>simp add: word_less_nat_alt\<close>)
qed

lemma read_record_bounds:
  assumes hdr: "header_ok hdr fsize" "fsize < 2 ^ 46" and r: "read_record hdr r = Some ((rid, off, meta), r')"
  shows "rid \<noteq> []" "off + 4 * unat (hd_dimensionality hdr) \<le> fsize"
proof -
  note b = header_okD [OF hdr]
  have "\<exists>idx. rid \<noteq> [] \<and> idx < hd_record_count hdr \<and> off = unat (hd_vector_off hdr) + unat (idx * (ucast (hd_dimensionality hdr) * 4))"
    using r by (auto simp: read_record_def Let_def not_le split: prod.splits if_splits option.splits)
  then obtain idx where i: "rid \<noteq> []" "idx < hd_record_count hdr"
    "off = unat (hd_vector_off hdr) + unat (idx * (ucast (hd_dimensionality hdr) * 4))" by blast
  let ?w = "4 * unat (hd_dimensionality hdr)"
  have "Suc (unat idx) \<le> unat (hd_record_count hdr)" using i(2) by (simp add: word_less_nat_alt)
  then have "Suc (unat idx) * ?w \<le> unat (hd_record_count hdr) * ?w" by (rule mult_right_mono) simp
  then show "off + ?w \<le> fsize" using b(3) b(4) [OF i(2)] i(3) by simp
  show "rid \<noteq> []" by (rule i(1))
qed

definition slot_in_file :: "header \<Rightarrow> nat \<Rightarrow> record_id \<times> record_slot \<Rightarrow> bool" where
  "slot_in_file hdr fsize e \<longleftrightarrow> fst e \<noteq> [] \<and>
     (\<exists>off. blk_data (vector_block (snd e)) = MapPtr off \<and> off + 4 * unat (hd_dimensionality hdr) \<le> fsize)"

lemma read_directory_bounds:
  assumes hdr: "header_ok hdr fsize" "fsize < 2 ^ 46"
  shows "read_directory n hdr r m vs = Some (m', vs', r') \<Longrightarrow> omap_ok m \<Longrightarrow> \<forall>e \<in> set m. slot_in_file hdr fsize e \<Longrightarrow>
    \<forall>(_, off) \<in> set vs. off + 4 * unat (hd_dimensionality hdr) \<le> fsize \<Longrightarrow>
    omap_ok m' \<and> (\<forall>e \<in> set m'. slot_in_file hdr fsize e) \<and> (\<forall>(_, off) \<in> set vs'. off + 4 * unat (hd_dimensionality hdr) \<le> fsize)
    \<and> length m' = length m + n"
proof (induction n arbitrary: r m vs)
  case (Suc n)
  obtain rid off meta r1 where rec: "read_record hdr r = Some ((rid, off, meta), r1)"
    using Suc.prems(1) by (cases "read_record hdr r") auto
  then have new: "omap_find rid m = None"
    and rest: "read_directory n hdr r1 (omap_emplace rid (mapped_slot hdr off meta) m) ((rid, off) # vs) = Some (m', vs', r')"
    using Suc.prems(1) by (simp_all split: if_splits)
  note b = read_record_bounds [OF hdr rec]
  let ?m = "omap_emplace rid (mapped_slot hdr off meta) m"
  have m: "?m = omap_set rid (mapped_slot hdr off meta) m" using new by (simp add: omap_emplace_def)
  have ok: "omap_ok ?m" unfolding m by (rule omap_ok_set [OF Suc.prems(2)])
  have slots: "\<forall>e \<in> set ?m. slot_in_file hdr fsize e"
  proof
    fix e assume "e \<in> set ?m"
    then have "omap_find (fst e) ?m = Some (snd e)" using omap_find_Some_iff [OF omap_ok_distinct [OF ok]] by simp
    then have "fst e = rid \<and> snd e = mapped_slot hdr off meta \<or> omap_find (fst e) m = Some (snd e)"
      unfolding m by (auto simp: omap_find_set split: if_splits)
    then show "slot_in_file hdr fsize e"
    proof
      assume "omap_find (fst e) m = Some (snd e)"
      then have "(fst e, snd e) \<in> set m" by (rule omap_find_SomeD)
      then show ?thesis using Suc.prems(3) by simp
    qed (use b in \<open>simp add: slot_in_file_def mapped_slot_def\<close>)
  qed
  have "length ?m = Suc (length m)" using new unfolding m by (simp add: length_omap_set [OF Suc.prems(2)])
  moreover have vs: "\<forall>(_, off) \<in> set ((rid, off) # vs). off + 4 * unat (hd_dimensionality hdr) \<le> fsize" using Suc.prems(4) b(2) by simp
  note ih = Suc.IH [OF rest ok slots vs]
  moreover have "length m' = length ?m + n" using ih by (elim conjE)
  ultimately have "length m' = length m + Suc n" by (simp only: add_Suc add_Suc_right)
  then show ?case using ih by blast
qed simp


section \<open>The loaded collection\<close>

lemma rebuild_ivf_total:
  "\<forall>(rid, slot) \<in> set rs. slot_components c a slot \<noteq> None \<Longrightarrow>
   \<exists>r. rebuild_ivf c a rs ix = Some r \<and> (\<forall>e. r = Inl e \<longrightarrow> e = Corruption)"
proof (induction rs arbitrary: ix)
  case (Cons e rs)
  obtain rid slot where e: "e = (rid, slot)" by (cases e)
  obtain v where v: "slot_components c a slot = Some v" using Cons.prems e by auto
  obtain st ix1 where ix1: "ivf_add ix rid v = (st, ix1)" by fastforce
  show ?case using Cons v ix1 e by (cases st) simp_all
qed simp

lemma load_index_total:
  assumes "\<forall>(rid, slot) \<in> set (co_records c). slot_components c a slot \<noteq> None"
  shows "\<exists>r. load_index h hdr bs vs c a = Some r \<and> (\<forall>e. r = Inl e \<longrightarrow> e = Corruption)"
proof -
  have ivf: "\<exists>r. load_ivf hdr c a blob = Some r \<and> (\<forall>e. r = Inl e \<longrightarrow> e = Corruption)" for blob
    using rebuild_ivf_total [OF assms] by (auto simp: load_ivf_def Let_def split: prod.split)
  have lift: "\<exists>r. map_option (map_sum id f) (load_ivf hdr c a blob) = Some r \<and> (\<forall>e. r = Inl e \<longrightarrow> e = Corruption)" for f blob
  proof -
    obtain r where "load_ivf hdr c a blob = Some r" "\<forall>e. r = Inl e \<longrightarrow> e = Corruption" using ivf [of blob] by blast
    then show ?thesis by (cases r) simp_all
  qed
  show ?thesis
    using lift unfolding load_index_def Let_def
    by (cases "index_type_of_u8 (hd_index_type hdr)") (auto split: option.split)
qed

definition loaded_ok :: "collection \<Rightarrow> allocator \<Rightarrow> bool" where
  "loaded_ok c a \<longleftrightarrow> config_ok (co_config c) \<and> omap_ok (co_records c) \<and> co_record_count c = word_of_nat (length (co_records c)) \<and>
     list_all (\<lambda>(rid, slot). rid \<noteq> [] \<and> map_option length (slot_components c a slot) = Some (co_dim c)) (co_records c)"

lemma load_body_safe:
  assumes hdr: "header_ok hdr (length bs)" "length bs < 2 ^ 46"
  shows "\<exists>r. load_body h hdr bs a tag = Some r \<and> (case r of Inl e \<Rightarrow> e = Corruption | Inr c \<Rightarrow> loaded_ok c a)"
proof (cases "read_name hdr (new_reader (drop kHeaderSize bs))")
  case None
  then show ?thesis by (simp add: load_body_def)
next
  case (Some nr)
  obtain name r1 where nr: "nr = (name, r1)" by (cases nr)
  show ?thesis
  proof (cases "read_directory (unat (hd_record_count hdr)) hdr r1 [] []")
    case None
    then show ?thesis using Some nr by (simp add: load_body_def)
  next
    case (Some dir)
    obtain m vs r2 where dir: "dir = (m, vs, r2)" by (cases dir)
    note read = \<open>read_name hdr (new_reader (drop kHeaderSize bs)) = Some nr\<close> [unfolded nr] Some [unfolded dir]
    show ?thesis
    proof (cases "unat (hd_vector_off hdr) - kHeaderSize < rd_pos r2")
      case True
      then show ?thesis using read by (simp add: load_body_def)
    next
      case False
      define c where "c = (new_collection \<lparr>cfg_name = name, cfg_dim = hd_dimensionality hdr, cfg_metric = metric_of_u8 (hd_metric hdr)\<rparr> tag)
        \<lparr>co_records := m, co_record_count := word_of_nat (length m), co_index_type := index_type_of_u8 (hd_index_type hdr), co_mapped := Some bs\<rparr>"
      have load: "load_body h hdr bs a tag = map_option (map_sum id (\<lambda>index. c\<lparr>co_index := index\<rparr>)) (load_index h hdr bs vs c a)"
        using read False by (simp add: load_body_def c_def Let_def)
      have m: "omap_ok m" "\<forall>e \<in> set m. slot_in_file hdr (length bs) e"
        using read_directory_bounds [OF hdr read(2)] by simp_all
      have comp: "map_option length (slot_components c a slot) = Some (co_dim c)" "rid \<noteq> []" if "(rid, slot) \<in> set m" for rid slot
        using m(2) that by (auto simp: slot_in_file_def slot_components_def c_def new_collection_def mapped_floats_def)
      then have "\<forall>(rid, slot) \<in> set (co_records c). slot_components c a slot \<noteq> None" by (force simp: c_def)
      then obtain r where r: "load_index h hdr bs vs c a = Some r" "\<forall>e. r = Inl e \<longrightarrow> e = Corruption"
        using load_index_total by blast
      have "name \<noteq> []" "length name \<le> 255"
        using read(1) by (auto simp: read_name_def Let_def bytes_string_def split: prod.splits option.splits if_splits)
      moreover have "known_metric (metric_of_u8 (hd_metric hdr))"
        by (rule known_metric_of_u8) (use hdr(1) in \<open>simp add: header_ok_def\<close>)
      ultimately have cfg: "config_ok (co_config c)" using hdr(1) by (simp add: config_ok_def c_def new_collection_def header_ok_def)
      have "loaded_ok (c\<lparr>co_index := i\<rparr>) a" for i
      proof -
        have sc: "slot_components (c\<lparr>co_index := i\<rparr>) = slot_components c"
          by (intro ext slot_components_cong [THEN fun_cong]) simp_all
        have "omap_ok (co_records (c\<lparr>co_index := i\<rparr>))" using m(1) by (simp add: c_def)
        then show ?thesis using cfg comp unfolding loaded_ok_def sc by (auto simp: list_all_iff c_def)
      qed
      then show ?thesis using load r by (cases r) simp_all
    qed
  qed
qed

lemma load_snapshot_safe:
  assumes "length bs < 2 ^ 46"
  shows "\<exists>r. load_snapshot h can_map (Some (RegularFile bs sync)) a tag = Some r
    \<and> (case r of Inl e \<Rightarrow> e \<in> {SnapshotNotFound, UnsupportedVersion, Corruption} | Inr c \<Rightarrow> loaded_ok c a)"
proof (cases "length bs < kHeaderSize \<or> \<not> can_map \<or> read_header bs = None")
  case True
  then show ?thesis by (auto simp: load_snapshot_def)
next
  case False
  then obtain hdr where hdr: "read_header bs = Some hdr" by blast
  show ?thesis
  proof (cases "header_ok hdr (length bs)")
    case True
    obtain r where "load_body h hdr bs a tag = Some r" "case r of Inl e \<Rightarrow> e = Corruption | Inr c \<Rightarrow> loaded_ok c a"
      using load_body_safe [OF True assms, of h a tag] by (elim exE conjE)
    then show ?thesis using False hdr True by (cases r) (auto simp: load_snapshot_def)
  next
    case bad: False
    then show ?thesis using False hdr by (auto simp: load_snapshot_def)
  qed
qed

end
