(* ===== verification/Engine_Inv.thy ===== *)
theory Engine_Inv
  imports Engine Snapshot_Safety
begin

text \<open>
  What the engine promises: it is a finite map from names to collections, each a configuration and
  a finite map of records.  The invariant gives every collection a tag of its own below the tag
  counter, and every live block of the arena to the tag of a registered collection.
\<close>

section \<open>The abstract view and the invariant\<close>

abbreviation find_coll :: "engine \<Rightarrow> string \<Rightarrow> collection option" where
  "find_coll e name \<equiv> omap_find name (en_collections e)"

definition engine_view :: "engine \<Rightarrow> string \<Rightarrow> (collection_config \<times> (record_id \<Rightarrow> (f32 list \<times> metadata option) option)) option" where
  "engine_view e name = map_option (\<lambda>c. (co_config c, coll_view c (en_allocator e))) (find_coll e name)"

definition member_ok :: "host \<Rightarrow> engine \<Rightarrow> string \<Rightarrow> collection \<Rightarrow> bool" where
  "member_ok h e name c \<longleftrightarrow> cfg_name (co_config c) = name \<and> config_ok (co_config c) \<and> coll_ok h c (en_allocator e) \<and>
     index_used c < 2 ^ 31 \<and> unat (tag_value (co_tag c)) < unat (en_next_tag e)"

definition engine_ok :: "host \<Rightarrow> engine \<Rightarrow> bool" where
  "engine_ok h e \<longleftrightarrow> alloc_inv (en_allocator e) \<and> omap_ok (en_collections e) \<and>
     (\<forall>name c. find_coll e name = Some c \<longrightarrow> member_ok h e name c) \<and>
     (\<forall>n1 c1 n2 c2. find_coll e n1 = Some c1 \<longrightarrow> find_coll e n2 = Some c2 \<longrightarrow> co_tag c1 = co_tag c2 \<longrightarrow> n1 = n2) \<and>
     (\<forall>t. held_blocks (en_allocator e) t \<noteq> {} \<longrightarrow> (\<exists>name c. find_coll e name = Some c \<and> co_tag c = t))"

lemma engine_okD:
  assumes "engine_ok h e"
  shows "alloc_inv (en_allocator e)" "omap_ok (en_collections e)"
    "find_coll e name = Some c \<Longrightarrow> member_ok h e name c"
    "find_coll e n1 = Some c1 \<Longrightarrow> find_coll e n2 = Some c2 \<Longrightarrow> co_tag c1 = co_tag c2 \<Longrightarrow> n1 = n2"
    "held_blocks (en_allocator e) t \<noteq> {} \<Longrightarrow> \<exists>name c. find_coll e name = Some c \<and> co_tag c = t"
  using assms unfolding engine_ok_def by blast+

lemma member_okD:
  assumes "member_ok h e name c"
  shows "cfg_name (co_config c) = name" "config_ok (co_config c)" "coll_ok h c (en_allocator e)" "index_used c < 2 ^ 31"
    "unat (tag_value (co_tag c)) < unat (en_next_tag e)"
  using assms by (simp_all add: member_ok_def)

lemma new_engine_ok: "engine_ok h (new_engine cap)"
proof -
  have "held_blocks (new_allocator cap) t = {}" for t
    by (simp add: held_blocks_def tag_live_def new_allocator_def Let_def)
  then show ?thesis using alloc_inv_new by (simp add: engine_ok_def new_engine_def)
qed

lemma fresh_tag:
  assumes "engine_ok h e"
  shows "held_blocks (en_allocator e) (CollectionTag (en_next_tag e)) = {}"
    "find_coll e name = Some c \<Longrightarrow> co_tag c \<noteq> CollectionTag (en_next_tag e)"
proof -
  show no: "co_tag c \<noteq> CollectionTag (en_next_tag e)" if "find_coll e name = Some c" for name c
    using member_okD(5) [OF engine_okD(3) [OF assms that]] by auto
  show "held_blocks (en_allocator e) (CollectionTag (en_next_tag e)) = {}"
    using engine_okD(5) [OF assms] no by blast
qed

lemma next_tag_grows: "k \<noteq> -1 \<Longrightarrow> unat (k + 1 :: u64) = Suc (unat k)"
  using unatSuc [of k] add_eq_0_iff [of 1 k] by (auto simp: add.commute)


section \<open>Changes of the registry\<close>

lemma bump_ok:
  assumes ok: "engine_ok h e" and n: "en_next_tag e \<noteq> -1"
  shows "engine_ok h (e\<lparr>en_next_tag := en_next_tag e + 1\<rparr>)" "engine_view (e\<lparr>en_next_tag := en_next_tag e + 1\<rparr>) = engine_view e"
proof -
  let ?e = "e\<lparr>en_next_tag := en_next_tag e + 1\<rparr>"
  have "member_ok h ?e name c" if "find_coll e name = Some c" for name c
    using engine_okD(3) [OF ok that] next_tag_grows [OF n] by (simp add: member_ok_def)
  then show "engine_ok h ?e" using ok unfolding engine_ok_def by simp
  show "engine_view ?e = engine_view e" by (rule ext) (simp add: engine_view_def)
qed

lemma add_collection_ok:
  assumes ok: "engine_ok h e" and n: "en_next_tag e \<noteq> -1" and new: "find_coll e name = None"
    and c: "co_tag c = CollectionTag (en_next_tag e)" "cfg_name (co_config c) = name" "config_ok (co_config c)"
      "coll_ok h c (en_allocator e)" "index_used c < 2 ^ 31"
  defines "e' \<equiv> e\<lparr>en_collections := omap_emplace name c (en_collections e), en_next_tag := en_next_tag e + 1\<rparr>"
  shows "engine_ok h e'" "engine_view e' = (engine_view e)(name \<mapsto> (co_config c, coll_view c (en_allocator e)))"
proof -
  have find: "find_coll e' j = (if j = name then Some c else find_coll e j)" for j
    using new by (simp add: e'_def omap_emplace_def omap_find_set)
  have alloc: "en_allocator e' = en_allocator e" "en_next_tag e' = en_next_tag e + 1" by (simp_all add: e'_def)
  have members: "member_ok h e' j d" if "find_coll e' j = Some d" for j d
    using that engine_okD(3) [OF ok, of j d] c next_tag_grows [OF n]
    by (auto simp: find alloc member_ok_def split: if_splits)
  have tags: "j1 = j2" if "find_coll e' j1 = Some d1" "find_coll e' j2 = Some d2" "co_tag d1 = co_tag d2" for j1 d1 j2 d2
    using that engine_okD(4) [OF ok, of j1 d1 j2 d2] fresh_tag(2) [OF ok, of j1 d1] fresh_tag(2) [OF ok, of j2 d2] c(1)
    by (auto simp: find split: if_splits)
  have owned: "\<exists>j d. find_coll e' j = Some d \<and> co_tag d = t" if held: "held_blocks (en_allocator e') t \<noteq> {}" for t
  proof -
    obtain j d where "find_coll e j = Some d" "co_tag d = t" using engine_okD(5) [OF ok, of t] held unfolding alloc by blast
    then show ?thesis using new by (intro exI [of _ j] exI [of _ d]) (auto simp: find)
  qed
  have "omap_ok (en_collections e')" using omap_ok_set [OF engine_okD(2) [OF ok]] new by (simp add: e'_def omap_emplace_def)
  moreover have "alloc_inv (en_allocator e')" using engine_okD(1) [OF ok] by (simp add: alloc)
  ultimately show "engine_ok h e'" using members tags owned unfolding engine_ok_def by blast
  show "engine_view e' = (engine_view e)(name \<mapsto> (co_config c, coll_view c (en_allocator e)))"
    by (rule ext) (simp add: engine_view_def find alloc)
qed

text \<open>An allocator step on one tag leaves every other member as it was.\<close>

lemma other_member:
  assumes ok: "engine_ok h e" and kept: "others_kept t (en_allocator e) a'" and j: "find_coll e j = Some d" "co_tag d \<noteq> t"
  shows "coll_ok h d a'" "coll_view d a' = coll_view d (en_allocator e)"
  using coll_others [OF member_okD(3) [OF engine_okD(3) [OF ok j(1)]] kept j(2)] by simp_all

lemma put_collection_ok:
  assumes ok: "engine_ok h e" and c: "find_coll e name = Some c"
    and c': "alloc_inv a'" "coll_ok h c' a'" "evolves c (en_allocator e) c' a'" "index_used c' < 2 ^ 31"
  shows "engine_ok h (put_collection e name c' a')"
    "engine_view (put_collection e name c' a') = (engine_view e)(name \<mapsto> (co_config c, coll_view c' a'))"
proof -
  let ?e = "put_collection e name c' a'"
  note m = member_okD [OF engine_okD(3) [OF ok c]]
  have ev: "others_kept (co_tag c) (en_allocator e) a'" "co_config c' = co_config c" "co_tag c' = co_tag c"
    using c'(3) by (simp_all add: evolves_def)
  have find: "find_coll ?e j = (if j = name then Some c' else find_coll e j)" for j
    by (simp add: put_collection_def omap_find_set)
  have alloc: "en_allocator ?e = a'" "en_next_tag ?e = en_next_tag e" by (simp_all add: put_collection_def)
  have other: "coll_ok h d a' \<and> coll_view d a' = coll_view d (en_allocator e)" if "find_coll e j = Some d" "j \<noteq> name" for j d
  proof -
    have "co_tag d \<noteq> co_tag c" using engine_okD(4) [OF ok that(1) c] that(2) by blast
    then show ?thesis using other_member [OF ok ev(1) that(1)] by blast
  qed
  have members: "member_ok h ?e j d" if "find_coll ?e j = Some d" for j d
  proof (cases "j = name")
    case True
    then have "d = c'" using that by (simp add: find)
    then show ?thesis using True m c' ev by (simp add: member_ok_def alloc)
  next
    case False
    then have d: "find_coll e j = Some d" using that by (simp add: find)
    then show ?thesis using other [OF d False] engine_okD(3) [OF ok d] by (simp add: member_ok_def alloc)
  qed
  have tag: "map_option co_tag (find_coll ?e j) = map_option co_tag (find_coll e j)" for j
    using c ev(3) by (simp add: find)
  have tags: "j1 = j2" if "find_coll ?e j1 = Some d1" "find_coll ?e j2 = Some d2" "co_tag d1 = co_tag d2" for j1 d1 j2 d2
  proof -
    have "map_option co_tag (find_coll e j1) = Some (co_tag d1)" "map_option co_tag (find_coll e j2) = Some (co_tag d2)"
      using that(1,2) by (simp_all add: tag [symmetric])
    then obtain x1 x2 where "find_coll e j1 = Some x1" "co_tag x1 = co_tag d1" "find_coll e j2 = Some x2" "co_tag x2 = co_tag d2" by auto
    then show ?thesis using engine_okD(4) [OF ok, of j1 x1 j2 x2] that(3) by simp
  qed
  have owned: "\<exists>j d. find_coll ?e j = Some d \<and> co_tag d = t" if held: "held_blocks (en_allocator ?e) t \<noteq> {}" for t
  proof (cases "t = co_tag c")
    case True
    then show ?thesis using ev(3) by (intro exI [of _ name] exI [of _ c']) (simp add: find)
  next
    case False
    then have "held_blocks (en_allocator e) t \<noteq> {}" using held ev(1) by (simp add: others_kept_def alloc)
    then obtain j d where jd: "find_coll e j = Some d" "co_tag d = t" using engine_okD(5) [OF ok] by blast
    then have "j \<noteq> name" using c False by auto
    then show ?thesis using jd by (intro exI [of _ j] exI [of _ d]) (simp add: find)
  qed
  have "omap_ok (en_collections ?e)" using omap_ok_set [OF engine_okD(2) [OF ok]] by (simp add: put_collection_def)
  then show "engine_ok h ?e" using c'(1) members tags owned unfolding engine_ok_def alloc by blast
  show "engine_view ?e = (engine_view e)(name \<mapsto> (co_config c, coll_view c' a'))"
  proof
    fix j
    show "engine_view ?e j = ((engine_view e)(name \<mapsto> (co_config c, coll_view c' a'))) j"
      using other [of j] ev(2) by (cases "find_coll e j") (auto simp: engine_view_def find alloc)
  qed
qed

lemma delete_ok:
  assumes ok: "engine_ok h e" and c: "find_coll e name = Some c"
  defines "e' \<equiv> e\<lparr>en_allocator := release_all (en_allocator e) (co_tag c), en_collections := omap_erase name (en_collections e)\<rparr>"
  shows "engine_ok h e'" "engine_view e' = (engine_view e)(name := None)"
    "held_blocks (en_allocator e') t = (if t = co_tag c then {} else held_blocks (en_allocator e) t)"
proof -
  let ?a = "release_all (en_allocator e) (co_tag c)"
  have all: "alloc_inv ?a" "\<And>t. held_blocks ?a t = (if t = co_tag c then {} else held_blocks (en_allocator e) t)"
    "\<And>p k. get_components ?a p k = get_components (en_allocator e) p k"
    using tagged.dispose_all_ok [OF engine_okD(1) [OF ok], of "co_tag c"] by blast+
  have kept: "others_kept (co_tag c) (en_allocator e) ?a" using all by (simp add: others_kept_def)
  have alloc: "en_allocator e' = ?a" "en_next_tag e' = en_next_tag e" by (simp_all add: e'_def)
  show "held_blocks (en_allocator e') t = (if t = co_tag c then {} else held_blocks (en_allocator e) t)" unfolding alloc by (rule all(2))
  have find: "find_coll e' j = (if j = name then None else find_coll e j)" for j
    using omap_find_erase [OF omap_ok_distinct [OF engine_okD(2) [OF ok]]] by (simp add: e'_def)
  have other: "coll_ok h d ?a \<and> coll_view d ?a = coll_view d (en_allocator e)" if "find_coll e j = Some d" "j \<noteq> name" for j d
  proof -
    have "co_tag d \<noteq> co_tag c" using engine_okD(4) [OF ok that(1) c] that(2) by blast
    then show ?thesis using other_member [OF ok kept that(1)] by blast
  qed
  have members: "member_ok h e' j d" if "find_coll e' j = Some d" for j d
  proof -
    have d: "find_coll e j = Some d" "j \<noteq> name" using that by (simp_all add: find split: if_splits)
    then show ?thesis using other engine_okD(3) [OF ok d(1)] by (simp add: member_ok_def alloc)
  qed
  have tags: "j1 = j2" if "find_coll e' j1 = Some d1" "find_coll e' j2 = Some d2" "co_tag d1 = co_tag d2" for j1 d1 j2 d2
    using engine_okD(4) [OF ok, of j1 d1 j2 d2] that by (simp add: find split: if_splits)
  have owned: "\<exists>j d. find_coll e' j = Some d \<and> co_tag d = t" if held: "held_blocks (en_allocator e') t \<noteq> {}" for t
  proof -
    have t: "t \<noteq> co_tag c" "held_blocks (en_allocator e) t \<noteq> {}" using held all(2) by (simp_all add: alloc split: if_splits)
    then obtain j d where jd: "find_coll e j = Some d" "co_tag d = t" using engine_okD(5) [OF ok] by blast
    then have "j \<noteq> name" using c t(1) by auto
    then show ?thesis using jd by (intro exI [of _ j] exI [of _ d]) (simp add: find)
  qed
  have "omap_ok (en_collections e')" using omap_ok_erase [OF engine_okD(2) [OF ok]] by (simp add: e'_def)
  then show "engine_ok h e'" using all(1) members tags owned unfolding engine_ok_def alloc by blast
  show "engine_view e' = (engine_view e)(name := None)"
  proof
    fix j
    show "engine_view e' j = ((engine_view e)(name := None)) j"
      using other [of j] by (cases "find_coll e j") (auto simp: engine_view_def find alloc)
  qed
qed

end
