(* ===== verification/Collection_Claims.thy ===== *)
theory Collection_Claims
  imports Collection_Query
begin

text \<open>
  The properties of the collection, as a client sees them, and a small collection on which they
  are exercised.
\<close>

section \<open>An example\<close>

definition demo_config :: collection_config where
  "demo_config = \<lparr>cfg_name = ''c'', cfg_dim = 1, cfg_metric = Euclidean\<rparr>"

abbreviation demo_empty :: collection where
  "demo_empty \<equiv> new_collection demo_config (CollectionTag 1)"

definition demo_batch :: "record_input list" where
  "demo_batch = [\<lparr>in_id = ''a'', in_vector = [f32_one], in_meta = None\<rparr>,
     \<lparr>in_id = ''b'', in_vector = [f32_zero], in_meta = Some []\<rparr>]"

definition demo_run :: "(status \<times> collection \<times> allocator) option" where
  "demo_run = coll_insert_batch plain_host demo_empty (new_allocator 256) demo_batch"

lemma demo_empty_ok: "coll_ok plain_host demo_empty (new_allocator cap)" "coll_room 1 demo_empty" "coll_room 2 demo_empty"
proof -
  have "held_blocks (new_allocator cap) t = {}" for t
    by (simp add: held_blocks_def tag_live_def new_allocator_def Let_def)
  then show "coll_ok plain_host demo_empty (new_allocator cap)" by (rule new_collection_ok)
  show "coll_room 1 demo_empty" "coll_room 2 demo_empty"
    by (simp_all add: coll_room_def index_used_def new_collection_def)
qed

lemma plain_nan_free: "n \<le> 65536 \<Longrightarrow> nan_free plain_host Euclidean n"
  by (rule nan_free_scalar) (simp_all add: plain_host_def)

lemma demo_run_ok:
  obtains c a where "demo_run = Some (Inr (), c, a)" "alloc_inv a" "coll_ok plain_host c a" "co_config c = demo_config"
    "coll_view c a = batch_map demo_batch" "co_index c = None" "length (co_records c) = 2"
proof -
  have valid: "first_error demo_empty demo_batch = None" "demo_batch \<noteq> []" "length demo_batch \<le> kMaxBatchSize"
    by code_simp+
  have run: "map_option fst demo_run = Some (Inr ())"
    "map_option (\<lambda>(_, c, _). map fst (co_records c)) demo_run = Some [''a'', ''b'']"
    "map_option (\<lambda>(_, c, _). co_index_type c) demo_run = Some NoIndex" by code_simp+
  have room: "coll_room (length demo_batch) demo_empty" using demo_empty_ok(3) by (simp add: demo_batch_def numeral_2_eq_2)
  obtain st c a where r: "demo_run = Some (st, c, a)" "alloc_inv a" "coll_ok plain_host c a" "evolves demo_empty (new_allocator 256) c a"
    "st = Inl AllocationFailure \<and> c = demo_empty \<and> coll_view c a = coll_view demo_empty (new_allocator 256)
     \<or> st = Inr () \<and> coll_view c a = coll_view demo_empty (new_allocator 256) ++ batch_map demo_batch"
    using coll_insert_batch_valid [OF alloc_inv_new demo_empty_ok(1) [of 256] room valid(2,3,1), folded demo_run_def]
    by (elim exE conjE)
  have st: "st = Inr ()" "map fst (co_records c) = [''a'', ''b'']" "co_index_type c = NoIndex"
    using run unfolding r(1) by simp_all
  then have "length (co_records c) = 2" by (metis length_Cons length_map list.size(3) numeral_2_eq_2)
  moreover have "co_index c = None"
  proof (cases "co_index c")
    case (Some ix)
    then have "index_type_of ix = NoIndex"
      using coll_stagedD(9) [OF r(3) [unfolded coll_ok_def]] st(3) by (simp add: index_matches_def)
    then show ?thesis by (cases ix) simp_all
  qed
  moreover have "co_config c = demo_config" using r(4) by (simp add: evolves_def new_collection_def)
  moreover have "coll_view c a = batch_map demo_batch" using r(5) st(1) by (simp add: new_collection_view)
  ultimately show ?thesis using that r st(1) by simp
qed


section \<open>Insertion\<close>

text \<open>
  C10: inserting a record keeps the collection's invariant, touches no other tag's blocks, and
  either stores the vector and the metadata under the identifier, leaving every other record as it
  was, or changes nothing: the error is the first failed check, or allocation failure when no free
  span of the arena has room for the vector.
\<close>

theorem coll_insert_refines:
  assumes "alloc_inv a" "coll_ok h c a" "coll_room 1 c"
  shows "\<exists>st c' a'. coll_insert h c a rid v meta = Some (st, c', a') \<and> alloc_inv a' \<and> coll_ok h c' a' \<and> evolves c a c' a'
    \<and> (case st of
         Inl e \<Rightarrow> c' = c \<and> a' = a \<and> e = (case check_record c rid v of Some e' \<Rightarrow> e' | None \<Rightarrow> AllocationFailure)
           \<and> (check_record c rid v = None \<longrightarrow> (\<forall>(off, len) \<in> set (al_free a). len < block_footprint (vector_bytes c)))
       | Inr _ \<Rightarrow> check_record c rid v = None \<and> coll_view c' a' = (coll_view c a)(rid \<mapsto> (v, meta)))"
proof (cases "check_record c rid v")
  case None
  have "\<forall>(off, len) \<in> set (al_free a). len < block_footprint (vector_bytes c)" if run: "coll_insert h c a rid v meta = Some (Inl e, c', a')" for e c' a'
  proof -
    obtain o1 a1 where al: "allocate a (vector_bytes c) (co_tag c) = (o1, a1)" by (cases "allocate a (vector_bytes c) (co_tag c)")
    then obtain e1 where "o1 = Inl e1" using run None by (cases o1) (auto simp: coll_insert_def)
    then show ?thesis using al allocate_failure by blast
  qed
  then show ?thesis using coll_insert_valid [OF assms None, of meta] None by fastforce
next
  case (Some e)
  show ?thesis using coll_insert_invalid [OF Some] assms Some by simp
qed

theorem coll_insert_refines_witness:
  "\<exists>st c' a'. coll_insert plain_host demo_empty (new_allocator 256) ''a'' [f32_one] None = Some (st, c', a') \<and> alloc_inv a'
     \<and> coll_ok plain_host c' a'"
  using coll_insert_refines [OF alloc_inv_new demo_empty_ok(1,2), of 256 "''a''" "[f32_one]" None] by blast

lemma coll_insert_batch_outcome:
  assumes "alloc_inv a" "coll_ok h c a" "coll_room (length rs) c"
  shows "\<exists>st c' a'. coll_insert_batch h c a rs = Some (st, c', a') \<and> alloc_inv a' \<and> coll_ok h c' a' \<and> evolves c a c' a'
    \<and> (case st of
         Inl e \<Rightarrow> c' = c \<and> coll_view c' a' = coll_view c a \<and>
           e = (if rs = [] \<or> 10000 < length rs then InvalidArgument
                else case first_error c rs of Some e' \<Rightarrow> e' | None \<Rightarrow> AllocationFailure)
       | Inr _ \<Rightarrow> first_error c rs = None \<and> coll_view c' a' = coll_view c a ++ batch_map rs)"
proof (cases "rs = [] \<or> kMaxBatchSize < length rs")
  case True
  then have "coll_insert_batch h c a rs = Some (Inl InvalidArgument, c, a)" by (simp add: coll_insert_batch_def)
  moreover have "rs = [] \<or> 10000 < length rs" using True by (simp add: kMaxBatchSize_def)
  ultimately show ?thesis using assms by auto
next
  case size: False
  show ?thesis
  proof (cases "first_error c rs")
    case None
    have "rs \<noteq> []" "length rs \<le> kMaxBatchSize" using size by simp_all
    then show ?thesis
      using coll_insert_batch_valid [OF assms _ _ None] None by (fastforce simp: kMaxBatchSize_def)
  next
    case (Some e)
    then show ?thesis using size assms by (simp add: coll_insert_batch_def) (simp add: kMaxBatchSize_def)
  qed
qed

text \<open>
  C3: a batch is atomic.  It is refused for its size, for the first invalid record, or when a
  block cannot be allocated, and then no record has changed; otherwise every record is stored,
  the last one of each identifier.
\<close>

theorem coll_insert_batch_atomic:
  assumes "alloc_inv a" "coll_ok h c a" "coll_room (length rs) c"
  shows "\<exists>st c' a'. coll_insert_batch h c a rs = Some (st, c', a') \<and> alloc_inv a' \<and> coll_ok h c' a' \<and> evolves c a c' a'
    \<and> (case st of
         Inl e \<Rightarrow> c' = c \<and> coll_view c' a' = coll_view c a \<and>
           e = (if rs = [] \<or> 10000 < length rs then InvalidArgument
                else case first_error c rs of Some e' \<Rightarrow> e' | None \<Rightarrow> AllocationFailure)
       | Inr _ \<Rightarrow> first_error c rs = None \<and> coll_view c' a' = coll_view c a ++ batch_map rs)"
  by (rule coll_insert_batch_outcome [OF assms])

theorem coll_insert_batch_atomic_witness:
  "\<exists>st c' a'. coll_insert_batch plain_host demo_empty (new_allocator 256) demo_batch = Some (st, c', a') \<and> alloc_inv a'
     \<and> coll_ok plain_host c' a'"
proof -
  have "length demo_batch = 2" by (simp add: demo_batch_def)
  then show ?thesis
    using coll_insert_batch_atomic [OF alloc_inv_new demo_empty_ok(1), of demo_batch 256] demo_empty_ok(3) by auto
qed


section \<open>Removal and lookup\<close>

text \<open>
  C16: removing an identifier deletes exactly its record, or reports \<open>NotFound\<close> when there is none;
  either way a lookup then fails, and every other lookup answers as before.
\<close>

theorem coll_remove_refines:
  assumes "alloc_inv a" "coll_ok h c a"
  shows "\<exists>c' a'. coll_remove c a rid = (if coll_view c a rid = None then Inl NotFound else Inr (), c', a') \<and> alloc_inv a'
    \<and> coll_ok h c' a' \<and> evolves c a c' a' \<and> coll_view c' a' = (coll_view c a)(rid := None)
    \<and> coll_get c' a' = (coll_get c a)(rid := Some (Inl NotFound))"
proof -
  obtain c' a' where r: "coll_remove c a rid = (if coll_view c a rid = None then Inl NotFound else Inr (), c', a')" "alloc_inv a'"
    "coll_ok h c' a'" "evolves c a c' a'" "coll_view c' a' = (coll_view c a)(rid := None)"
    using coll_remove_ok [OF assms, of rid] by (elim exE conjE)
  moreover have "coll_get c' a' = (coll_get c a)(rid := Some (Inl NotFound))"
    by (rule ext) (simp add: coll_get_view [OF assms(2)] coll_get_view [OF r(3)] r(5))
  ultimately show ?thesis by (intro exI conjI)
qed

theorem coll_remove_refines_witness:
  "\<exists>c a c' a'. demo_run = Some (Inr (), c, a) \<and> coll_remove c a ''a'' = (Inr (), c', a') \<and> coll_ok plain_host c' a'
     \<and> coll_get c' a' ''a'' = Some (Inl NotFound)
     \<and> coll_get c' a' ''b'' = Some (Inr \<lparr>view_vector = [f32_zero], view_meta = Some []\<rparr>)"
proof -
  obtain c a where d: "demo_run = Some (Inr (), c, a)" "alloc_inv a" "coll_ok plain_host c a" "coll_view c a = batch_map demo_batch"
    by (rule demo_run_ok)
  have v: "coll_view c a ''a'' = Some ([f32_one], None)" "coll_view c a ''b'' = Some ([f32_zero], Some [])"
    by (simp_all add: d(4) batch_map_def demo_batch_def)
  obtain c' a' where "coll_remove c a ''a'' = (if coll_view c a ''a'' = None then Inl NotFound else Inr (), c', a')"
    "coll_ok plain_host c' a'" "coll_get c' a' = (coll_get c a)(''a'' := Some (Inl NotFound))"
    using coll_remove_refines [OF d(2,3), of "''a''"] by (elim exE conjE)
  then show ?thesis using d v by (intro exI [of _ c] exI [of _ a] exI [of _ c'] exI [of _ a']) (simp add: coll_get_view [OF d(3)])
qed


section \<open>Indexes\<close>

text \<open>
  C34: building an index validates its parameters first, and changes nothing when they are bad;
  otherwise it replaces the index by one over exactly the records of the collection, none of
  which changes, and with no tombstone.
\<close>

theorem coll_build_index_keeps:
  assumes "coll_ok h c a" "index_host_ok h type (cfg_dim (co_config c)) (cfg_metric (co_config c)) params"
  shows "\<exists>st c'. coll_build_index h c a type params = Some (st, c') \<and> coll_ok h c' a \<and> coll_view c' a = coll_view c a
    \<and> (case index_param_error type params (coll_count c) of
         Some e \<Rightarrow> st = Inl e \<and> c' = c
       | None \<Rightarrow> st = Inr () \<and> co_index_type c' = type \<and> index_used c' \<le> length (co_records c))"
proof (cases "index_param_error type params (co_record_count c)")
  case None
  then show ?thesis using coll_build_index_ok [OF assms(1) None assms(2)] by (fastforce simp: coll_count_def)
next
  case (Some e)
  then show ?thesis using coll_build_index_invalid [OF Some] assms(1) by (simp add: coll_count_def)
qed

theorem coll_build_index_keeps_witness:
  "\<exists>c a st c'. demo_run = Some (Inr (), c, a) \<and> coll_build_index plain_host c a HNSW demo_params = Some (st, c')
     \<and> coll_ok plain_host c' a \<and> coll_view c' a = coll_view c a"
proof -
  obtain c a where d: "demo_run = Some (Inr (), c, a)" "coll_ok plain_host c a" "co_config c = demo_config"
    by (rule demo_run_ok)
  have cfg: "cfg_dim (co_config c) = 1" "cfg_metric (co_config c) = Euclidean" by (simp_all add: d(3) demo_config_def)
  have "index_host_ok plain_host HNSW (cfg_dim (co_config c)) (cfg_metric (co_config c)) demo_params"
    using plain_nan_free [of 1] unfolding cfg by (simp add: index_host_ok_def plain_scale plain_levels)
  from coll_build_index_keeps [OF d(2) this] show ?thesis using d(1) by blast
qed


section \<open>Queries\<close>

lemma coll_query_outcome:
  assumes "coll_ok h c a" "index_used c < 2 ^ 31" "nan_free h (cfg_metric (co_config c)) (co_dim c)"
  shows "\<exists>r c'. coll_query h c a q k params = Some (r, c') \<and> coll_ok h c' a \<and> coll_view c' a = coll_view c a
    \<and> (case r of
         Inl e \<Rightarrow> \<not> (k \<noteq> 0 \<and> length q = co_dim c \<and> list_all f32_isfinite q) \<and>
           e = (if k = 0 then InvalidArgument else if length q \<noteq> co_dim c then DimensionMismatch else InvalidValue)
       | Inr rs \<Rightarrow> k \<noteq> 0 \<and> length q = co_dim c \<and> list_all f32_isfinite q \<and> query_answer h c a q (unat k) rs)"
proof (cases "k \<noteq> 0 \<and> length q = co_dim c \<and> finite_vec q")
  case True
  then have q: "\<not> k < 1" "length q = co_dim c" "finite_vec q" by (simp_all add: word_less_1)
  obtain rs c' where "coll_query h c a q k params = Some (Inr rs, c')" "query_answer h c a q (unat k) rs" "coll_ok h c' a"
    "coll_view c' a = coll_view c a"
    using coll_query_ok [OF assms(1,2) q assms(3), of params] by (elim exE conjE)
  then show ?thesis using True by (simp add: list_all_iff)
next
  case False
  then show ?thesis using assms(1) first_non_finite_length [of q] by (auto simp: coll_query_def word_less_1 list_all_iff)
qed

text \<open>
  C6: a query is checked for its \<open>k\<close>, its length and its components, in this order; a valid one
  returns \<open>min k n\<close> of the \<open>n\<close> records, each at most once, with the exact distance of each, nearest
  first and ties by identifier, whatever the index returned.  The collection is unchanged but for
  the internal state of the index.
\<close>

theorem coll_query_answers:
  assumes "coll_ok h c a" "index_used c < 2 ^ 31" "nan_free h (cfg_metric (co_config c)) (co_dim c)"
  shows "\<exists>r c'. coll_query h c a q k params = Some (r, c') \<and> coll_ok h c' a \<and> coll_view c' a = coll_view c a
    \<and> (case r of
         Inl e \<Rightarrow> \<not> (k \<noteq> 0 \<and> length q = co_dim c \<and> list_all f32_isfinite q) \<and>
           e = (if k = 0 then InvalidArgument else if length q \<noteq> co_dim c then DimensionMismatch else InvalidValue)
       | Inr rs \<Rightarrow> k \<noteq> 0 \<and> length q = co_dim c \<and> list_all f32_isfinite q \<and> query_answer h c a q (unat k) rs)"
  by (rule coll_query_outcome [OF assms])

theorem coll_query_answers_witness:
  "\<exists>c a r c'. demo_run = Some (Inr (), c, a) \<and> coll_query plain_host c a [f32_one] 1 default_query_params = Some (r, c')
     \<and> coll_ok plain_host c' a"
proof -
  obtain c a where d: "demo_run = Some (Inr (), c, a)" "coll_ok plain_host c a" "co_config c = demo_config" "co_index c = None"
    by (rule demo_run_ok)
  have "nan_free plain_host (cfg_metric (co_config c)) (co_dim c)" using plain_nan_free by (simp add: d(3) demo_config_def)
  moreover have "index_used c < 2 ^ 31" using d(4) by (simp add: index_used_def)
  ultimately show ?thesis using coll_query_answers [OF d(2)] d(1) by blast
qed

text \<open>
  C13: without an index, or when \<open>k\<close> is at least the number of records, a query is the exact
  search: the \<open>k\<close> first of all records by distance, ties by identifier.
\<close>

theorem coll_query_is_exact:
  assumes "coll_ok h c a" "k \<noteq> 0" "length q = co_dim c" "list_all f32_isfinite q"
    and "nan_free h (cfg_metric (co_config c)) (co_dim c)"
    and "co_index c = None \<or> length (co_records c) \<le> unat k"
  shows "coll_query h c a q k params =
    Some (Inr (take (unat k) (sort_by by_distance_then_id
      (map (\<lambda>rid. (rid, distance_or_inf (h_calculator h) (cfg_metric (co_config c)) q (the (rec_vector c a rid))))
        (map fst (co_records c))))), c)"
proof -
  have "\<not> k < 1" "finite_vec q" using assms(2,4) by (simp_all add: list_all_iff word_less_1)
  from coll_query_exact [OF assms(1) this(1) assms(3) this(2) assms(5,6), unfolded all_distances_def] show ?thesis .
qed

theorem coll_query_is_exact_witness:
  "\<exists>c a. demo_run = Some (Inr (), c, a) \<and> coll_query plain_host c a [f32_one] 1 default_query_params =
     Some (Inr (take 1 (sort_by by_distance_then_id
       (map (\<lambda>rid. (rid, distance_or_inf scalar_calculator Euclidean [f32_one] (the (rec_vector c a rid)))) (map fst (co_records c))))), c)"
proof -
  obtain c a where d: "demo_run = Some (Inr (), c, a)" "coll_ok plain_host c a" "co_config c = demo_config" "co_index c = None"
    by (rule demo_run_ok)
  have nan: "nan_free plain_host (cfg_metric (co_config c)) (co_dim c)" using plain_nan_free by (simp add: d(3) demo_config_def)
  have q: "(1::u32) \<noteq> 0" "length [f32_one] = co_dim c" "list_all f32_isfinite [f32_one]"
    by (simp, simp add: d(3) demo_config_def, code_simp)
  have flat: "co_index c = None \<or> length (co_records c) \<le> unat (1::u32)" using d(4) by simp
  have calc: "h_calculator plain_host = scalar_calculator" by (simp add: plain_host_def)
  from coll_query_is_exact [OF d(2) q nan flat, of default_query_params] show ?thesis
    using d(1) calc unfolding d(3) by (intro exI [of _ c] exI [of _ a]) (simp add: demo_config_def)
qed

end
