(* ===== verification/Snapshot_Claims.thy ===== *)
theory Snapshot_Claims
  imports Snapshot_Safety Collection_Claims
begin

text \<open>
  The properties of saving and loading: a save is atomic whatever the file system calls return, a
  saved collection loads back and saves to the same bytes, damaged files are refused, and the loader
  reads inside the mapping on any file.
\<close>

section \<open>Atomic saves\<close>

lemma decimal_nonempty: "decimal n \<noteq> []"
  by (subst decimal.simps) simp

lemma temp_path_differs: "locate (make_temp_path path now n) \<noteq> locate path"
proof
  assume "locate (make_temp_path path now n) = locate path"
  then have "snd path @ ''.vvtmp-'' @ decimal now @ ''-'' @ decimal n = snd path"
    by (simp add: locate_def make_temp_path_def)
  then show False by simp
qed

text \<open>The states a durable write passes through touch the temporary file only.\<close>

lemma write_temp_states:
  assumes "write_temp_durably io temp img fs = (ok, states)" "p \<noteq> locate temp"
  shows "list_all (\<lambda>s. s p = fs p) states"
  using assms by (auto simp: write_temp_durably_def remove_file_def Let_def split: if_splits)

lemma write_temp_result:
  assumes "write_temp_durably io temp img fs = (ok, states)"
  shows "states \<noteq> []" "last states = fs" "ok \<Longrightarrow> hd states (locate temp) = Some (RegularFile img True)"
    "\<not> ok \<Longrightarrow> io_remove io \<Longrightarrow> fs (locate temp) = None \<Longrightarrow> hd states (locate temp) = None"
  using assms by (auto simp: write_temp_durably_def remove_file_def Let_def split: if_splits)

text \<open>
  C5: a save is atomic.  Whatever its file system calls return, in every state it passes through the
  target has the node it had before or the complete image in stable storage, and no other file but
  the temporary one has changed.  A failed save leaves the target alone and, if the file can be
  removed, no temporary file; after a successful one the target is the image and the temporary
  file is gone.
\<close>

theorem save_is_atomic:
  assumes "save_image io (make_temp_path path now n) path img fs = (st, states)"
    and "fs (locate (make_temp_path path now n)) = None"
  shows "states \<noteq> [] \<and> last states = fs
    \<and> list_all (\<lambda>s. s (locate path) = fs (locate path) \<or> s (locate path) = Some (RegularFile img True)) states
    \<and> (p \<noteq> locate path \<longrightarrow> p \<noteq> locate (make_temp_path path now n) \<longrightarrow> list_all (\<lambda>s. s p = fs p) states)
    \<and> (case st of
         Inl e \<Rightarrow> e = WriteFailure \<and> list_all (\<lambda>s. s (locate path) = fs (locate path)) states
           \<and> (io_remove io \<longrightarrow> hd states (locate (make_temp_path path now n)) = None)
       | Inr _ \<Rightarrow> hd states (locate path) = Some (RegularFile img True)
           \<and> hd states (locate (make_temp_path path now n)) = None)"
proof -
  let ?temp = "make_temp_path path now n"
  obtain ok ws where w: "write_temp_durably io ?temp img fs = (ok, ws)" by fastforce
  note r = write_temp_result [OF w] and keep = write_temp_states [OF w]
  note target = keep [OF temp_path_differs [symmetric]]
  show ?thesis
  proof (cases "ok \<and> io_rename io")
    case True
    then have "st = Inr () \<and> states = (hd ws)(locate ?temp := None, locate path := hd ws (locate ?temp)) # ws"
      using assms(1) w by (simp add: save_image_def atomic_rename_def)
    then show ?thesis
      using r True keep [of p] target temp_path_differs [of path now n] list.set_sel(1) [OF r(1)]
      by (auto simp: list_all_iff)
  next
    case False
    then have "st = Inl WriteFailure \<and> states = (if ok then remove_file (io_remove io) ?temp ws else ws)"
      using assms(1) w by (auto simp: save_image_def atomic_rename_def)
    then show ?thesis
      using r keep [of p] target assms(2) temp_path_differs [of path now n] list.set_sel(1) [OF r(1)]
      by (auto simp: list_all_iff remove_file_def)
  qed
qed

lemma saved_target:
  assumes "save_image io (make_temp_path path now n) path img fs = (Inr (), states)"
  shows "hd states (locate path) = Some (RegularFile img True)"
proof -
  let ?temp = "make_temp_path path now n"
  obtain ok ws where w: "write_temp_durably io ?temp img fs = (ok, ws)" by fastforce
  then have "ok \<and> states = (hd ws)(locate ?temp := None, locate path := hd ws (locate ?temp)) # ws"
    using assms by (auto simp: save_image_def atomic_rename_def split: bool.splits if_splits)
  then show ?thesis using write_temp_result(3) [OF w] by simp
qed

definition full_disk :: io_results where
  "full_disk = \<lparr>io_open = True, io_written = 2, io_flush = True, io_sync = True, io_close = True, io_remove = True, io_rename = True\<rparr>"

theorem save_is_atomic_witness:
  "\<exists>states. save_image full_disk (make_temp_path (''d'', ''f'') 7 0) (''d'', ''f'') [1, 2, 3] Map.empty = (Inl WriteFailure, states)
     \<and> length states = 4 \<and> list_all (\<lambda>s. s (''d'', ''f'') = None) states"
proof -
  define r where "r = save_image full_disk (make_temp_path (''d'', ''f'') 7 0) (''d'', ''f'') [1, 2, 3] Map.empty"
  have st: "fst r = Inl WriteFailure" "length (snd r) = 4"
    unfolding r_def by (simp_all add: save_image_def write_temp_durably_def full_disk_def remove_file_def Let_def)
  have "save_image full_disk (make_temp_path (''d'', ''f'') 7 0) (''d'', ''f'') [1, 2, 3] Map.empty = (Inl WriteFailure, snd r)"
    using st(1) unfolding r_def [symmetric] by (cases r) simp
  from this save_is_atomic [OF this, of "(''d'', ''f'')"] st(2) show ?thesis by (auto simp: locate_def)
qed


section \<open>Save, load, save\<close>

text \<open>
  C2: a saved collection loads back under a fresh tag with the same configuration, records,
  metadata and index type, well formed, without a byte of the arena; saving it again writes the
  same bytes.
\<close>

theorem snapshot_roundtrip:
  assumes "coll_ok h c a" "coll_fits c" "coll_snapshot_data c a = Some data" "length (encode data) < 2 ^ 64"
    and "save_collection io now n c a path fs = Some (Inr (), states)"
    and "held_blocks a' tag = {}"
  shows "\<exists>c'. load_snapshot h True (hd states (locate path)) a' tag = Some (Inr c') \<and> coll_ok h c' a' \<and> co_tag c' = tag
    \<and> co_config c' = co_config c \<and> coll_view c' a' = coll_view c a \<and> coll_index_type c' = coll_index_type c
    \<and> coll_snapshot_data c' a' = Some data
    \<and> save_collection io now n c' a' path fs = save_collection io now n c a path fs"
proof -
  have "save_image io (make_temp_path path now n) path (encode data) fs = (Inr (), states)"
    using assms(3,5) by (simp add: save_collection_def)
  then have "hd states (locate path) = Some (RegularFile (encode data) True)"
    by (rule saved_target)
  then show ?thesis using load_saved [OF assms(1-4,6)] assms(3) by (fastforce simp: save_collection_def)
qed

lemma demo_run_records:
  assumes "demo_run = Some (st, c, a)"
  shows "map (\<lambda>(rid, slot). (rid, slot_meta slot)) (co_records c) = [(''a'', None), (''b'', Some [])]"
    "map_option (\<lambda>d. length (image_body d)) (coll_snapshot_data c a) = Some 60" "coll_snapshot_data c a \<noteq> None"
proof -
  have "map_option (\<lambda>(_, c, _). map (\<lambda>(rid, slot). (rid, slot_meta slot)) (co_records c)) demo_run = Some [(''a'', None), (''b'', Some [])]"
    "map_option (\<lambda>(_, c, a). map_option (\<lambda>d. length (image_body d)) (coll_snapshot_data c a)) demo_run = Some (Some 60)"
    by code_simp+
  then show "map (\<lambda>(rid, slot). (rid, slot_meta slot)) (co_records c) = [(''a'', None), (''b'', Some [])]"
    "map_option (\<lambda>d. length (image_body d)) (coll_snapshot_data c a) = Some 60" "coll_snapshot_data c a \<noteq> None"
    unfolding assms by auto
qed


lemma encode_length:
  assumes "coll_ok h c a" "coll_fits c" "coll_snapshot_data c a = Some data"
  shows "encode data = image_file data" "length (encode data) = kHeaderSize + length (image_body data)"
proof -
  have used: "index_used c < 2 ^ 31" using assms(2) by (simp add: coll_fits_def)
  have sd: "sd_config data = co_config c" "sd_records data = map (view_record c a) (co_records c)"
    using coll_snapshot_view [OF assms(1) used] assms(3) by auto
  show "encode data = image_file data"
    unfolding image_file_def by (rule encode_image) (use view_records_length [OF assms(1)] in \<open>simp add: sd\<close>)
  then show "length (encode data) = kHeaderSize + length (image_body data)" by (simp add: image_file_def)
qed

text \<open>The demonstration collection can be saved.\<close>

lemma demo_saved:
  obtains c a data where "demo_run = Some (Inr (), c, a)" "alloc_inv a" "coll_ok plain_host c a" "coll_fits c" "co_index c = None"
    "coll_snapshot_data c a = Some data" "encode data = image_file data" "length (encode data) = 136"
    "coll_view c a = batch_map demo_batch" "co_config c = demo_config"
proof -
  obtain c a where d: "demo_run = Some (Inr (), c, a)" "alloc_inv a" "coll_ok plain_host c a" "co_config c = demo_config" "co_index c = None"
    "coll_view c a = batch_map demo_batch"
    by (rule demo_run_ok)
  note r = demo_run_records [OF d(1)]
  have "slot_fits e" if "e \<in> set (co_records c)" for e
  proof -
    have "(fst e, slot_meta (snd e)) \<in> set (map (\<lambda>(rid, slot). (rid, slot_meta slot)) (co_records c))"
      using that by (force simp: case_prod_beta)
    then have "(fst e, slot_meta (snd e)) = (''a'', None) \<or> (fst e, slot_meta (snd e)) = (''b'', Some [])" unfolding r(1) by simp
    then show ?thesis
      by (auto simp: slot_fits_def metadata_fits_def metadata_bytes_def write_metadata_def put_appends)
  qed
  moreover have "config_ok demo_config" by (simp add: config_ok_def demo_config_def)
  ultimately have fits: "coll_fits c" by (simp add: coll_fits_def list_all_iff d(4,5) index_fits_def index_used_def)
  obtain data where data: "coll_snapshot_data c a = Some data" using r(3) by blast
  then have "length (image_body data) = 60" using r(2) by simp
  then have "length (encode data) = 136" using encode_length(2) [OF d(3) fits data] by (simp add: kHeaderSize_def)
  then show ?thesis using that d fits data encode_length(1) [OF d(3) fits data] by blast
qed

definition good_disk :: io_results where
  "good_disk = full_disk\<lparr>io_written := 136\<rparr>"

lemma good_disk_saves:
  "length img = 136 \<Longrightarrow> fst (save_image good_disk temp path img fs) = Inr ()"
  by (auto simp: save_image_def write_temp_durably_def atomic_rename_def good_disk_def full_disk_def Let_def)

theorem snapshot_roundtrip_witness:
  "\<exists>c a states c'. demo_run = Some (Inr (), c, a)
     \<and> save_collection good_disk 7 0 c a (''d'', ''f'') Map.empty = Some (Inr (), states)
     \<and> load_snapshot plain_host True (hd states (''d'', ''f'')) (new_allocator 256) (CollectionTag 9) = Some (Inr c')
     \<and> coll_view c' (new_allocator 256) = batch_map demo_batch"
proof -
  obtain c a data where d: "demo_run = Some (Inr (), c, a)" "coll_ok plain_host c a" "coll_fits c" "coll_snapshot_data c a = Some data"
    "length (encode data) = 136" "coll_view c a = batch_map demo_batch"
    by (rule demo_saved)
  define r where "r = save_image good_disk (make_temp_path (''d'', ''f'') 7 0) (''d'', ''f'') (encode data) Map.empty"
  have "fst r = Inr ()" unfolding r_def by (rule good_disk_saves [OF d(5)])
  then have save: "save_collection good_disk 7 0 c a (''d'', ''f'') Map.empty = Some (Inr (), snd r)"
    using d(4) by (cases r) (simp add: save_collection_def r_def [symmetric])
  have "length (encode data) < 2 ^ 64" using d(5) by simp
  moreover have "held_blocks (new_allocator 256) (CollectionTag 9) = {}"
    by (simp add: held_blocks_def tag_live_def new_allocator_def Let_def)
  ultimately show ?thesis
    using snapshot_roundtrip [OF d(2,3,4) _ save] d(1,6) save by (fastforce simp: locate_def)
qed



section \<open>Damaged files\<close>

lemma saved_data_ok:
  assumes "coll_ok h c a" "coll_fits c" "coll_snapshot_data c a = Some data" "length (encode data) < 2 ^ 64"
  shows "data_ok data" "encode data = image_file data"
  using view_data_ok [OF assms(1-3)] encode_length [OF assms(1-3)] assms(4) by simp_all

text \<open>A file that starts with an intact header.\<close>

lemma load_after_header:
  assumes "length (write_header hdr @ body) < 2 ^ 64" "hd_format_version hdr = 1"
  shows "load_snapshot h True (Some (RegularFile (write_header hdr @ body) sync)) a tag =
    (if crc64_ecma body 0 \<noteq> hd_content_crc64 hdr \<or> \<not> header_ok hdr (kHeaderSize + length body) then Some (Inl Corruption)
     else load_body h hdr (write_header hdr @ body) a tag)"
  using read_header_written [OF assms(1)] assms(2) by (simp add: load_snapshot_def kFormatVersion_def)

lemma load_truncated:
  assumes "coll_ok h c a" "coll_fits c" "coll_snapshot_data c a = Some data" "length (encode data) < 2 ^ 64"
    and "n < length (encode data)"
  shows "load_snapshot h True (Some (RegularFile (take n (encode data)) sync)) a' tag =
    Some (Inl (if n < 76 then SnapshotNotFound else Corruption))"
proof (cases "n < 76")
  case True
  then show ?thesis using assms(5) by (simp add: load_snapshot_def kHeaderSize_def)
next
  case False
  note dok = saved_data_ok [OF assms(1-4)] and sz = image_sizes [OF saved_data_ok(1) [OF assms(1-4)]]
    and f = image_header_fields [OF saved_data_ok(1) [OF assms(1-4)]]
  let ?hdr = "image_header data" and ?body = "take (n - 76) (image_body data)"
  have cut: "take n (encode data) = write_header ?hdr @ ?body"
    using False by (simp add: dok(2) image_file_def) (simp add: kHeaderSize_def)
  have n: "n < vector_off data + vector_len data + length (sd_index_blob data)"
    using assms(5) sz(1) by (simp add: dok(2) image_file_def)
  have "length (write_header ?hdr @ ?body) < 2 ^ 64" unfolding cut [symmetric] using assms(4) by (simp add: min_def)
  moreover have "kHeaderSize + length ?body = n"
    using False n sz(1) by (simp add: kHeaderSize_def)
  then have "\<not> header_ok ?hdr (kHeaderSize + length ?body)"
    using n f(5,6) by (auto simp: header_ok_def)
  ultimately show ?thesis using load_after_header f(11) False unfolding cut by simp
qed

text \<open>
  C35: no strict prefix of a snapshot loads: it is not found to be a snapshot when the header is
  cut, and corrupt otherwise.
\<close>

theorem truncated_snapshot_rejected:
  assumes "coll_ok h c a" "coll_fits c" "coll_snapshot_data c a = Some data" "length (encode data) < 2 ^ 64"
    and "n < length (encode data)"
  shows "load_snapshot h True (Some (RegularFile (take n (encode data)) sync)) a' tag =
    Some (Inl (if n < 76 then SnapshotNotFound else Corruption))"
  using assms by (rule load_truncated)

theorem truncated_snapshot_rejected_witness:
  "\<exists>c a data. demo_run = Some (Inr (), c, a) \<and> coll_snapshot_data c a = Some data
     \<and> load_snapshot plain_host True (Some (RegularFile (take 135 (encode data)) True)) a (CollectionTag 9) = Some (Inl Corruption)
     \<and> load_snapshot plain_host True (Some (RegularFile (take 75 (encode data)) True)) a (CollectionTag 9) = Some (Inl SnapshotNotFound)"
proof -
  obtain c a data where d: "demo_run = Some (Inr (), c, a)" "coll_ok plain_host c a" "coll_fits c" "coll_snapshot_data c a = Some data"
    "length (encode data) = 136"
    by (rule demo_saved)
  then have "length (encode data) < 2 ^ 64" by simp
  note t = truncated_snapshot_rejected [OF d(2,3,4) this]
  show ?thesis
    using d t [of 135 True a "CollectionTag 9"] t [of 75 True a "CollectionTag 9"]
    by (intro exI [of _ c] exI [of _ a] exI [of _ data]) simp
qed

text \<open>
  C12: replacing up to eight consecutive bytes behind the header of a snapshot by other bytes is
  always reported as corruption.
\<close>

theorem corrupted_snapshot_rejected:
  assumes "coll_ok h c a" "coll_fits c" "coll_snapshot_data c a = Some data" "length (encode data) < 2 ^ 64"
    and "encode data = pre @ old @ post" "76 \<le> length pre" "length new = length old" "length old \<le> 8" "new \<noteq> old"
  shows "load_snapshot h True (Some (RegularFile (pre @ new @ post) sync)) a' tag = Some (Inl Corruption)"
proof -
  note dok = saved_data_ok [OF assms(1-4)] and f = image_header_fields [OF saved_data_ok(1) [OF assms(1-4)]]
  let ?hdr = "image_header data"
  have "take kHeaderSize (encode data) = write_header ?hdr" by (simp add: dok(2) image_file_def)
  moreover have "take kHeaderSize (encode data) = take kHeaderSize pre"
    using assms(6) unfolding assms(5) by (simp add: kHeaderSize_def)
  ultimately have pre: "pre = write_header ?hdr @ drop kHeaderSize pre" by (metis append_take_drop_id)
  let ?p = "drop kHeaderSize pre"
  have body: "image_body data = ?p @ old @ post"
    using assms(5) pre unfolding dok(2) image_file_def by (metis append.assoc same_append_eq)
  have len: "length (pre @ new @ post) < 2 ^ 64" using assms(4,7) unfolding assms(5) by simp
  have whole: "pre @ new @ post = write_header ?hdr @ (?p @ new @ post)" using pre by (metis append.assoc)
  have "length old = length new" "length new \<le> 8" using assms(7,8) by simp_all
  then have "crc64_ecma (?p @ new @ post) 0 \<noteq> crc64_ecma (?p @ old @ post) 0"
    using crc_byte_burst [of new old] assms(9) by simp
  then have "crc64_ecma (?p @ new @ post) 0 \<noteq> hd_content_crc64 ?hdr" unfolding f(10) body .
  then show ?thesis using load_after_header [OF len [unfolded whole] f(11)] unfolding whole by simp
qed

theorem corrupted_snapshot_rejected_witness:
  "\<exists>c a data b. demo_run = Some (Inr (), c, a) \<and> coll_snapshot_data c a = Some data \<and> b \<noteq> encode data ! 128
     \<and> load_snapshot plain_host True (Some (RegularFile ((encode data)[128 := b]) True)) a (CollectionTag 9) = Some (Inl Corruption)"
proof -
  obtain c a data where d: "demo_run = Some (Inr (), c, a)" "coll_ok plain_host c a" "coll_fits c" "coll_snapshot_data c a = Some data"
    "length (encode data) = 136"
    by (rule demo_saved)
  have len: "length (encode data) < 2 ^ 64" "128 < length (encode data)" using d(5) by simp_all
  let ?x = "encode data ! 128" let ?b = "?x + 1"
  have split: "encode data = take 128 (encode data) @ [?x] @ drop (Suc 128) (encode data)" using id_take_nth_drop [OF len(2)] by simp
  have "76 \<le> length (take 128 (encode data))" "[?b] \<noteq> [?x]" using d(5) by simp_all
  from corrupted_snapshot_rejected [OF d(2,3,4) len(1) split this(1) _ _ this(2), of True a "CollectionTag 9"]
  have "load_snapshot plain_host True (Some (RegularFile (take 128 (encode data) @ [?b] @ drop (Suc 128) (encode data)) True)) a (CollectionTag 9)
      = Some (Inl Corruption)" by simp
  moreover have "(encode data)[128 := ?b] = take 128 (encode data) @ [?b] @ drop (Suc 128) (encode data)"
    using upd_conv_take_nth_drop [OF len(2)] by simp
  moreover have "?b \<noteq> ?x" by simp
  ultimately show ?thesis using d(1,4) by metis
qed






section \<open>What the checksum does not cover\<close>

text \<open>Changing the metric of a collection without an index.\<close>

lemma change_metric:
  assumes ok: "coll_ok h c a" and none: "co_index c = None" and fits: "coll_fits c" and data: "coll_snapshot_data c a = Some data"
    and m: "known_metric m"
  defines "c1 \<equiv> c\<lparr>co_config := (co_config c)\<lparr>cfg_metric := m\<rparr>\<rparr>"
  shows "coll_ok h c1 a" "coll_fits c1" "coll_view c1 a = coll_view c a"
    "coll_snapshot_data c1 a = Some (data\<lparr>sd_config := (sd_config data)\<lparr>cfg_metric := m\<rparr>\<rparr>)"
proof -
  have sc: "slot_components c1 = slot_components c"
    by (intro ext) (simp add: c1_def slot_components_def split: ptr.split option.split)
  have st: "coll_staged h c a {}" using ok by (simp add: coll_ok_def)
  have "slots_ok c1 a = slots_ok c a" unfolding slots_ok_def slot_ok_def sc by (simp add: c1_def)
  moreover have "index_matches h c1 a" using coll_stagedD(9) [OF st] none by (simp add: index_matches_def c1_def)
  ultimately show "coll_ok h c1 a" using coll_stagedD [OF st] unfolding coll_ok_def coll_staged_def by (simp add: c1_def)
  show "coll_fits c1" using fits m none by (simp add: coll_fits_def config_ok_def c1_def index_used_def)
  show "coll_view c1 a = coll_view c a" unfolding coll_view_def sc by (simp add: c1_def)
  have "snapshot_records c1 a = snapshot_records c a" unfolding snapshot_records_def sc by (simp add: c1_def)
  then show "coll_snapshot_data c1 a = Some (data\<lparr>sd_config := (sd_config data)\<lparr>cfg_metric := m\<rparr>\<rparr>)"
    using data none by (auto simp: coll_snapshot_data_def c1_def split: option.splits)
qed

lemma image_metric_byte:
  "image_file (data\<lparr>sd_config := (sd_config data)\<lparr>cfg_metric := m\<rparr>\<rparr>) = (image_file data)[20 := metric_u8 m]"
proof -
  have body: "image_body (data\<lparr>sd_config := (sd_config data)\<lparr>cfg_metric := m\<rparr>\<rparr>) = image_body data"
    by (simp add: image_body_def directory_part_def padding_def)
  have off: "vector_off (data\<lparr>sd_config := (sd_config data)\<lparr>cfg_metric := m\<rparr>\<rparr>) = vector_off data"
    "vector_len (data\<lparr>sd_config := (sd_config data)\<lparr>cfg_metric := m\<rparr>\<rparr>) = vector_len data"
    by (simp_all add: vector_off_def vector_len_def directory_part_def padding_def)
  have hdr: "image_header (data\<lparr>sd_config := (sd_config data)\<lparr>cfg_metric := m\<rparr>\<rparr>) = (image_header data)\<lparr>hd_metric := metric_u8 m\<rparr>"
    by (simp add: image_header_def off body)
  have "write_header (hd\<lparr>hd_metric := b\<rparr>) = (write_header hd)[20 := b]" for hd b
    by (simp add: write_header_bytes list_update_append length_kMagic)
  then show ?thesis by (simp add: image_file_def hdr body list_update_append kHeaderSize_def)
qed

text \<open>
  C36: the checksum does not cover the header.  Overwriting the metric byte of the snapshot of a
  collection without an index by another valid one loads without an error, and yields the same
  records under the other metric.
\<close>

theorem header_metric_unprotected:
  assumes "coll_ok h c a" "co_index c = None" "coll_fits c" "coll_snapshot_data c a = Some data" "length (encode data) < 2 ^ 64"
    and "known_metric m" "held_blocks a' tag = {}"
  shows "\<exists>c'. load_snapshot h True (Some (RegularFile ((encode data)[20 := metric_u8 m]) sync)) a' tag = Some (Inr c')
    \<and> co_config c' = (co_config c)\<lparr>cfg_metric := m\<rparr> \<and> coll_view c' a' = coll_view c a"
proof -
  note c1 = change_metric [OF assms(1-4,6)]
  let ?data = "data\<lparr>sd_config := (sd_config data)\<lparr>cfg_metric := m\<rparr>\<rparr>"
  have enc: "encode ?data = (encode data)[20 := metric_u8 m]"
    unfolding encode_length(1) [OF c1(1,2,4)] encode_length(1) [OF assms(1,3,4)] by (rule image_metric_byte)
  then have "length (encode ?data) < 2 ^ 64" using assms(5) by simp
  from load_saved [OF c1(1,2,4) this assms(7), of sync] show ?thesis unfolding enc c1(3) by auto
qed

theorem header_metric_unprotected_witness:
  "\<exists>c a data c'. demo_run = Some (Inr (), c, a) \<and> coll_snapshot_data c a = Some data \<and> cfg_metric (co_config c) = Euclidean
     \<and> load_snapshot plain_host True (Some (RegularFile ((encode data)[20 := 2]) True)) (new_allocator 256) (CollectionTag 9) = Some (Inr c')
     \<and> cfg_metric (co_config c') = DotProduct"
proof -
  obtain c a data where d: "demo_run = Some (Inr (), c, a)" "coll_ok plain_host c a" "coll_fits c" "co_index c = None"
    "coll_snapshot_data c a = Some data" "length (encode data) = 136" "co_config c = demo_config"
    by (rule demo_saved)
  have len: "length (encode data) < 2 ^ 64" using d(6) by simp
  have held: "held_blocks (new_allocator 256) (CollectionTag 9) = {}"
    by (simp add: held_blocks_def tag_live_def new_allocator_def Let_def)
  have m: "known_metric DotProduct" by simp
  obtain c' where "load_snapshot plain_host True (Some (RegularFile ((encode data)[20 := metric_u8 DotProduct]) True)) (new_allocator 256) (CollectionTag 9) = Some (Inr c')"
    "co_config c' = (co_config c)\<lparr>cfg_metric := DotProduct\<rparr>"
    using header_metric_unprotected [OF d(2,4,3,5) len m held, of True] by blast
  then show ?thesis using d(1,5,7) by (intro exI [of _ c] exI [of _ a] exI [of _ data] exI [of _ c']) (simp add: demo_config_def)
qed

end
