(* ===== verification/Engine_Steps.thy ===== *)
theory Engine_Steps
  imports Engine_Inv Snapshot_Claims
begin

text \<open>
  The engine and the file system as a state machine: every operation of a client is a step, in any
  order, and a crash in the middle of a save restarts the engine on the files as they are.  Every
  reachable state satisfies the invariant.
\<close>

section \<open>Steps of a collection\<close>

text \<open>
  The guards are the bounds of the 32-bit slot numbers of the indexes, and what the host must
  provide for an index or a query.
\<close>

inductive coll_step :: "host \<Rightarrow> collection \<Rightarrow> allocator \<Rightarrow> collection \<Rightarrow> allocator \<Rightarrow> bool" for h where
  step_insert: "coll_insert h c a rid v meta = Some (st, c', a') \<Longrightarrow> coll_room 1 c \<Longrightarrow> coll_step h c a c' a'"
| step_batch: "coll_insert_batch h c a rs = Some (st, c', a') \<Longrightarrow> coll_room (length rs) c \<Longrightarrow> coll_step h c a c' a'"
| step_remove: "coll_remove c a rid = (st, c', a') \<Longrightarrow> coll_step h c a c' a'"
| step_build: "coll_build_index h c a type params = Some (st, c') \<Longrightarrow>
    index_host_ok h type (cfg_dim (co_config c)) (cfg_metric (co_config c)) params \<Longrightarrow> coll_step h c a c' a"
| step_query: "coll_query h c a q k params = Some (r, c') \<Longrightarrow>
    nan_free h (cfg_metric (co_config c)) (co_dim c) \<Longrightarrow> coll_step h c a c' a"

lemma insert_step_ok:
  assumes "coll_insert h c a rid v meta = Some (st, c', a')" "coll_room 1 c" "alloc_inv a" "coll_ok h c a"
  shows "alloc_inv a' \<and> coll_ok h c' a' \<and> evolves c a c' a' \<and> index_used c' < 2 ^ 31"
proof (cases "check_record c rid v")
  case None
  then show ?thesis using coll_insert_valid [OF assms(3,4,2) None, of meta] assms(1,2) by (fastforce simp: coll_room_def)
next
  case (Some e)
  then show ?thesis using coll_insert_invalid [OF Some] assms by (simp add: coll_room_def)
qed

lemma batch_step_ok:
  assumes "coll_insert_batch h c a rs = Some (st, c', a')" "coll_room (length rs) c" "alloc_inv a" "coll_ok h c a"
  shows "alloc_inv a' \<and> coll_ok h c' a' \<and> evolves c a c' a' \<and> index_used c' < 2 ^ 31"
proof (cases "rs = [] \<or> kMaxBatchSize < length rs \<or> first_error c rs \<noteq> None")
  case True
  then have "c' = c \<and> a' = a" using assms(1) by (auto simp: coll_insert_batch_def split: if_splits)
  then show ?thesis using assms(2-4) by (simp add: coll_room_def)
next
  case False
  then have v: "rs \<noteq> []" "length rs \<le> kMaxBatchSize" "first_error c rs = None" by simp_all
  show ?thesis using coll_insert_batch_valid [OF assms(3,4,2) v] assms(1,2) by (fastforce simp: coll_room_def)
qed

lemma build_step_ok:
  assumes "coll_build_index h c a type params = Some (st, c')" "coll_ok h c a" "index_used c < 2 ^ 31"
    and "index_host_ok h type (cfg_dim (co_config c)) (cfg_metric (co_config c)) params"
  shows "coll_ok h c' a \<and> evolves c a c' a \<and> index_used c' < 2 ^ 31"
proof (cases "index_param_error type params (co_record_count c)")
  case None
  have "length (co_records c) < 2 ^ 31" using coll_stagedD(3) assms(2) unfolding coll_ok_def by blast
  then show ?thesis using coll_build_index_ok [OF assms(2) None assms(4)] assms(1) by fastforce
next
  case (Some e)
  then show ?thesis using coll_build_index_invalid [OF Some] assms by simp
qed

lemma query_step_ok:
  assumes "coll_query h c a q k params = Some (r, c')" "coll_ok h c a" "index_used c < 2 ^ 31"
    and "nan_free h (cfg_metric (co_config c)) (co_dim c)"
  shows "coll_ok h c' a \<and> evolves c a c' a \<and> index_used c' < 2 ^ 31"
proof (cases "\<not> k < 1 \<and> length q = co_dim c \<and> finite_vec q")
  case True
  then show ?thesis using coll_query_ok [OF assms(2,3) _ _ _ assms(4), of k q params] assms(1,3) by fastforce
next
  case False
  then have "c' = c" using assms(1) first_non_finite_length [of q] by (auto simp: coll_query_def split: if_splits)
  then show ?thesis using assms by simp
qed

lemma coll_step_ok:
  assumes "coll_step h c a c' a'" "alloc_inv a" "coll_ok h c a" "index_used c < 2 ^ 31"
  shows "alloc_inv a' \<and> coll_ok h c' a' \<and> evolves c a c' a' \<and> index_used c' < 2 ^ 31"
  using assms
proof (cases rule: coll_step.cases)
  case step_insert
  then show ?thesis using insert_step_ok assms by blast
next
  case step_batch
  then show ?thesis using batch_step_ok assms by blast
next
  case (step_remove rid st)
  obtain c1 a1 where r: "coll_remove c a rid = (if coll_view c a rid = None then Inl NotFound else Inr (), c1, a1)" "alloc_inv a1"
    "coll_ok h c1 a1" "evolves c a c1 a1" "index_used c1 = index_used c"
    using coll_remove_ok [OF assms(2,3), of rid] by (elim exE conjE)
  then have "c' = c1 \<and> a' = a1" using step_remove by simp
  then show ?thesis using r assms(4) by simp
next
  case step_build
  then show ?thesis using build_step_ok assms by blast
next
  case step_query
  then show ?thesis using query_step_ok assms by blast
qed


section \<open>Files\<close>

text \<open>What loading a file below 64 TiB may yield if only this program wrote it.\<close>

definition file_ok :: "host \<Rightarrow> u8 list \<Rightarrow> bool" where
  "file_ok h bs \<longleftrightarrow> (\<forall>a tag sync can_map. held_blocks a tag = {} \<longrightarrow>
     (\<exists>r. load_snapshot h can_map (Some (RegularFile bs sync)) a tag = Some r \<and>
        (case r of Inl e \<Rightarrow> e \<in> {SnapshotNotFound, UnsupportedVersion, Corruption}
         | Inr c \<Rightarrow> coll_ok h c a \<and> config_ok (co_config c) \<and> co_tag c = tag \<and> index_used c < 2 ^ 31)))"

definition files_ok :: "host \<Rightarrow> file_system \<Rightarrow> bool" where
  "files_ok h fs \<longleftrightarrow> (\<forall>p bs sync. fs p = Some (RegularFile bs sync) \<longrightarrow> file_ok h bs)"

definition can_save :: "collection \<Rightarrow> allocator \<Rightarrow> bool" where
  "can_save c a \<longleftrightarrow> coll_fits c \<and> (case coll_snapshot_data c a of None \<Rightarrow> False | Some data \<Rightarrow> length (encode data) < 2 ^ 64)"

lemma map_result_Inr: "map_sum g f x = Inr c \<Longrightarrow> \<exists>i. c = f i"
  by (cases x) auto

lemma load_tag:
  assumes "load_snapshot h can_map node a tag = Some (Inr c)"
  shows "co_tag c = tag"
proof -
  obtain bs sync hdr where "load_body h hdr bs a tag = Some (Inr c)"
    using assms by (auto simp: load_snapshot_def split: option.splits fs_node.splits if_splits)
  then show ?thesis
    by (auto simp: load_body_def new_collection_def Let_def dest!: map_result_Inr split: option.splits prod.splits if_splits)
qed

lemma load_not_mapped:
  "load_snapshot h False node a tag = Some (Inl SnapshotNotFound)"
  by (auto simp: load_snapshot_def split: option.split fs_node.split)

lemma file_ok_image:
  assumes "coll_ok h c a" "coll_fits c" "coll_snapshot_data c a = Some data" "length (encode data) < 2 ^ 64"
  shows "file_ok h (take n (encode data))"
  unfolding file_ok_def
proof (intro allI impI)
  fix a' :: allocator and tag sync can_map
  assume held: "held_blocks a' tag = {}"
  let ?P = "\<lambda>r. load_snapshot h can_map (Some (RegularFile (take n (encode data)) sync)) a' tag = Some r \<and>
      (case r of Inl e \<Rightarrow> e \<in> {SnapshotNotFound, UnsupportedVersion, Corruption}
       | Inr c \<Rightarrow> coll_ok h c a' \<and> config_ok (co_config c) \<and> co_tag c = tag \<and> index_used c < 2 ^ 31)"
  show "\<exists>r. ?P r"
  proof (cases "can_map")
    case False
    then show ?thesis by (simp add: load_not_mapped)
  next
    case mapped: True
    show ?thesis
    proof (cases "n < length (encode data)")
      case True
      then show ?thesis using load_truncated [OF assms True, of sync a' tag] mapped by simp
    next
      case False
      obtain c' where c': "load_snapshot h True (Some (RegularFile (encode data) sync)) a' tag = Some (Inr c')" "coll_ok h c' a'"
        "co_config c' = co_config c" "co_tag c' = tag" "coll_fits c'"
        using load_saved [OF assms held, of sync] by (elim exE conjE)
      have "config_ok (co_config c)" "index_used c' < 2 ^ 31" using assms(2) c'(5) by (simp_all add: coll_fits_def)
      then show ?thesis using c' False mapped by simp
    qed
  qed
qed

text \<open>Every file in a state that a save passes through is old, or a prefix of the image.\<close>

lemma take_min_length: "take (min (length xs) n) xs = take n xs"
  by (simp add: min_def)

lemma write_temp_files:
  assumes "write_temp_durably io temp img fs = (ok, ws)" "s \<in> set ws" "s p = Some (RegularFile bs sync)"
  shows "fs p = Some (RegularFile bs sync) \<or> bs = take (length bs) img"
  using assms by (auto simp: write_temp_durably_def remove_file_def Let_def take_min_length split: if_splits)

lemma save_files:
  assumes save: "save_image io temp path img fs = (st, states)" and s: "s \<in> set states" "s p = Some (RegularFile bs sync)"
  shows "(\<exists>p sync. fs p = Some (RegularFile bs sync)) \<or> bs = take (length bs) img"
proof -
  obtain ok ws where w: "write_temp_durably io temp img fs = (ok, ws)" by fastforce
  have old: ?thesis if "s' \<in> set ws" "s' q = Some (RegularFile bs y)" for s' q y
    using write_temp_files [OF w that] by blast
  have hd: "hd ws \<in> set ws" using write_temp_result(1) [OF w] by simp
  consider "s \<in> set ws" | "s = (hd ws)(locate temp := None)" | "s = (hd ws)(locate temp := None, locate path := hd ws (locate temp))"
    using save s(1) w by (auto simp: save_image_def atomic_rename_def remove_file_def split: if_splits bool.splits)
  then show ?thesis
  proof cases
    case 1
    then show ?thesis using old s(2) by blast
  next
    case 2
    then show ?thesis using old [OF hd] s(2) by (simp split: if_splits)
  next
    case 3
    then show ?thesis using old [OF hd] s(2) by (simp split: if_splits)
  qed
qed

lemma save_keeps_files:
  assumes "files_ok h fs" "coll_ok h c a" "can_save c a" "save_collection io now n c a path fs = Some (st, states)" "s \<in> set states"
  shows "files_ok h s"
proof -
  obtain data where d: "coll_fits c" "coll_snapshot_data c a = Some data" "length (encode data) < 2 ^ 64"
    using assms(3) by (auto simp: can_save_def split: option.splits)
  then have save: "save_image io (make_temp_path path now n) path (encode data) fs = (st, states)"
    using assms(4) by (simp add: save_collection_def)
  show ?thesis
    unfolding files_ok_def
  proof (intro allI impI)
    fix p bs sync assume "s p = Some (RegularFile bs sync)"
    from save_files [OF save assms(5) this] show "file_ok h bs"
    proof
      assume "bs = take (length bs) (encode data)"
      then show ?thesis using file_ok_image [OF assms(2) d, of "length bs"] by simp
    qed (use assms(1) in \<open>unfold files_ok_def, blast\<close>)
  qed
qed


section \<open>Steps of the engine\<close>

type_synonym world = "engine \<times> file_system"

inductive engine_step :: "host \<Rightarrow> world \<Rightarrow> world \<Rightarrow> bool" for h where
  step_create: "create_collection e name dm metric = (r, e') \<Longrightarrow> en_next_tag e \<noteq> -1 \<Longrightarrow> engine_step h (e, fs) (e', fs)"
| step_delete: "delete_collection injector e name = (st, e') \<Longrightarrow> engine_step h (e, fs) (e', fs)"
| step_use: "handle_get e handle = Some (name, c) \<Longrightarrow> coll_step h c (en_allocator e) c' a' \<Longrightarrow>
    engine_step h (e, fs) (put_collection e name c' a', fs)"
| step_save: "engine_save io now n e name path fs = Some (st, states) \<Longrightarrow>
    \<forall>c. find_coll e name = Some c \<longrightarrow> can_save c (en_allocator e) \<Longrightarrow> engine_step h (e, fs) (e, hd states)"
| step_crash: "engine_save io now n e name path fs = Some (st, states) \<Longrightarrow>
    \<forall>c. find_coll e name = Some c \<longrightarrow> can_save c (en_allocator e) \<Longrightarrow> s \<in> set states \<Longrightarrow>
    engine_step h (e, fs) (new_engine capacity, s)"
| step_load: "engine_load h can_map e path fs = Some (r, e') \<Longrightarrow> en_next_tag e \<noteq> -1 \<Longrightarrow> engine_step h (e, fs) (e', fs)"

abbreviation engine_reach :: "host \<Rightarrow> world \<Rightarrow> world \<Rightarrow> bool" where
  "engine_reach h \<equiv> rtranclp (engine_step h)"

definition world_ok :: "host \<Rightarrow> world \<Rightarrow> bool" where
  "world_ok h w \<longleftrightarrow> engine_ok h (fst w) \<and> files_ok h (snd w)"

lemma create_ok:
  assumes ok: "engine_ok h e" and n: "en_next_tag e \<noteq> -1"
    and run: "create_collection e name dm metric = (r, e')"
  shows "engine_ok h e'" "case r of
      Inl _ \<Rightarrow> e' = e
    | Inr _ \<Rightarrow> engine_view e' = (engine_view e)(name \<mapsto> (\<lparr>cfg_name = name, cfg_dim = dm, cfg_metric = metric\<rparr>, Map.empty))"
proof -
  have "engine_ok h e' \<and> (case r of Inl _ \<Rightarrow> e' = e
    | Inr _ \<Rightarrow> engine_view e' = (engine_view e)(name \<mapsto> (\<lparr>cfg_name = name, cfg_dim = dm, cfg_metric = metric\<rparr>, Map.empty)))"
  proof (cases "is_valid_name name \<and> is_valid_dimensionality dm \<and> is_valid_metric metric \<and> find_coll e name = None")
    case True
    let ?cfg = "\<lparr>cfg_name = name, cfg_dim = dm, cfg_metric = metric\<rparr>"
    let ?c = "new_collection ?cfg (CollectionTag (en_next_tag e))"
    have "known_metric metric" using True by (cases metric) simp_all
    then have cfg: "config_ok ?cfg" using True by (simp add: config_ok_def is_valid_name_def is_valid_dimensionality_def)
    have c: "co_tag ?c = CollectionTag (en_next_tag e)" "cfg_name (co_config ?c) = name" "config_ok (co_config ?c)" "index_used ?c < 2 ^ 31"
      using cfg by (simp_all add: new_collection_def index_used_def)
    note add = add_collection_ok [OF ok n _ c(1-3) new_collection_ok [OF fresh_tag(1) [OF ok]] c(4)]
    have e': "r = Inr (Some (CollectionTag (en_next_tag e)))"
      "e' = e\<lparr>en_collections := omap_emplace name ?c (en_collections e), en_next_tag := en_next_tag e + 1\<rparr>"
      using run True by (simp_all add: create_collection_def Let_def)
    have "co_config ?c = ?cfg" by (simp add: new_collection_def)
    then show ?thesis using add True unfolding e' by (simp add: new_collection_view)
  next
    case False
    then have "(\<exists>err. r = Inl err) \<and> e' = e" using run by (auto simp: create_collection_def Let_def split: if_splits)
    then show ?thesis using ok by auto
  qed
  then show "engine_ok h e'" "case r of Inl _ \<Rightarrow> e' = e
    | Inr _ \<Rightarrow> engine_view e' = (engine_view e)(name \<mapsto> (\<lparr>cfg_name = name, cfg_dim = dm, cfg_metric = metric\<rparr>, Map.empty))"
    by blast+
qed

text \<open>The defensive release of a tag that holds nothing.\<close>

lemma load_conflict_ok:
  assumes ok: "engine_ok h e" and n: "en_next_tag e \<noteq> -1"
  defines "e' \<equiv> e\<lparr>en_next_tag := en_next_tag e + 1, en_allocator := release_all (en_allocator e) (CollectionTag (en_next_tag e))\<rparr>"
  shows "engine_ok h e' \<and> engine_view e' = engine_view e"
proof -
  let ?t = "CollectionTag (en_next_tag e)" and ?e1 = "e\<lparr>en_next_tag := en_next_tag e + 1\<rparr>"
  let ?a = "release_all (en_allocator e) ?t"
  note ok1 = bump_ok [OF ok n]
  have all: "alloc_inv ?a" "\<And>t. held_blocks ?a t = held_blocks (en_allocator e) t"
    "\<And>p k. get_components ?a p k = get_components (en_allocator e) p k"
    using tagged.dispose_all_ok [OF engine_okD(1) [OF ok], of ?t] fresh_tag(1) [OF ok] by auto
  have kept: "coll_ok h c ?a \<and> coll_view c ?a = coll_view c (en_allocator e)" if "find_coll e name = Some c" for name c
    using coll_frame [OF member_okD(3) [OF engine_okD(3) [OF ok that]], of ?a] all(2,3) by simp
  have alloc: "en_allocator e' = ?a" "en_collections e' = en_collections e" "en_next_tag e' = en_next_tag e + 1"
    by (simp_all add: e'_def)
  have "member_ok h e' name c" if "find_coll e' name = Some c" for name c
    using engine_okD(3) [OF ok1(1), of name c] kept [of name c] that by (simp add: member_ok_def alloc)
  then have "engine_ok h e'"
    using engine_okD(2,4,5) [OF ok] all(1) unfolding engine_ok_def alloc all(2) by blast
  moreover have "engine_view e' = engine_view e"
  proof
    fix name
    show "engine_view e' name = engine_view e name"
      using kept [of name] by (cases "find_coll e name") (simp_all add: engine_view_def alloc)
  qed
  ultimately show ?thesis by blast
qed

lemma delete_step_ok:
  assumes "engine_ok h e" "delete_collection injector e name = (st, e')"
  shows "engine_ok h e'"
  using assms delete_ok [OF assms(1)] by (auto simp: delete_collection_def split: option.splits if_splits)

lemma load_ok:
  assumes ok: "engine_ok h e" and n: "en_next_tag e \<noteq> -1" and files: "files_ok h fs"
  shows "\<exists>r e'. engine_load h can_map e path fs = Some (r, e') \<and> engine_ok h e' \<and>
    (case r of
       Inl err \<Rightarrow> err \<in> {SnapshotNotFound, UnsupportedVersion, Corruption, NameConflict} \<and> engine_view e' = engine_view e
     | Inr _ \<Rightarrow> \<exists>c. load_snapshot h can_map (fs (locate path)) (en_allocator e) (CollectionTag (en_next_tag e)) = Some (Inr c)
         \<and> find_coll e (cfg_name (co_config c)) = None
         \<and> engine_view e' = (engine_view e)(cfg_name (co_config c) \<mapsto> (co_config c, coll_view c (en_allocator e))))"
proof -
  let ?tag = "CollectionTag (en_next_tag e)" and ?a = "en_allocator e"
  note held = fresh_tag(1) [OF ok] and bump = bump_ok [OF ok n]
  have "\<exists>r. load_snapshot h can_map (fs (locate path)) ?a ?tag = Some r \<and>
      (case r of Inl err \<Rightarrow> err \<in> {SnapshotNotFound, UnsupportedVersion, Corruption}
       | Inr c \<Rightarrow> coll_ok h c ?a \<and> config_ok (co_config c) \<and> co_tag c = ?tag \<and> index_used c < 2 ^ 31)"
  proof (cases "\<exists>bs sync. fs (locate path) = Some (RegularFile bs sync)")
    case True
    then obtain bs sync where f: "fs (locate path) = Some (RegularFile bs sync)" by blast
    then have "file_ok h bs" using files unfolding files_ok_def by blast
    then show ?thesis using held unfolding f file_ok_def by blast
  next
    case False
    then show ?thesis by (auto simp: load_snapshot_def split: option.splits fs_node.splits)
  qed
  then obtain r where r: "load_snapshot h can_map (fs (locate path)) ?a ?tag = Some r"
    "case r of Inl err \<Rightarrow> err \<in> {SnapshotNotFound, UnsupportedVersion, Corruption}
     | Inr c \<Rightarrow> coll_ok h c ?a \<and> config_ok (co_config c) \<and> co_tag c = ?tag \<and> index_used c < 2 ^ 31"
    by (elim exE conjE)
  show ?thesis
  proof (cases r)
    case (Inl err)
    moreover from this have "err \<in> {SnapshotNotFound, UnsupportedVersion, Corruption, NameConflict}" using r(2) by auto
    ultimately show ?thesis using r(1) bump by (simp add: engine_load_def)
  next
    case (Inr c)
    then have c: "coll_ok h c ?a" "config_ok (co_config c)" "co_tag c = ?tag" "index_used c < 2 ^ 31" using r(2) by simp_all
    show ?thesis
    proof (cases "find_coll e (cfg_name (co_config c))")
      case None
      note add = add_collection_ok [OF ok n None c(3) refl c(2,1,4)]
      have swap: "e\<lparr>en_next_tag := k, en_collections := m\<rparr> = e\<lparr>en_collections := m, en_next_tag := k\<rparr>" for k m by simp
      show ?thesis using r(1) Inr None add by (simp add: engine_load_def swap)
    next
      case (Some d)
      let ?e = "e\<lparr>en_next_tag := en_next_tag e + 1, en_allocator := release_all ?a ?tag\<rparr>"
      have "engine_ok h ?e \<and> engine_view ?e = engine_view e"
        by (rule load_conflict_ok [OF ok n])
      then show ?thesis using r(1) Inr Some by (simp add: engine_load_def)
    qed
  qed
qed


lemma handle_find:
  assumes "omap_ok (en_collections e)" "handle_get e handle = Some (name, c)"
  shows "find_coll e name = Some c" "handle = Some (co_tag c)"
proof -
  have "(name, c) \<in> set (en_collections e) \<and> handle = Some (co_tag c)"
    using assms(2) by (auto simp: handle_get_def find_Some_iff in_set_conv_nth split: option.splits)
  then show "find_coll e name = Some c" "handle = Some (co_tag c)"
    using omap_find_Some_iff [OF omap_ok_distinct [OF assms(1)]] by simp_all
qed

lemma get_handle:
  assumes ok: "engine_ok h e" and c: "find_coll e name = Some c" "handle = Some (co_tag c)"
  shows "handle_get e handle = Some (name, c)"
proof -
  let ?P = "\<lambda>(_ :: string, d). co_tag d = co_tag c"
  have mem: "(name, c) \<in> set (en_collections e)" using omap_find_SomeD [OF c(1)] .
  then have "find ?P (en_collections e) \<noteq> None" by (auto simp: find_None_iff)
  then obtain n d where f: "find ?P (en_collections e) = Some (n, d)" by auto
  then have "(n, d) \<in> set (en_collections e)" "co_tag d = co_tag c" by (auto simp: find_Some_iff in_set_conv_nth)
  then have "find_coll e n = Some d" using omap_find_Some_iff [OF omap_ok_distinct [OF engine_okD(2) [OF ok]]] by simp
  then have "n = name \<and> d = c" using engine_okD(4) [OF ok _ c(1) \<open>co_tag d = co_tag c\<close>] c(1) by auto
  then show ?thesis using f by (simp add: handle_get_def c(2))
qed

lemma save_step_ok:
  assumes "world_ok h (e, fs)" "engine_save io now n e name path fs = Some (st, states)"
    and "\<forall>c. find_coll e name = Some c \<longrightarrow> can_save c (en_allocator e)" "s \<in> set states"
  shows "files_ok h s"
proof (cases "find_coll e name")
  case None
  then have "states = [fs]" using assms(2) by (simp add: engine_save_def)
  then show ?thesis using assms(1,4) by (simp add: world_ok_def)
next
  case (Some c)
  then have "coll_ok h c (en_allocator e)" "can_save c (en_allocator e)" "files_ok h fs"
    using assms(1,3) member_okD(3) engine_okD(3) by (simp_all add: world_ok_def) blast
  then show ?thesis using save_keeps_files assms(2,4) Some by (simp add: engine_save_def)
qed

lemma save_image_nonempty: "save_image io temp path img fs = (st, states) \<Longrightarrow> states \<noteq> []"
  using write_temp_result(1) [of io temp img fs "fst (write_temp_durably io temp img fs)" "snd (write_temp_durably io temp img fs)"]
  by (auto simp: save_image_def atomic_rename_def remove_file_def split: prod.splits bool.splits if_splits)

lemma save_states_nonempty: "engine_save io now n e name path fs = Some (st, states) \<Longrightarrow> states \<noteq> []"
  using save_image_nonempty by (fastforce simp: engine_save_def save_collection_def split: option.splits)

lemma engine_step_ok:
  assumes step: "engine_step h w w'" and ok: "world_ok h w"
  shows "world_ok h w'"
  using step ok
proof (cases rule: engine_step.cases)
  case step_create
  then show ?thesis using create_ok(1) ok by (fastforce simp: world_ok_def)
next
  case step_delete
  then show ?thesis using delete_step_ok ok by (fastforce simp: world_ok_def)
next
  case (step_use e handle name c c' a' fs)
  have e: "engine_ok h e" using ok step_use(1) by (simp add: world_ok_def)
  have find: "find_coll e name = Some c" using handle_find(1) [OF engine_okD(2) [OF e] step_use(3)] .
  note m = member_okD [OF engine_okD(3) [OF e find]]
  have "alloc_inv a' \<and> coll_ok h c' a' \<and> evolves c (en_allocator e) c' a' \<and> index_used c' < 2 ^ 31"
    by (rule coll_step_ok [OF step_use(4) engine_okD(1) [OF e] m(3,4)])
  then have "engine_ok h (put_collection e name c' a')" using put_collection_ok(1) [OF e find] by blast
  then show ?thesis using ok step_use(1,2) by (simp add: world_ok_def)
next
  case (step_save io now n e name path fs st states)
  then have "files_ok h (hd states)" using save_step_ok [OF _ step_save(3,4)] save_states_nonempty ok by (metis hd_in_set)
  then show ?thesis using ok step_save(1,2) by (simp add: world_ok_def)
next
  case (step_crash io now n e name path fs st states s capacity)
  then have "files_ok h s" using save_step_ok [OF _ step_crash(3,4,5)] ok by simp
  then show ?thesis using new_engine_ok step_crash(2) by (simp add: world_ok_def)
next
  case (step_load can_map e path fs r e')
  then have w: "engine_ok h e" "files_ok h fs" using ok by (simp_all add: world_ok_def)
  then have "engine_ok h e'" using load_ok [OF w(1) step_load(4) w(2), of can_map path] step_load(3) by auto
  then show ?thesis using w(2) step_load(2) by (simp add: world_ok_def)
qed

lemma reachable_ok: "engine_reach h w0 w \<Longrightarrow> world_ok h w0 \<Longrightarrow> world_ok h w"
  by (induction rule: rtranclp_induct) (auto intro: engine_step_ok)

lemma start_ok: "world_ok h (new_engine capacity, Map.empty)"
  using new_engine_ok by (simp add: world_ok_def files_ok_def)

end
