(* ===== verification/Memory_Reuse.thy ===== *)
theory Memory_Reuse
  imports Collection_Claims
begin






section \<open>Removing makes room\<close>



end
