(* ===== verification/Engine_Claims.thy ===== *)
theory Engine_Claims
  imports Engine_Steps Memory_Reuse
begin

text \<open>
  The properties of the engine as a client sees them: they span the registry, the collections, the
  shared arena and the files.
\<close>

section \<open>An example\<close>

definition demo_engine :: engine where
  "demo_engine = snd (create_collection (new_engine 256) ''c'' 1 Euclidean)"

abbreviation demo_world :: "collection \<Rightarrow> allocator \<Rightarrow> world" where
  "demo_world c a \<equiv> (put_collection demo_engine ''c'' c a, Map.empty)"

lemma demo_engine_fields:
  "create_collection (new_engine 256) ''c'' 1 Euclidean = (Inr (Some (CollectionTag 1)), demo_engine)"
  "en_collections demo_engine = [(''c'', demo_empty)]" "en_allocator demo_engine = new_allocator 256" "en_next_tag demo_engine = 2"
  by (simp_all add: demo_engine_def create_collection_def new_engine_def is_valid_name_def is_valid_dimensionality_def
      omap_emplace_def demo_config_def Let_def)

lemma demo_reach:
  assumes "demo_run = Some (Inr (), c, a)"
  shows "engine_reach plain_host (new_engine 256, Map.empty) (demo_world c a)"
proof -
  have "engine_step plain_host (new_engine 256, Map.empty) (demo_engine, Map.empty)"
    using demo_engine_fields(1) by (rule step_create) (simp add: new_engine_def)
  moreover have "engine_step plain_host (demo_engine, Map.empty) (demo_world c a)"
  proof (rule step_use)
    show "handle_get demo_engine (Some (CollectionTag 1)) = Some (''c'', demo_empty)"
      by (simp add: handle_get_def demo_engine_fields new_collection_def)
    have "coll_room (length demo_batch) demo_empty" using demo_empty_ok(3) by (simp add: demo_batch_def numeral_2_eq_2)
    then show "coll_step plain_host demo_empty (en_allocator demo_engine) c a"
      using assms by (intro step_batch [where rs = demo_batch]) (simp_all add: demo_run_def demo_engine_fields)
  qed
  ultimately show ?thesis by (simp add: rtranclp.rtrancl_into_rtrancl)
qed


section \<open>Reachable states\<close>

lemma live_blocks_held: "live_blocks a = (\<Union>t. held_blocks a t)"
  by (auto simp: live_blocks_def held_blocks_def tag_live_def)

lemma engine_blocks:
  assumes ok: "engine_ok h e"
  shows "live_blocks (en_allocator e) = (\<Union>(name, c) \<in> set (en_collections e). coll_blocks c)"
proof -
  note dist = omap_ok_distinct [OF engine_okD(2) [OF ok]]
  have own: "held_blocks (en_allocator e) (co_tag c) = coll_blocks c" if "(name, c) \<in> set (en_collections e)" for name c
  proof -
    have "find_coll e name = Some c" using that omap_find_Some_iff [OF dist] by simp
    then have "coll_ok h c (en_allocator e)" using member_okD(3) engine_okD(3) [OF ok] by blast
    then show ?thesis using coll_stagedD(6) by (simp add: coll_ok_def)
  qed
  have "held_blocks (en_allocator e) t \<subseteq> (\<Union>(name, c) \<in> set (en_collections e). coll_blocks c)" for t
  proof (cases "held_blocks (en_allocator e) t = {}")
    case False
    then obtain name c where c: "find_coll e name = Some c" "co_tag c = t" using engine_okD(5) [OF ok] by blast
    then have m: "(name, c) \<in> set (en_collections e)" using omap_find_SomeD by metis
    then have "held_blocks (en_allocator e) t = coll_blocks c" using own [OF m] c(2) by simp
    then show ?thesis using m by auto
  qed simp
  moreover have "coll_blocks c \<subseteq> live_blocks (en_allocator e)" if "(name, c) \<in> set (en_collections e)" for name c
    using own [OF that] held_live by blast
  ultimately show ?thesis unfolding live_blocks_held by fastforce
qed



text \<open>
  C18: in every reachable state a handle obtained by name is not dangling, its collection has a
  valid configuration, and every lookup in it is defined and yields a finite vector of the
  configured length or \<open>NotFound\<close>.
\<close>

theorem engine_reads_typed:
  assumes "engine_reach h (new_engine capacity, Map.empty) (e, fs)" "get_collection e name = Inr handle"
  shows "\<exists>c. handle_valid handle \<and> handle_get e handle = Some (name, c) \<and> config_ok (co_config c) \<and> cfg_name (co_config c) = name
    \<and> (\<exists>r. coll_get c (en_allocator e) rid = Some r
         \<and> (case r of Inl err \<Rightarrow> err = NotFound
            | Inr v \<Rightarrow> length (view_vector v) = co_dim c \<and> list_all f32_isfinite (view_vector v)))"
proof -
  have ok: "engine_ok h e" using reachable_ok [OF assms(1) start_ok] by (simp add: world_ok_def)
  obtain c where c: "find_coll e name = Some c" "handle = Some (co_tag c)"
    using assms(2) by (auto simp: get_collection_def split: option.splits)
  note m = member_okD [OF engine_okD(3) [OF ok c(1)]]
  have get: "handle_get e handle = Some (name, c)" by (rule get_handle [OF ok c])
  have "\<exists>r. coll_get c (en_allocator e) rid = Some r
      \<and> (case r of Inl err \<Rightarrow> err = NotFound | Inr v \<Rightarrow> length (view_vector v) = co_dim c \<and> list_all f32_isfinite (view_vector v))"
  proof (cases "omap_find rid (co_records c)")
    case None
    then show ?thesis by (simp add: coll_get_def)
  next
    case (Some slot)
    obtain v where "slot_components c (en_allocator e) slot = Some v" "length v = co_dim c" "finite_vec v"
      using record_slot_ok [OF m(3) omap_find_SomeD [OF Some]] by metis
    then show ?thesis using Some by (simp add: coll_get_def list_all_iff)
  qed
  then show ?thesis using get m(1,2) c(2) by (simp add: handle_valid_def)
qed

theorem engine_reads_typed_witness:
  "\<exists>c a c' r. demo_run = Some (Inr (), c, a) \<and> handle_get (put_collection demo_engine ''c'' c a) (Some (CollectionTag 1)) = Some (''c'', c')
     \<and> coll_get c' a ''a'' = Some r"
proof -
  obtain c a where d: "demo_run = Some (Inr (), c, a)" by (rule demo_run_ok)
  have "map_option (\<lambda>(_, c, _). co_tag c) demo_run = Some (CollectionTag 1)" by code_simp
  then have "get_collection (put_collection demo_engine ''c'' c a) ''c'' = Inr (Some (CollectionTag 1))"
    by (simp add: get_collection_def put_collection_def demo_engine_fields d)
  moreover have "en_allocator (put_collection demo_engine ''c'' c a) = a" by (simp add: put_collection_def)
  ultimately show ?thesis using engine_reads_typed [OF demo_reach [OF d], of "''c''" "Some (CollectionTag 1)" "''a''"] d by auto
qed



section \<open>Creating and deleting\<close>

text \<open>
  C37: creating a collection reports the first of invalid name, invalid dimensionality, invalid
  metric and name conflict, and then changes nothing; otherwise it adds an empty collection of the
  given configuration under the name, which the handle and a lookup by name both reach.
\<close>

theorem engine_create_outcomes:
  assumes "engine_ok h e" "en_next_tag e \<noteq> -1"
  shows "\<exists>r e'. create_collection e name dm metric = (r, e') \<and> engine_ok h e'
    \<and> (case r of
         Inl err \<Rightarrow> e' = e \<and> err = (if name = [] \<or> 255 < length name then InvalidName
             else if dm = 0 \<or> 65536 < dm then InvalidDimensionality
             else if metric \<notin> {Euclidean, Cosine, DotProduct} then InvalidMetric else NameConflict)
           \<and> (err = NameConflict \<longrightarrow> engine_view e name \<noteq> None)
       | Inr handle \<Rightarrow> engine_view e name = None \<and> get_collection e' name = Inr handle
           \<and> engine_view e' = (engine_view e)(name \<mapsto> (\<lparr>cfg_name = name, cfg_dim = dm, cfg_metric = metric\<rparr>, Map.empty)))"
proof -
  obtain r e' where run: "create_collection e name dm metric = (r, e')" by fastforce
  note ok = create_ok [OF assms run]
  have name: "is_valid_name name \<longleftrightarrow> \<not> (name = [] \<or> 255 < length name)" by (auto simp: is_valid_name_def)
  have dim: "is_valid_dimensionality dm \<longleftrightarrow> \<not> (dm = 0 \<or> 65536 < dm)"
    using word_less_1 [of dm] unfolding is_valid_dimensionality_def not_less [symmetric] by blast
  have metric: "is_valid_metric metric \<longleftrightarrow> metric \<in> {Euclidean, Cosine, DotProduct}" by (cases metric) simp_all
  have view: "engine_view e name = None \<longleftrightarrow> find_coll e name = None" by (simp add: engine_view_def)
  note create = run [unfolded create_collection_def Let_def name dim metric not_not]
  show ?thesis
  proof (cases r)
    case (Inl err)
    then have "e' = e" using ok(2) by simp
    moreover have "err = (if name = [] \<or> 255 < length name then InvalidName
        else if dm = 0 \<or> 65536 < dm then InvalidDimensionality
        else if metric \<notin> {Euclidean, Cosine, DotProduct} then InvalidMetric else NameConflict)"
      using create Inl by (simp split: if_split_asm del: insert_iff)
    moreover have "err = NameConflict \<longrightarrow> engine_view e name \<noteq> None"
      using create Inl unfolding view by (auto split: if_split_asm simp del: insert_iff)
    ultimately show ?thesis using run ok(1) Inl by simp
  next
    case (Inr handle)
    then have "find_coll e name = None" "get_collection e' name = Inr handle"
      using create by (auto simp: get_collection_def omap_emplace_def omap_find_set new_collection_def simp del: insert_iff split: if_split_asm)
    then show ?thesis using run ok Inr view by simp
  qed
qed

theorem engine_create_outcomes_witness:
  "\<exists>h e'. create_collection (new_engine 256) ''c'' 1 Euclidean = (Inr h, e') \<and> get_collection e' ''c'' = Inr h
     \<and> engine_view e' ''c'' = Some (demo_config, Map.empty)"
proof -
  have n: "en_next_tag (new_engine 256) \<noteq> -1" by (simp add: new_engine_def)
  from engine_create_outcomes [OF new_engine_ok [of plain_host] n, of "''c''" 1 Euclidean] demo_engine_fields(1)
  show ?thesis by (auto simp: demo_config_def)
qed

lemma release_all_stats:
  assumes "alloc_inv a"
  shows "stats_of_tag (release_all a tag) tag = \<lparr>st_total_bytes = 0, st_live_blocks = 0\<rparr>"
proof -
  have "omap_ok (al_tag_bytes a)" "omap_ok (al_tag_blocks a)" using assms by (simp_all add: alloc_inv_def tags_ok_def)
  then show ?thesis using release_all_effect(5,6) [OF assms, of tag] by (simp add: stats_of_tag_count tag_count_erase)
qed

lemma live_after_release_all:
  assumes "alloc_inv a"
  shows "live_blocks (release_all a tag) = live_blocks a - held_blocks a tag"
proof -
  have "b \<notin> held_blocks a tag" if "b \<in> held_blocks a t" "t \<noteq> tag" for b t
    using held_disjoint [OF assms that(2)] that(1) by blast
  then show ?thesis unfolding live_blocks_held release_all_held [OF assms] by (auto split: if_splits) metis
qed

lemma dangling_handle:
  assumes ok: "engine_ok h e" and c: "find_coll e name = Some c" and e': "en_collections e' = omap_erase name (en_collections e)"
  shows "handle_get e' (Some (co_tag c)) = undefined_behaviour"
proof -
  have "co_tag d \<noteq> co_tag c" if "(n, d) \<in> set (en_collections e')" for n d
  proof -
    have "(n, d) \<in> set (en_collections e)" "n \<noteq> name"
      using that set_omap_erase [OF omap_ok_distinct [OF engine_okD(2) [OF ok]]] unfolding e' by auto
    then show ?thesis using engine_okD(4) [OF ok _ c] omap_find_Some_iff [OF omap_ok_distinct [OF engine_okD(2) [OF ok]]] by blast
  qed
  then show ?thesis by (force simp: handle_get_def find_None_iff)
qed

text \<open>
  C17: deleting a collection frees exactly the blocks of its records and brings the statistics of
  its tag to zero; the name is gone, every other collection keeps its configuration and records,
  and a failure injected before the deletion changes nothing.  A handle to the collection dangles
  from then on; the handles to the others stay valid.
\<close>

theorem engine_delete_frees:
  assumes "engine_ok h e" "find_coll e name = Some c"
  shows "delete_collection (Some f) e name = (if f name then (Inl DeletionFailed, e) else delete_collection None e name)
    \<and> (\<exists>e'. delete_collection None e name = (Inr (), e') \<and> engine_ok h e' \<and> engine_view e' = (engine_view e)(name := None)
        \<and> get_collection e' name = Inl NotFound \<and> fst (delete_collection None e' name) = Inl NotFound
        \<and> handle_get e' (Some (co_tag c)) = undefined_behaviour
        \<and> (\<forall>n d. n \<noteq> name \<longrightarrow> find_coll e n = Some d \<longrightarrow> handle_get e' (Some (co_tag d)) = Some (n, d))
        \<and> stats_of_tag (en_allocator e') (co_tag c) = \<lparr>st_total_bytes = 0, st_live_blocks = 0\<rparr>
        \<and> live_blocks (en_allocator e') = live_blocks (en_allocator e) - arena_blocks (co_records c))"
proof -
  let ?e = "e\<lparr>en_allocator := release_all (en_allocator e) (co_tag c), en_collections := omap_erase name (en_collections e)\<rparr>"
  note ok = delete_ok [OF assms] and inv = engine_okD(1) [OF assms(1)]
  have run: "delete_collection None e name = (Inr (), ?e)" using assms(2) by (simp add: delete_collection_def)
  have gone: "find_coll ?e name = None" using omap_find_erase [OF omap_ok_distinct [OF engine_okD(2) [OF assms(1)]]] by simp
  have "coll_ok h c (en_allocator e)" using member_okD(3) engine_okD(3) [OF assms] by blast
  then have "held_blocks (en_allocator e) (co_tag c) = arena_blocks (co_records c)" using coll_stagedD(6) by (simp add: coll_ok_def)
  then have "live_blocks (en_allocator ?e) = live_blocks (en_allocator e) - arena_blocks (co_records c)"
    using live_after_release_all [OF inv] by simp
  moreover have "stats_of_tag (en_allocator ?e) (co_tag c) = \<lparr>st_total_bytes = 0, st_live_blocks = 0\<rparr>"
    using release_all_stats [OF inv] by simp
  moreover have "get_collection ?e name = Inl NotFound" "fst (delete_collection None ?e name) = Inl NotFound"
    using gone by (simp_all add: get_collection_def delete_collection_def)
  moreover have "handle_get ?e (Some (co_tag c)) = undefined_behaviour" by (rule dangling_handle [OF assms]) simp
  moreover have "handle_get ?e (Some (co_tag d)) = Some (n, d)" if "n \<noteq> name" "find_coll e n = Some d" for n d
    by (rule get_handle [OF ok(1) _ refl])
      (use that omap_find_erase [OF omap_ok_distinct [OF engine_okD(2) [OF assms(1)]]] in simp)
  ultimately show ?thesis using run ok(1,2) assms(2) by (simp add: delete_collection_def)
qed

theorem engine_delete_frees_witness:
  "\<exists>c a e'. demo_run = Some (Inr (), c, a) \<and> delete_collection None (put_collection demo_engine ''c'' c a) ''c'' = (Inr (), e')
     \<and> live_blocks (en_allocator e') = {} \<and> engine_view e' ''c'' = None"
proof -
  obtain c a where d: "demo_run = Some (Inr (), c, a)" by (rule demo_run_ok)
  let ?e = "put_collection demo_engine ''c'' c a"
  have ok: "engine_ok plain_host ?e" using reachable_ok [OF demo_reach [OF d] start_ok] by (simp add: world_ok_def)
  have cs: "en_collections ?e = [(''c'', c)]" by (simp add: put_collection_def demo_engine_fields)
  then have find: "find_coll ?e ''c'' = Some c" by simp
  have live: "live_blocks (en_allocator ?e) = arena_blocks (co_records c)" using engine_blocks [OF ok] by (simp add: cs)
  from engine_delete_frees [OF ok find] obtain e' where "delete_collection None ?e ''c'' = (Inr (), e')"
    "engine_view e' = (engine_view ?e)(''c'' := None)" "live_blocks (en_allocator e') = live_blocks (en_allocator ?e) - arena_blocks (co_records c)"
    by blast
  then show ?thesis using d live by (intro exI [of _ c] exI [of _ a] exI [of _ e']) simp
qed


section \<open>Saving and loading through the engine\<close>



text \<open>
  C7: saving a collection, deleting it and loading the file brings the engine back to what it was:
  every collection has the configuration and the records it had.  Loading while the collection is
  still there is a name conflict and changes nothing.
\<close>

theorem engine_save_delete_load:
  assumes "engine_ok h e" "en_next_tag e \<noteq> -1" "find_coll e name = Some c" "can_save c (en_allocator e)"
    and "engine_save io now n e name path fs = Some (Inr (), states)" "delete_collection None e name = (Inr (), e1)"
  shows "(\<exists>handle e2. engine_load h True e1 path (hd states) = Some (Inr handle, e2) \<and> engine_ok h e2 \<and> engine_view e2 = engine_view e)
    \<and> (\<exists>e2. engine_load h True e path (hd states) = Some (Inl NameConflict, e2) \<and> engine_view e2 = engine_view e)"
proof -
  note m = member_okD [OF engine_okD(3) [OF assms(1,3)]]
  obtain data where d: "coll_fits c" "coll_snapshot_data c (en_allocator e) = Some data" "length (encode data) < 2 ^ 64"
    using assms(4) by (auto simp: can_save_def split: option.splits)
  have "save_image io (make_temp_path path now n) path (encode data) fs = (Inr (), states)"
    using assms(3,5) d(2) by (simp add: engine_save_def save_collection_def)
  then have stored: "hd states (locate path) = Some (RegularFile (encode data) True)" by (rule saved_target)
  have e1: "e1 = e\<lparr>en_allocator := release_all (en_allocator e) (co_tag c), en_collections := omap_erase name (en_collections e)\<rparr>"
    using assms(3,6) by (simp add: delete_collection_def)
  note del = delete_ok [OF assms(1,3), folded e1]
  have next1: "en_next_tag e1 \<noteq> -1" using assms(2) by (simp add: e1)
  obtain c' where c': "load_snapshot h True (hd states (locate path)) (en_allocator e1) (CollectionTag (en_next_tag e1)) = Some (Inr c')"
    "coll_ok h c' (en_allocator e1)" "co_config c' = co_config c" "co_tag c' = CollectionTag (en_next_tag e1)"
    "coll_view c' (en_allocator e1) = coll_view c (en_allocator e)" "coll_fits c'"
    using load_saved [OF m(3) d fresh_tag(1) [OF del(1)], of True] unfolding stored by (elim exE conjE)
  have gone: "find_coll e1 name = None" using omap_find_erase [OF omap_ok_distinct [OF engine_okD(2) [OF assms(1)]]] by (simp add: e1)
  have cfg: "cfg_name (co_config c') = name" "config_ok (co_config c')" "index_used c' < 2 ^ 31" using m(1,2) c'(3,6) by (simp_all add: coll_fits_def)
  let ?e2 = "e1\<lparr>en_collections := omap_emplace name c' (en_collections e1), en_next_tag := en_next_tag e1 + 1\<rparr>"
  note add = add_collection_ok [OF del(1) next1 gone c'(4) cfg(1,2) c'(2) cfg(3)]
  have "engine_load h True e1 path (hd states) = Some (Inr (Some (CollectionTag (en_next_tag e1))), ?e2)"
    using c'(1) gone by (simp add: engine_load_def Let_def cfg(1))
  moreover have "engine_view ?e2 = engine_view e"
    unfolding add(2) del(2) using assms(3) c'(3,5) by (intro ext) (simp add: engine_view_def)
  ultimately have first: "\<exists>handle e2. engine_load h True e1 path (hd states) = Some (Inr handle, e2) \<and> engine_ok h e2 \<and> engine_view e2 = engine_view e"
    using add(1) by blast
  obtain d' where d': "load_snapshot h True (hd states (locate path)) (en_allocator e) (CollectionTag (en_next_tag e)) = Some (Inr d')"
    "co_config d' = co_config c"
    using load_saved [OF m(3) d fresh_tag(1) [OF assms(1)], of True] unfolding stored by (elim exE conjE)
  have "engine_load h True e path (hd states) = Some (Inl NameConflict,
      e\<lparr>en_next_tag := en_next_tag e + 1, en_allocator := release_all (en_allocator e) (CollectionTag (en_next_tag e))\<rparr>)"
    using d' assms(3) m(1) by (simp add: engine_load_def Let_def)
  then show ?thesis using first load_conflict_ok [OF assms(1,2)] by blast
qed

theorem engine_save_delete_load_witness:
  "\<exists>c a states e1 handle e2. demo_run = Some (Inr (), c, a)
     \<and> engine_save good_disk 7 0 (put_collection demo_engine ''c'' c a) ''c'' ([], ''f'') Map.empty = Some (Inr (), states)
     \<and> delete_collection None (put_collection demo_engine ''c'' c a) ''c'' = (Inr (), e1) \<and> engine_view e1 ''c'' = None
     \<and> engine_load plain_host True e1 ([], ''f'') (hd states) = Some (Inr handle, e2)
     \<and> engine_view e2 ''c'' = Some (demo_config, batch_map demo_batch)"
proof -
  obtain c a data where d: "demo_run = Some (Inr (), c, a)" "coll_fits c" "coll_snapshot_data c a = Some data" "length (encode data) = 136"
    "coll_view c a = batch_map demo_batch" "co_config c = demo_config"
    by (rule demo_saved)
  let ?e = "put_collection demo_engine ''c'' c a"
  have ok: "engine_ok plain_host ?e" using reachable_ok [OF demo_reach [OF d(1)] start_ok] by (simp add: world_ok_def)
  have e: "en_collections ?e = [(''c'', c)]" "en_allocator ?e = a" "en_next_tag ?e \<noteq> -1" by (simp_all add: put_collection_def demo_engine_fields)
  have find: "find_coll ?e ''c'' = Some c" by (simp add: e)
  have can: "can_save c (en_allocator ?e)" using d(2,3,4) by (simp add: can_save_def e)
  define r where "r = save_image good_disk (make_temp_path ([], ''f'') 7 0) ([], ''f'') (encode data) Map.empty"
  have "fst r = Inr ()" unfolding r_def by (rule good_disk_saves [OF d(4)])
  then have save: "engine_save good_disk 7 0 ?e ''c'' ([], ''f'') Map.empty = Some (Inr (), snd r)"
    using d(3) find by (cases r) (simp add: engine_save_def save_collection_def e r_def [symmetric])
  obtain e1 where del: "delete_collection None ?e ''c'' = (Inr (), e1)" "engine_view e1 = (engine_view ?e)(''c'' := None)"
    using delete_ok(2) [OF ok find] find by (simp add: delete_collection_def)
  have "engine_view ?e ''c'' = Some (demo_config, batch_map demo_batch)" by (simp add: engine_view_def e d(5,6))
  then show ?thesis using engine_save_delete_load [OF ok e(3) find can save del(1)] d(1) save del by fastforce
qed

end
