(* ===== verification/Mmap.thy ===== *)
theory Mmap
  imports Prelude
begin

text \<open>
  \<open>mmap_region.cpp\<close>, the POSIX branch: the owner of a read-only file mapping.  The process's open
  descriptors and mappings are explicit; closing a descriptor or unmapping a range that the process
  does not hold is a fault (\<open>None\<close>).  The operating system's answers are the environment's choice.
\<close>

section \<open>The operating system\<close>

record process =
  os_open :: "nat set"
  os_maps :: "(nat \<times> nat) set"

definition close_fd :: "nat \<Rightarrow> process \<Rightarrow> process option" where
  "close_fd f os = (if f \<in> os_open os then Some (os\<lparr>os_open := os_open os - {f}\<rparr>) else None)"

definition munmap :: "nat \<Rightarrow> nat \<Rightarrow> process \<Rightarrow> process option" where
  "munmap addr n os = (if (addr, n) \<in> os_maps os then Some (os\<lparr>os_maps := os_maps os - {(addr, n)}\<rparr>) else None)"

text \<open>What \<open>open\<close>, \<open>fstat\<close> and \<open>mmap\<close> return; a failure is \<open>None\<close>.\<close>

record map_calls =
  mc_open :: "nat option"
  mc_stat :: "int option"
  mc_mmap :: "nat option"

text \<open>The documented behaviour of \<open>open\<close> and \<open>mmap\<close>: the descriptor and the range are new.\<close>

definition calls_ok :: "map_calls \<Rightarrow> process \<Rightarrow> bool" where
  "calls_ok mc os \<longleftrightarrow> (case mc_open mc of None \<Rightarrow> True | Some f \<Rightarrow> f \<notin> os_open os) \<and>
     (case mc_mmap mc of None \<Rightarrow> True | Some addr \<Rightarrow> addr \<notin> fst ` os_maps os)"


section \<open>The region\<close>

record mmap_region =
  mr_data :: "nat option"
  mr_size :: nat
  mr_fd :: int
  mr_map_addr :: "nat option"
  mr_map_len :: nat

definition empty_region :: mmap_region where
  "empty_region = \<lparr>mr_data = None, mr_size = 0, mr_fd = -1, mr_map_addr = None, mr_map_len = 0\<rparr>"

definition region_valid :: "mmap_region \<Rightarrow> bool" where "region_valid r \<longleftrightarrow> mr_data r \<noteq> None"

definition reset_region :: "process \<Rightarrow> mmap_region \<Rightarrow> (process \<times> mmap_region) option" where
  "reset_region os r =
     (let step1 = (case mr_map_addr r of
            Some addr \<Rightarrow>
              if mr_map_len r \<noteq> 0
              then map_option (\<lambda>os. (os, r\<lparr>mr_map_addr := None, mr_map_len := 0\<rparr>)) (munmap addr (mr_map_len r) os)
              else Some (os, r)
          | None \<Rightarrow> Some (os, r)) in
      case step1 of
        None \<Rightarrow> None
      | Some (os1, r1) \<Rightarrow>
          map_option (\<lambda>(os2, r2). (os2, r2\<lparr>mr_data := None, mr_size := 0\<rparr>))
            (if 0 \<le> mr_fd r1 then map_option (\<lambda>os2. (os2, r1\<lparr>mr_fd := -1\<rparr>)) (close_fd (nat (mr_fd r1)) os1) else Some (os1, r1)))"

text \<open>\<open>dst = std::move(src)\<close> for two different objects; the result is the process, the target and the source.\<close>

definition move_region :: "process \<Rightarrow> mmap_region \<Rightarrow> mmap_region \<Rightarrow> (process \<times> mmap_region \<times> mmap_region) option" where
  "move_region os dst src =
     map_option (\<lambda>(os', dst').
        (os', dst'\<lparr>mr_data := mr_data src, mr_size := mr_size src, mr_fd := mr_fd src, mr_map_addr := mr_map_addr src,
                   mr_map_len := mr_map_len src\<rparr>,
         src\<lparr>mr_fd := -1, mr_map_addr := None, mr_map_len := 0, mr_data := None, mr_size := 0\<rparr>))
       (reset_region os dst)"

text \<open>The inner \<open>None\<close> is the null pointer.\<close>

definition map_file_readonly :: "map_calls \<Rightarrow> process \<Rightarrow> (process \<times> mmap_region option) option" where
  "map_file_readonly mc os =
     (case mc_open mc of
        None \<Rightarrow> Some (os, None)
      | Some f \<Rightarrow>
          let os1 = os\<lparr>os_open := insert f (os_open os)\<rparr> in
          (case mc_stat mc of
             None \<Rightarrow> map_option (\<lambda>os. (os, None)) (close_fd f os1)
           | Some st_size \<Rightarrow>
               if st_size \<le> 0 then map_option (\<lambda>os. (os, None)) (close_fd f os1)
               else case mc_mmap mc of
                 None \<Rightarrow> map_option (\<lambda>os. (os, None)) (close_fd f os1)
               | Some addr \<Rightarrow>
                   Some (os1\<lparr>os_maps := insert (addr, nat st_size) (os_maps os1)\<rparr>,
                     Some (empty_region\<lparr>mr_fd := int f, mr_map_addr := Some addr, mr_map_len := nat st_size,
                                        mr_data := Some addr, mr_size := nat st_size\<rparr>))))"


section \<open>Programs over regions\<close>

text \<open>
  The live objects by their identity, with the operations a program has.  Assigning an object to itself
  changes nothing; a move construction is a default construction and an assignment.
\<close>

type_synonym regions = "nat \<Rightarrow> mmap_region option"

inductive region_step :: "process \<times> regions \<Rightarrow> process \<times> regions \<Rightarrow> bool" where
  region_new: "objs o1 = None \<Longrightarrow> region_step (os, objs) (os, objs(o1 \<mapsto> empty_region))"
| region_map: "calls_ok mc os \<Longrightarrow> objs o1 = None \<Longrightarrow> map_file_readonly mc os = Some (os', Some r) \<Longrightarrow>
    region_step (os, objs) (os', objs(o1 \<mapsto> r))"
| region_null: "calls_ok mc os \<Longrightarrow> map_file_readonly mc os = Some (os', None) \<Longrightarrow> region_step (os, objs) (os', objs)"
| region_move: "o1 \<noteq> o2 \<Longrightarrow> objs o1 = Some dst \<Longrightarrow> objs o2 = Some src \<Longrightarrow> move_region os dst src = Some (os', dst', src') \<Longrightarrow>
    region_step (os, objs) (os', objs(o1 \<mapsto> dst', o2 \<mapsto> src'))"
| region_self: "objs o1 = Some r \<Longrightarrow> region_step (os, objs) (os, objs)"
| region_destroy: "objs o1 = Some r \<Longrightarrow> reset_region os r = Some (os', r') \<Longrightarrow> region_step (os, objs) (os', objs(o1 := None))"

text \<open>What a region holds.\<close>

definition region_fds :: "mmap_region \<Rightarrow> nat set" where
  "region_fds r = (if 0 \<le> mr_fd r then {nat (mr_fd r)} else {})"

definition region_maps :: "mmap_region \<Rightarrow> (nat \<times> nat) set" where
  "region_maps r = (case mr_map_addr r of None \<Rightarrow> {} | Some addr \<Rightarrow> {(addr, mr_map_len r)})"

definition region_ok :: "mmap_region \<Rightarrow> bool" where
  "region_ok r \<longleftrightarrow> r = empty_region \<or>
     (0 \<le> mr_fd r \<and> mr_map_addr r \<noteq> None \<and> 0 < mr_map_len r \<and> mr_data r = mr_map_addr r \<and> mr_size r = mr_map_len r)"

text \<open>Exclusive ownership: every resource of \<open>S\<close> has one owner.\<close>

definition owns :: "(nat \<Rightarrow> 'r set) \<Rightarrow> 'r set \<Rightarrow> bool" where
  "owns f S \<longleftrightarrow> (\<forall>o1 o2. o1 \<noteq> o2 \<longrightarrow> f o1 \<inter> f o2 = {}) \<and> S = (\<Union>x. f x)"

definition held_by :: "(mmap_region \<Rightarrow> 'r set) \<Rightarrow> regions \<Rightarrow> nat \<Rightarrow> 'r set" where
  "held_by res objs x = (case objs x of None \<Rightarrow> {} | Some r \<Rightarrow> res r)"

definition regions_ok :: "process \<Rightarrow> regions \<Rightarrow> bool" where
  "regions_ok os objs \<longleftrightarrow> (\<forall>x r. objs x = Some r \<longrightarrow> region_ok r) \<and>
     owns (held_by region_fds objs) (os_open os) \<and> owns (held_by region_maps objs) (os_maps os)"

lemma owns_empty: "owns (\<lambda>_. {}) {}"
  by (simp add: owns_def)

lemma owns_sub: "owns f S \<Longrightarrow> f x \<subseteq> S"
  by (auto simp: owns_def)

lemma owns_add: "owns f S \<Longrightarrow> f x = {} \<Longrightarrow> X \<inter> S = {} \<Longrightarrow> owns (f(x := X)) (S \<union> X)"
  unfolding owns_def by (intro conjI allI impI; (auto split: if_splits; fail)?)

lemma owns_delete: "owns f S \<Longrightarrow> owns (f(x := {})) (S - f x)"
  unfolding owns_def by (intro conjI allI impI) (auto split: if_splits)

lemma owns_move:
  assumes "owns f S" "x \<noteq> y"
  shows "owns (f(x := f y, y := {})) (S - f x)"
proof -
  have d: "f a \<inter> f b = {}" if "a \<noteq> b" for a b using assms(1) that by (simp add: owns_def)
  have S: "S = (\<Union>z. f z)" using assms(1) by (simp add: owns_def)
  have "S - f x = (\<Union>z. (f(x := f y, y := {})) z)"
  proof (intro set_eqI iffI)
    fix r assume "r \<in> S - f x"
    then obtain z where "r \<in> f z" "z \<noteq> x" unfolding S by auto
    then have "r \<in> (f(x := f y, y := {})) (if z = y then x else z)" using assms(2) by (cases "z = y") simp_all
    then show "r \<in> (\<Union>z. (f(x := f y, y := {})) z)" by blast
  next
    fix r assume "r \<in> (\<Union>z. (f(x := f y, y := {})) z)"
    then obtain z where "r \<in> f z" "z \<noteq> x" using assms(2) by (auto split: if_splits)
    then show "r \<in> S - f x" using d [of z x] unfolding S by blast
  qed
  then show ?thesis using d assms(2) by (simp add: owns_def)
qed

lemma held_by_upd: "held_by res (objs(x \<mapsto> r)) = (held_by res objs)(x := res r)" "held_by res (objs(x := None)) = (held_by res objs)(x := {})"
  by (rule ext, simp add: held_by_def)+

lemma held_by_empty: "held_by res Map.empty = (\<lambda>_. {})"
  by (rule ext) (simp add: held_by_def)

lemma held_by_at: "objs x = None \<Longrightarrow> held_by res objs x = {}" "objs x = Some r \<Longrightarrow> held_by res objs x = res r"
  by (simp_all add: held_by_def)

lemma empty_region_holds [simp]: "region_fds empty_region = {}" "region_maps empty_region = {}" "region_ok empty_region"
  by (simp_all add: region_fds_def region_maps_def region_ok_def empty_region_def)

lemma reset_region_ok:
  assumes "region_ok r" "region_fds r \<subseteq> os_open os" "region_maps r \<subseteq> os_maps os"
  shows "reset_region os r = Some (os\<lparr>os_open := os_open os - region_fds r, os_maps := os_maps os - region_maps r\<rparr>, empty_region)"
proof (cases "r = empty_region")
  case True
  then show ?thesis by (simp add: reset_region_def region_fds_def region_maps_def) (simp add: empty_region_def)
next
  case False
  then obtain addr where r: "0 \<le> mr_fd r" "mr_map_addr r = Some addr" "0 < mr_map_len r"
    using assms(1) by (auto simp: region_ok_def)
  then have "nat (mr_fd r) \<in> os_open os" "(addr, mr_map_len r) \<in> os_maps os" using assms(2,3) by (simp_all add: region_fds_def region_maps_def)
  then show ?thesis
    using r by (cases r) (simp add: reset_region_def munmap_def close_fd_def region_fds_def region_maps_def empty_region_def)
qed

lemma map_file_ok:
  assumes calls: "calls_ok mc os" and run: "map_file_readonly mc os = Some (os', r)"
  shows "case r of None \<Rightarrow> os' = os
    | Some r \<Rightarrow> region_ok r \<and> os_open os' = os_open os \<union> region_fds r \<and> os_maps os' = os_maps os \<union> region_maps r
        \<and> region_fds r \<inter> os_open os = {} \<and> region_maps r \<inter> os_maps os = {}"
proof (cases "mc_open mc")
  case None
  then show ?thesis using run by (simp add: map_file_readonly_def split: option.split)
next
  case (Some f)
  have undo: "close_fd f (os\<lparr>os_open := insert f (os_open os)\<rparr>) = Some os"
    using calls Some by (cases os) (simp add: close_fd_def calls_ok_def)
  show ?thesis
  proof (cases "\<exists>n addr. mc_stat mc = Some n \<and> 0 < n \<and> mc_mmap mc = Some addr")
    case True
    then obtain n addr where n: "mc_stat mc = Some n" "0 < n" "mc_mmap mc = Some addr" by blast
    have "f \<notin> os_open os" "addr \<notin> fst ` os_maps os" using calls Some n(3) by (simp_all add: calls_ok_def)
    then have "(addr, nat n) \<notin> os_maps os" by force
    then show ?thesis
      using run Some n \<open>f \<notin> os_open os\<close>
      by (auto simp: map_file_readonly_def Let_def region_ok_def region_fds_def region_maps_def empty_region_def)
  next
    case False
    then have "map_file_readonly mc os = Some (os, None)"
      using undo Some by (auto simp: map_file_readonly_def Let_def not_le split: option.split)
    then show ?thesis using run by simp
  qed
qed

lemma owned:
  assumes "regions_ok os objs" "objs x = Some r"
  shows "region_ok r" "region_fds r \<subseteq> os_open os" "region_maps r \<subseteq> os_maps os"
  using assms owns_sub [of "held_by region_fds objs" _ x] owns_sub [of "held_by region_maps objs" _ x]
  by (simp_all add: regions_ok_def held_by_at)

lemma move_region_ok:
  assumes "regions_ok os objs" "objs x = Some dst" "objs y = Some src"
  shows "move_region os dst src =
    Some (os\<lparr>os_open := os_open os - region_fds dst, os_maps := os_maps os - region_maps dst\<rparr>, src, empty_region)"
  using reset_region_ok [OF owned [OF assms(1,2)]] by (simp add: move_region_def empty_region_def)

lemma region_step_ok:
  assumes "region_step w w'" "regions_ok (fst w) (snd w)"
  shows "regions_ok (fst w') (snd w')"
  using assms
proof (cases rule: region_step.cases)
  case (region_new objs o1 os)
  have ok: "regions_ok os objs" using assms(2) region_new(1) by simp
  then have "owns (held_by region_fds (objs(o1 \<mapsto> empty_region))) (os_open os)" "owns (held_by region_maps (objs(o1 \<mapsto> empty_region))) (os_maps os)"
    using owns_add [of "held_by region_fds objs" "os_open os" o1 "{}"] owns_add [of "held_by region_maps objs" "os_maps os" o1 "{}"] region_new(3)
    by (simp_all add: regions_ok_def held_by_upd held_by_at)
  then show ?thesis using ok region_new(2) by (simp add: regions_ok_def)
next
  case (region_map mc os objs o1 os' r)
  note m = map_file_ok [OF region_map(3,5), simplified]
  have ok: "regions_ok os objs" using assms(2) region_map(1) by simp
  have "owns (held_by region_fds (objs(o1 \<mapsto> r))) (os_open os')" "owns (held_by region_maps (objs(o1 \<mapsto> r))) (os_maps os')"
    using m ok owns_add [of "held_by region_fds objs" "os_open os" o1 "region_fds r"]
      owns_add [of "held_by region_maps objs" "os_maps os" o1 "region_maps r"] region_map(4)
    by (simp_all add: held_by_upd held_by_at regions_ok_def)
  then show ?thesis using m ok region_map(2) by (simp add: regions_ok_def)
next
  case (region_null mc os os' objs)
  then show ?thesis using map_file_ok [OF region_null(3,4)] assms(2) by simp
next
  case (region_move o1 o2 objs dst src os os' dst' src')
  have ok: "regions_ok os objs" using assms(2) region_move(1) by simp
  have r: "os' = os\<lparr>os_open := os_open os - region_fds dst, os_maps := os_maps os - region_maps dst\<rparr>" "dst' = src" "src' = empty_region"
    using move_region_ok [OF ok region_move(4,5)] region_move(6) by simp_all
  have "owns (held_by region_fds (objs(o1 \<mapsto> src, o2 \<mapsto> empty_region))) (os_open os - region_fds dst)"
    "owns (held_by region_maps (objs(o1 \<mapsto> src, o2 \<mapsto> empty_region))) (os_maps os - region_maps dst)"
    using ok owns_move [OF _ region_move(3), of "held_by region_fds objs" "os_open os"]
      owns_move [OF _ region_move(3), of "held_by region_maps objs" "os_maps os"]
    by (simp_all add: held_by_upd held_by_at(2) [where objs = objs and x = o1] held_by_at(2) [where objs = objs and x = o2] region_move(4,5) regions_ok_def)
  then show ?thesis using ok owned(1) [OF ok region_move(5)] region_move(2) r by (simp add: regions_ok_def)
next
  case (region_self objs o1 r os)
  then show ?thesis using assms(2) by simp
next
  case (region_destroy objs o1 r os os' r')
  have ok: "regions_ok os objs" using assms(2) region_destroy(1) by simp
  have os': "os' = os\<lparr>os_open := os_open os - region_fds r, os_maps := os_maps os - region_maps r\<rparr>"
    using reset_region_ok [OF owned [OF ok region_destroy(3)]] region_destroy(4) by simp
  have "owns (held_by region_fds (objs(o1 := None))) (os_open os - region_fds r)"
    "owns (held_by region_maps (objs(o1 := None))) (os_maps os - region_maps r)"
    using ok owns_delete [of "held_by region_fds objs" "os_open os" o1] owns_delete [of "held_by region_maps objs" "os_maps os" o1]
    by (simp_all add: held_by_upd held_by_at(2) [where objs = objs and x = o1] region_destroy(3) regions_ok_def)
  then show ?thesis using ok region_destroy(2) os' by (simp add: regions_ok_def)
qed

text \<open>
  C38: mappings are owned exclusively and never leak.  Starting from nothing, whatever the operating
  system answers, after any sequence of default constructions, mappings, moves and destructions the
  open descriptors and the mapped ranges are exactly those of the live regions, no two regions
  share one, and releasing or overwriting a region never closes or unmaps what is not held.
\<close>

theorem mmap_regions_own:
  assumes "rtranclp region_step (\<lparr>os_open = {}, os_maps = {}\<rparr>, Map.empty) (os, objs)" "objs x = Some r"
  shows "os_open os = (\<Union>z \<in> dom objs. region_fds (the (objs z))) \<and> os_maps os = (\<Union>z \<in> dom objs. region_maps (the (objs z)))
    \<and> (objs y = Some r' \<longrightarrow> y \<noteq> x \<longrightarrow> region_fds r \<inter> region_fds r' = {} \<and> region_maps r \<inter> region_maps r' = {}
         \<and> move_region os r r' \<noteq> None)
    \<and> map_option snd (reset_region os r) = Some empty_region
    \<and> (region_valid r \<longrightarrow> mr_size r = mr_map_len r \<and> mr_data r = mr_map_addr r \<and> 0 < mr_size r)"
proof -
  have ok: "regions_ok os objs"
    using assms(1)
  proof (induction "(os, objs)" arbitrary: os objs rule: rtranclp_induct)
    case base
    show ?case by (simp add: regions_ok_def held_by_empty owns_empty)
  next
    case (step w)
    then show ?case using region_step_ok [OF step.hyps(2)] by (cases w) simp
  qed
  have union: "S = (\<Union>z \<in> dom objs. res (the (objs z)))" if "owns (held_by res objs) S" for S and res :: "mmap_region \<Rightarrow> 'z set"
    using that unfolding owns_def held_by_def by (fastforce split: option.splits)
  have apart: "res r \<inter> res r' = {}" if "owns (held_by res objs) S" "objs y = Some r'" "y \<noteq> x" for S and res :: "mmap_region \<Rightarrow> 'z set"
    using that(1,3) unfolding owns_def by (metis held_by_at(2) assms(2) that(2))
  have o: "owns (held_by region_fds objs) (os_open os)" "owns (held_by region_maps objs) (os_maps os)" using ok by (simp_all add: regions_ok_def)
  have valid: "region_valid r \<longrightarrow> mr_size r = mr_map_len r \<and> mr_data r = mr_map_addr r \<and> 0 < mr_size r"
    using owned(1) [OF ok assms(2)] by (auto simp: region_ok_def region_valid_def empty_region_def)
  show ?thesis
    using union [OF o(1)] union [OF o(2)] apart [OF o(1)] apart [OF o(2)] valid reset_region_ok [OF owned [OF ok assms(2)]]
      move_region_ok [OF ok assms(2)]
    by auto
qed

lemma mmap_regions_own_witness:
  fixes dst src r
  defines "dst \<equiv> \<lparr>mr_data = Some 4096, mr_size = 100, mr_fd = 3, mr_map_addr = Some 4096, mr_map_len = 100\<rparr>"
    and "src \<equiv> \<lparr>mr_data = Some 8192, mr_size = 64, mr_fd = 4, mr_map_addr = Some 8192, mr_map_len = 64\<rparr>"
  shows "region_valid src \<and> map_option snd (reset_region \<lparr>os_open = {4}, os_maps = {(8192, 64)}\<rparr> src) = Some empty_region
    \<and> {4} = (\<Union>z \<in> dom [0 \<mapsto> src, Suc 0 \<mapsto> empty_region]. region_fds (the ([0 \<mapsto> src, Suc 0 \<mapsto> empty_region] z)))"
proof -
  let ?w0 = "(\<lparr>os_open = {}, os_maps = {}\<rparr>, Map.empty) :: process \<times> regions"
  let ?w1 = "(\<lparr>os_open = {3}, os_maps = {(4096, 100)}\<rparr>, [0 \<mapsto> dst]) :: process \<times> regions"
  let ?w2 = "(\<lparr>os_open = {3, 4}, os_maps = {(4096, 100), (8192, 64)}\<rparr>, [0 \<mapsto> dst, Suc 0 \<mapsto> src]) :: process \<times> regions"
  let ?w3 = "(\<lparr>os_open = {4}, os_maps = {(8192, 64)}\<rparr>, [0 \<mapsto> src, Suc 0 \<mapsto> empty_region]) :: process \<times> regions"
  have 1: "region_step ?w0 ?w1"
    by (rule region_map [where mc = "\<lparr>mc_open = Some 3, mc_stat = Some 100, mc_mmap = Some 4096\<rparr>"])
      (simp_all add: calls_ok_def map_file_readonly_def dst_def empty_region_def)
  have 2: "region_step ?w1 ?w2"
    by (rule region_map [where mc = "\<lparr>mc_open = Some 4, mc_stat = Some 64, mc_mmap = Some 8192\<rparr>"])
      (auto simp: calls_ok_def map_file_readonly_def src_def empty_region_def)
  have "[0 \<mapsto> src, Suc 0 \<mapsto> empty_region] = [0 \<mapsto> dst, Suc 0 \<mapsto> src](0 \<mapsto> src, Suc 0 \<mapsto> empty_region)" by (rule ext) simp
  moreover have "move_region (fst ?w2) dst src = Some (fst ?w3, src, empty_region)"
    by (auto simp: move_region_def reset_region_def munmap_def close_fd_def src_def dst_def empty_region_def)
  ultimately have 3: "region_step ?w2 ?w3"
    using region_step.region_move [of 0 "Suc 0" "snd ?w2" dst src "fst ?w2" "fst ?w3" src empty_region] by simp
  have reached: "rtranclp region_step ?w0 ?w3"
    by (rule rtranclp.rtrancl_into_rtrancl [OF rtranclp.rtrancl_into_rtrancl [OF r_into_rtranclp [of region_step, OF 1] 2] 3])
  have live: "[0 \<mapsto> src, Suc 0 \<mapsto> empty_region] 0 = Some src" by simp
  note claim = mmap_regions_own [OF reached live, unfolded process.simps, where y = "Suc 0" and r' = empty_region]
  have "region_valid src" by (simp add: region_valid_def src_def)
  then show ?thesis using claim by (elim conjE) (intro conjI; assumption)
qed

end
