(* ===== verification/Py_Bindings.thy ===== *)
theory Py_Bindings
  imports Engine Collection_Claims
begin

text \<open>
  \<open>module.cpp\<close>: the Python face of the engine.  Python objects are an arbitrary type with the
  interpreter's C API as a record of functions on it; the model covers the conversions the bindings
  perform, the order of their checks, and the calls into the core.  A Python call raises or returns.
\<close>

section \<open>The interpreter\<close>

text \<open>
  \<open>None\<close> is a call that fails with an exception set, or a cast that is refused.  An iteration is the
  list of items it yields, and whether it then ends by an exception.
\<close>

record 'o py_api =
  py_is_none :: "'o \<Rightarrow> bool"
  py_complex_check :: "'o \<Rightarrow> bool"
  py_number_check :: "'o \<Rightarrow> bool"
  py_bool_check :: "'o \<Rightarrow> bool"
  py_long_check :: "'o \<Rightarrow> bool"
  py_float_check :: "'o \<Rightarrow> bool"
  py_unicode_check :: "'o \<Rightarrow> bool"
  py_bytes_check :: "'o \<Rightarrow> bool"
  py_dict_check :: "'o \<Rightarrow> bool"
  py_sequence_check :: "'o \<Rightarrow> bool"
  py_iter_check :: "'o \<Rightarrow> bool"
  py_has_iter :: "'o \<Rightarrow> bool"
  py_sequence_size :: "'o \<Rightarrow> int"
  py_get_item :: "'o \<Rightarrow> nat \<Rightarrow> 'o option"
  py_dict_items :: "'o \<Rightarrow> ('o \<times> 'o) list"
  py_iterate :: "'o \<Rightarrow> ('o list \<times> bool) option"
  py_as_double :: "'o \<Rightarrow> f64 option"
  cast_string :: "'o \<Rightarrow> string option"
  cast_bool :: "'o \<Rightarrow> bool option"
  cast_double :: "'o \<Rightarrow> f64 option"
  cast_int64 :: "'o \<Rightarrow> 64 word option"
  cast_uint32 :: "'o \<Rightarrow> u32 option"
  cast_uint64 :: "'o \<Rightarrow> u64 option"


section \<open>Exceptions\<close>

datatype type_error =
    VectorNotSequence | ElementNotNumber nat
  | KeyNotString | BadMetadataValue string | MetadataNotDict
  | RecordsNotIterable | RecordNotTuple nat | RecordFieldCount nat | RecordIdNotString nat | RecordMetadataNotDict nat

text \<open>A core error, a \<open>TypeError\<close>, an exception the interpreter had set, or a refused cast.\<close>

datatype py_error = CoreError error_category | TypeError type_error | PendingError | CastError

type_synonym 'a py_result = "py_error + 'a"

fun throw_if_error :: "'a result \<Rightarrow> 'a py_result" where
  "throw_if_error (Inl category) = Inl (CoreError category)"
| "throw_if_error (Inr x) = Inr x"

text \<open>The exception type of a category, with the builtin it also derives from.\<close>

fun exception_type :: "error_category \<Rightarrow> string \<times> string option" where
  "exception_type NameConflict = (''NameConflictError'', None)"
| "exception_type InvalidName = (''InvalidNameError'', Some ''ValueError'')"
| "exception_type InvalidDimensionality = (''InvalidDimensionalityError'', None)"
| "exception_type InvalidMetric = (''InvalidMetricError'', None)"
| "exception_type DeletionFailed = (''DeletionFailedError'', None)"
| "exception_type NotFound = (''NotFoundError'', Some ''KeyError'')"
| "exception_type DimensionMismatch = (''DimensionMismatchError'', None)"
| "exception_type InvalidValue = (''InvalidValueError'', None)"
| "exception_type InvalidIdentifier = (''InvalidIdentifierError'', None)"
| "exception_type InvalidParameter = (''InvalidParameterError'', None)"
| "exception_type InvalidArgument = (''InvalidArgumentError'', None)"
| "exception_type UndefinedDistance = (''UndefinedDistanceError'', None)"
| "exception_type AllocationFailure = (''AllocationFailureError'', Some ''MemoryError'')"
| "exception_type WriteFailure = (''WriteFailureError'', Some ''OSError'')"
| "exception_type SnapshotNotFound = (''SnapshotNotFoundError'', Some ''FileNotFoundError'')"
| "exception_type UnsupportedVersion = (''UnsupportedVersionError'', None)"
| "exception_type Corruption = (''CorruptionError'', None)"

lemma exception_type_inj: "fst (exception_type e) = fst (exception_type e') \<Longrightarrow> e = e'"
  by (cases e; cases e'; simp)

fun and_then :: "'a py_result \<Rightarrow> ('a \<Rightarrow> 'b py_result) \<Rightarrow> 'b py_result" where
  "and_then (Inl e) f = Inl e"
| "and_then (Inr x) f = f x"

text \<open>A loop that appends one result per item and stops at the first that raises.\<close>

fun collect :: "('i \<Rightarrow> 'a py_result) \<Rightarrow> 'i list \<Rightarrow> 'a list py_result" where
  "collect f [] = Inr []"
| "collect f (x # xs) = and_then (f x) (\<lambda>y. and_then (collect f xs) (\<lambda>ys. Inr (y # ys)))"

definition cast_or :: "'a option \<Rightarrow> 'a py_result" where
  "cast_or r = (case r of None \<Rightarrow> Inl CastError | Some x \<Rightarrow> Inr x)"


section \<open>Conversions\<close>

definition is_numeric :: "'o py_api \<Rightarrow> 'o \<Rightarrow> bool" where
  "is_numeric api item = (if py_complex_check api item then False else py_number_check api item)"

definition vector_element :: "'o py_api \<Rightarrow> 'o \<Rightarrow> nat \<Rightarrow> f32 py_result" where
  "vector_element api p i =
     (case py_get_item api p i of
        None \<Rightarrow> Inl PendingError
      | Some item \<Rightarrow>
          if \<not> is_numeric api item then Inl (TypeError (ElementNotNumber i))
          else case py_as_double api item of
            None \<Rightarrow> Inl (TypeError (ElementNotNumber i))
          | Some v \<Rightarrow> Inr (f32_of_f64 v))"

definition to_float_vector :: "'o py_api \<Rightarrow> 'o \<Rightarrow> f32 list py_result" where
  "to_float_vector api p =
     (if \<not> py_sequence_check api p then Inl (TypeError VectorNotSequence)
      else if py_sequence_size api p < 0 then Inl PendingError
      else collect (vector_element api p) [0..<nat (py_sequence_size api p)])"

definition to_metadata_value :: "'o py_api \<Rightarrow> string \<Rightarrow> 'o \<Rightarrow> metadata_value py_result" where
  "to_metadata_value api key v =
     (if py_bool_check api v then and_then (cast_or (cast_bool api v)) (\<lambda>b. Inr (MBool b))
      else if py_long_check api v then and_then (cast_or (cast_int64 api v)) (\<lambda>i. Inr (MInt64 i))
      else if py_float_check api v then and_then (cast_or (cast_double api v)) (\<lambda>d. Inr (MDouble d))
      else if py_unicode_check api v then and_then (cast_or (cast_string api v)) (\<lambda>s. Inr (MString s))
      else Inl (TypeError (BadMetadataValue key)))"

fun metadata_entries :: "'o py_api \<Rightarrow> ('o \<times> 'o) list \<Rightarrow> metadata \<Rightarrow> metadata py_result" where
  "metadata_entries api [] meta = Inr meta"
| "metadata_entries api ((k, v) # rest) meta =
     (if \<not> py_unicode_check api k then Inl (TypeError KeyNotString)
      else and_then (cast_or (cast_string api k)) (\<lambda>key.
             and_then (to_metadata_value api key v) (\<lambda>value. metadata_entries api rest (omap_set key value meta))))"

definition to_metadata :: "'o py_api \<Rightarrow> 'o \<Rightarrow> metadata py_result" where
  "to_metadata api dict = metadata_entries api (py_dict_items api dict) []"

definition optional_metadata :: "'o py_api \<Rightarrow> type_error \<Rightarrow> 'o \<Rightarrow> metadata option py_result" where
  "optional_metadata api err m =
     (if py_is_none api m then Inr None
      else if \<not> py_dict_check api m then Inl (TypeError err)
      else and_then (to_metadata api m) (\<lambda>meta. Inr (Some meta)))"

definition lower_char :: "char \<Rightarrow> char" where
  "lower_char ch = (let n = of_char ch :: nat in if 65 \<le> n \<and> n \<le> 90 then char_of (n + 32) else ch)"

definition to_lower :: "string \<Rightarrow> string" where
  "to_lower s = map lower_char s"

definition parse_metric :: "string \<Rightarrow> distance_metric py_result" where
  "parse_metric metric =
     (let m = to_lower metric in
      if m = ''euclidean'' \<or> m = ''l2'' then Inr Euclidean
      else if m = ''cosine'' then Inr Cosine
      else if m = ''dot'' \<or> m = ''dot_product'' \<or> m = ''dotproduct'' \<or> m = ''ip'' then Inr DotProduct
      else Inl (CoreError InvalidMetric))"

definition parse_index_type :: "string \<Rightarrow> index_type py_result" where
  "parse_index_type type =
     (let t = to_lower type in
      if t = ''hnsw'' then Inr HNSW
      else if t = ''ivf'' then Inr IVF
      else if t = ''none'' then Inr NoIndex
      else Inl (CoreError InvalidArgument))"

text \<open>An optional keyword argument.\<close>

definition keyword :: "('o \<Rightarrow> 'a option) \<Rightarrow> (string \<Rightarrow> 'o option) \<Rightarrow> string \<Rightarrow> 'a \<Rightarrow> 'a py_result" where
  "keyword cast kwargs key unset = (case kwargs key of None \<Rightarrow> Inr unset | Some x \<Rightarrow> cast_or (cast x))"


section \<open>Methods of a collection\<close>

definition py_insert ::
  "'o py_api \<Rightarrow> host \<Rightarrow> collection \<Rightarrow> allocator \<Rightarrow> record_id \<Rightarrow> 'o \<Rightarrow> 'o \<Rightarrow> (unit py_result \<times> collection \<times> allocator) option" where
  "py_insert api h c a rid vec meta =
     (case and_then (to_float_vector api vec) (\<lambda>v. and_then (optional_metadata api MetadataNotDict meta) (\<lambda>m. Inr (v, m))) of
        Inl e \<Rightarrow> Some (Inl e, c, a)
      | Inr (v, m) \<Rightarrow> map_option (map_prod throw_if_error id) (coll_insert h c a rid v m))"




text \<open>A vector is returned as a list of doubles, metadata as a dict or \<open>None\<close>.\<close>

definition py_get :: "collection \<Rightarrow> allocator \<Rightarrow> record_id \<Rightarrow> (f64 list \<times> metadata option) py_result option" where
  "py_get c a rid =
     map_option (\<lambda>r. map_sum id (\<lambda>view. (map f64_of_f32 (view_vector view), view_meta view)) (throw_if_error r)) (coll_get c a rid)"

definition py_delete :: "collection \<Rightarrow> allocator \<Rightarrow> record_id \<Rightarrow> unit py_result \<times> collection \<times> allocator" where
  "py_delete c a rid = map_prod throw_if_error id (coll_remove c a rid)"

definition py_build_index ::
  "'o py_api \<Rightarrow> host \<Rightarrow> collection \<Rightarrow> allocator \<Rightarrow> string \<Rightarrow> (string \<Rightarrow> 'o option) \<Rightarrow> (unit py_result \<times> collection) option" where
  "py_build_index api h c a type kwargs =
     (let d = default_index_params in
      case and_then (parse_index_type type) (\<lambda>t.
           and_then (keyword (cast_uint32 api) kwargs ''m'' (ip_m d)) (\<lambda>m.
           and_then (keyword (cast_uint32 api) kwargs ''ef_construction'' (ip_ef_construction d)) (\<lambda>ef.
           and_then (keyword (cast_uint32 api) kwargs ''nlist'' (ip_nlist d)) (\<lambda>nlist.
           and_then (keyword (cast_uint64 api) kwargs ''seed'' (ip_seed d)) (\<lambda>seed.
             Inr (t, \<lparr>ip_m = m, ip_ef_construction = ef, ip_nlist = nlist, ip_seed = seed\<rparr>)))))) of
        Inl e \<Rightarrow> Some (Inl e, c)
      | Inr (t, params) \<Rightarrow> map_option (map_prod throw_if_error id) (coll_build_index h c a t params))"





section \<open>Methods of the engine\<close>

text \<open>A returned collection is the raw pointer of the handle.\<close>

definition py_create_collection :: "engine \<Rightarrow> string \<Rightarrow> u32 \<Rightarrow> string \<Rightarrow> collection_handle py_result \<times> engine" where
  "py_create_collection e name dm metric =
     (case parse_metric metric of
        Inl err \<Rightarrow> (Inl err, e)
      | Inr m \<Rightarrow> map_prod throw_if_error id (create_collection e name dm m))"

definition py_get_collection :: "engine \<Rightarrow> string \<Rightarrow> collection_handle py_result" where
  "py_get_collection e name = throw_if_error (get_collection e name)"

definition py_delete_collection :: "engine \<Rightarrow> string \<Rightarrow> unit py_result \<times> engine" where
  "py_delete_collection e name = map_prod throw_if_error id (delete_collection None e name)"

definition py_save ::
  "io_results \<Rightarrow> nat \<Rightarrow> nat \<Rightarrow> engine \<Rightarrow> string \<Rightarrow> file_path \<Rightarrow> file_system \<Rightarrow> (unit py_result \<times> file_system list) option" where
  "py_save io now n e name path fs = map_option (map_prod throw_if_error id) (engine_save io now n e name path fs)"

definition py_load ::
  "host \<Rightarrow> bool \<Rightarrow> engine \<Rightarrow> file_path \<Rightarrow> file_system \<Rightarrow> (collection_handle py_result \<times> engine) option" where
  "py_load h can_map e path fs = map_option (map_prod throw_if_error id) (engine_load h can_map e path fs)"



section \<open>Properties\<close>



lemma collect_first_error:
  "collect f xs = Inl e \<longleftrightarrow> (\<exists>i < length xs. f (xs ! i) = Inl e \<and> (\<forall>j < i. \<exists>y. f (xs ! j) = Inr y))"
proof (induction xs)
  case (Cons x xs)
  show ?case
  proof (cases "f x")
    case (Inl e')
    then show ?thesis by (auto simp: less_Suc_eq_0_disj)
  next
    case (Inr y)
    have "collect f (x # xs) = Inl e \<longleftrightarrow> collect f xs = Inl e" using Inr by (cases "collect f xs") simp_all
    also have "\<dots> \<longleftrightarrow> (\<exists>i < length (x # xs). f ((x # xs) ! i) = Inl e \<and> (\<forall>j < i. \<exists>y. f ((x # xs) ! j) = Inr y))"
      unfolding Cons.IH using Inr by (simp add: All_less_Suc2 Ex_less_Suc2)
    finally show ?thesis .
  qed
qed simp








section \<open>An example\<close>











end
