(* ===== verification/Spec2Isabelle.thy ===== *)
theory Spec2Isabelle
  imports Crc64 Distance_Simd Engine_Claims Mmap Py_Bindings
begin

text \<open>
  A verification library for Vector-Vault, an embedded vector database in C++17
  (\<open>src/include/vectorvault\<close> and \<open>src/src/core\<close>) with Python bindings (\<open>src/src/python\<close>).

  The program.  An \<open>Engine\<close> is a registry of named collections over one arena allocator.  A
  collection validates records, keeps their vectors in blocks of the arena held under its own tag,
  and keeps an optional index over them, a graph (HNSW) or inverted lists (IVF), which answers
  queries approximately; the collection re-ranks the candidates exactly.  A collection is saved to a
  snapshot file by writing a temporary file and renaming it, and loaded back by mapping the file, so
  that the vectors of a loaded collection are read through the mapping.

  How code is represented.  A class is a record of its data members, a method a function of the
  object and of whatever it mutates that returns the new versions; a \<open>Result\<close> or \<open>Status\<close> is a sum
  with the error category on the left (the message that goes with it is not carried); \<open>std::map\<close> is a
  sorted association list (\<open>omap\<close>) and \<open>std::unordered_map\<close> an association list whose order nothing
  depends on.  Integers keep their width as words wherever they can wrap; \<open>float\<close> and \<open>double\<close> are
  IEEE bit patterns with executable, correctly rounded operations.  An outer \<open>None\<close> is undefined
  behaviour of the C++ program (an index out of range, a null or dangling pointer, a sort with a
  comparator that is no strict weak ordering), written \<open>undefined_behaviour\<close>; the theorems
  show that it is not reached.  Locks are taken for the whole of each operation, so an operation is
  one step.

  The theories, in the order of the code's layers:

  \<^item> \<open>Prelude\<close>, \<open>Ordering\<close>: machine integers, the ordered and the hash map, sorting and priority
    queues over a comparator; the locales \<open>strict_weak\<close> and \<open>strict_total\<close>, interpreted for every
    comparator of the code.
  \<^item> \<open>Floats\<close>, \<open>Float_Facts\<close>: binary32 and binary64 arithmetic and when it yields a NaN.
  \<^item> \<open>Types\<close>: \<open>types.hpp\<close>, \<open>error.hpp\<close>, the parameter structs of \<open>index.hpp\<close>.
  \<^item> \<open>Distance\<close>, \<open>Distance_Simd\<close>: \<open>distance.cpp\<close>, the scalar and the AVX-512 kernels.  Error outcomes, the
    range of the cosine distance, the laws of the Euclidean one whichever kernels are chosen; over- and
    underflow of the cosine distance.
  \<^item> \<open>Free_List\<close>, \<open>Allocator\<close>, \<open>Tagged_Store\<close>: \<open>memory_allocator.cpp\<close>.  The reachable invariant
    (partition, coalescing, exact accounting), first fit, canonicity of the free list, and the
    contracts \<open>block_store\<close> and \<open>tagged_store\<close> on which collections and the engine are proved.
  \<^item> \<open>Bytes\<close>, \<open>Metadata\<close>, \<open>Crc64\<close>: \<open>ByteWriter\<close>/\<open>ByteReader\<close> of \<open>snapshot_format.hpp\<close>, the metadata
    encoding of \<open>persistence.cpp\<close>, \<open>crc64.cpp\<close>.  In-bounds reads on any input, round trips (the
    locale \<open>codec\<close>), the bit-serial reference, detection of bursts.
  \<^item> \<open>Index_Spec\<close>: the contract of an index (locale \<open>vector_index\<close>), discharged in \<open>Ivf\<close>
    (\<open>ivf_index.cpp\<close>), \<open>Hnsw\<close> with \<open>Hnsw_Index\<close> (\<open>hnsw_index.cpp\<close>) and for the dispatch of \<open>index.hpp\<close>
    in \<open>Index\<close>.  Each index refines a finite map, its searches are sound, and exact under the
    conditions stated.  \<open>Hnsw_Serial\<close> and \<open>Hnsw_Roundtrip\<close>: the canonical byte form of the graph.
  \<^item> \<open>Collection\<close>: \<open>collection.cpp\<close>, with its specification as a finite map (\<open>Collection_Spec\<close>), the
    refinement of every operation (\<open>Collection_Ops\<close>, \<open>Collection_Query\<close>) and the resulting properties
    (\<open>Collection_Claims\<close>, \<open>Memory_Reuse\<close>).
  \<^item> \<open>Snapshot\<close>: \<open>persistence.cpp\<close> with the header of \<open>snapshot_format.hpp\<close>; the layout of an image
    (\<open>Snapshot_Image\<close>), save and load (\<open>Snapshot_Roundtrip\<close>), arbitrary files (\<open>Snapshot_Safety\<close>) and
    the properties (\<open>Snapshot_Claims\<close>): atomic saves, the round trip, rejection of damaged files.
  \<^item> \<open>Engine\<close>: \<open>engine.cpp\<close>; its view as a map of maps and the invariant (\<open>Engine_Inv\<close>), the state
    machine of client operations, saves, loads and crashes (\<open>Engine_Steps\<close>) and the properties of its
    reachable states (\<open>Engine_Claims\<close>).
  \<^item> \<open>Mmap\<close>: the POSIX branch of \<open>mmap_region.cpp\<close>, with the process's descriptors and mappings.
  \<^item> \<open>Py_Bindings\<close>: \<open>src/src/python/module.cpp\<close>, the conversions of Python objects and errors around
    the collection and the engine, over the interpreter's API as a parameter.

  Parameters.  What is outside the repository is an argument: \<open>host\<close> holds the calculator
  made at start (with AVX-512 or without; the order in which the compiler adds the lanes of a register is
  open), the draws of \<open>std::mt19937_64\<close>, the
  logarithm and \<open>std::shuffle\<close>; \<open>io_results\<close> and \<open>map_calls\<close> hold the results of the file-system calls, the
  clock and the temporary-file counter are arguments of a save.  Named hypotheses on them:
  \<open>nan_free\<close> (no distance of finite vectors is NaN; it is proved of the scalar and of the
  AVX-512 kernels for two metrics, and false of the cosine metric, where a NaN reaches a sort),
  \<open>reduce_adds\<close> (a reduction adds every lane once), \<open>shuffle_permutes\<close>, the condition on
  drawn levels in \<open>index_host_ok\<close>, and \<open>calls_ok\<close> (the operating system returns new descriptors and
  ranges).

  Bounds.  Slot numbers of an index stay below \<open>2 ^ 31\<close>, since the code stores them in 32 bits and signed
  integers (\<open>coll_room\<close>); an image is shorter than \<open>2 ^ 64\<close>; a file of arbitrary content is shorter than
  \<open>2 ^ 46\<close> bytes, so that the product of count and stride in the layout checks does not wrap; the tag
  counter has not reached its last value.  No fuel is used: the loops are structural or have
  termination proofs, and the graph searches visit each node at most once.

  Not modelled.  The registration of types and functions with pybind11, the text of error messages, the
  Windows branches, \<open>span.hpp\<close> and the version constants, and interleavings below a whole operation (the
  locks are taken as correct; the known exception is the IVF cache, rebuilt under a shared lock).
\<close>

end
